(* ===== verification/Prelude.thy ===== *)
theory Prelude
  imports Main "HOL-Library.Word"
begin

unbundle bit_operations_syntax

text \<open>
  Shared vocabulary of the development: the machine integer types of the C code, the
  outcomes a kernel or user routine can have, sequencing of routines, the table scans that
  the C loops perform, and the generic lemmas on lists and words the components share.
\<close>

section \<open>Machine integers\<close>

text \<open>The \<open>uchar\<close>, \<open>ushort\<close> and \<open>uint\<close> of types.h.\<close>

type_synonym u8 = "8 word"
type_synonym u16 = "16 word"
type_synonym u32 = "32 word"

section \<open>Outcomes\<close>

text \<open>
  What running a C function from a state gives:
  \<^item> \<open>Ok v s\<close>: it returns \<open>v\<close> in state \<open>s\<close>;
  \<^item> \<open>Panic m\<close>: it calls \<open>panic(m)\<close>;
  \<^item> \<open>Fault m\<close>: it performs an access that C leaves undefined (an index past the end of an
    array, a null pointer);
  \<^item> \<open>Asleep s\<close>: it gave up the CPU in \<open>sched()\<close> and was not run again;
  \<^item> \<open>Stuck\<close>: it spins forever on a lock that stays held, or another of its loops never ends;
  \<^item> \<open>Exited s\<close>: control left for good through \<open>exit()\<close>.
\<close>

datatype ('a, 's) outcome =
    Ok 'a 's
  | Panic string
  | Fault string
  | Asleep 's
  | Stuck
  | Exited 's

primrec bnd :: "('a, 's) outcome \<Rightarrow> ('a \<Rightarrow> 's \<Rightarrow> ('b, 's) outcome) \<Rightarrow> ('b, 's) outcome" where
  "bnd (Ok a s) f = f a s"
| "bnd (Panic m) f = Panic m"
| "bnd (Fault m) f = Fault m"
| "bnd (Asleep s) f = Asleep s"
| "bnd Stuck f = Stuck"
| "bnd (Exited s) f = Exited s"

fun is_ok :: "('a, 's) outcome \<Rightarrow> bool" where
  "is_ok (Ok a s) = True"
| "is_ok _ = False"

text \<open>Sequencing for its effect only.\<close>

definition seq :: "('a, 's) outcome \<Rightarrow> ('s \<Rightarrow> ('b, 's) outcome) \<Rightarrow> ('b, 's) outcome" where
  "seq m f = bnd m (\<lambda>_. f)"

text \<open>A counted C loop whose body has effects: the indices in order, stopping at the first
  outcome other than a normal return.\<close>

fun for_each :: "('i \<Rightarrow> 's \<Rightarrow> (unit, 's) outcome) \<Rightarrow> 'i list \<Rightarrow> 's \<Rightarrow> (unit, 's) outcome" where
  "for_each body [] s = Ok () s"
| "for_each body (i # is) s = seq (body i s) (for_each body is)"

text \<open>A C loop that may run forever: the body gives a result to leave the loop with, or nothing to
  go round again; a run that never leaves the loop is \<open>Stuck\<close>.\<close>

partial_function (option) iterate :: "('s \<Rightarrow> ('r option, 's) outcome) \<Rightarrow> 's \<Rightarrow> ('r, 's) outcome option" where
  "iterate body s =
     (case body s of
        Ok r s \<Rightarrow> (case r of None \<Rightarrow> iterate body s | Some v \<Rightarrow> Some (Ok v s))
      | Panic m \<Rightarrow> Some (Panic m)
      | Fault m \<Rightarrow> Some (Fault m)
      | Asleep s \<Rightarrow> Some (Asleep s)
      | Stuck \<Rightarrow> Some Stuck
      | Exited s \<Rightarrow> Some (Exited s))"

definition loop :: "('s \<Rightarrow> ('r option, 's) outcome) \<Rightarrow> 's \<Rightarrow> ('r, 's) outcome" where
  "loop body s = (case iterate body s of None \<Rightarrow> Stuck | Some r \<Rightarrow> r)"

lemma loop_unfold:
  "loop body s = bnd (body s) (\<lambda>r s. case r of None \<Rightarrow> loop body s | Some v \<Rightarrow> Ok v s)"
  unfolding loop_def by (subst iterate.simps) (simp split: outcome.split option.split)

text \<open>The same with local variables: the body gives their next values, or the result.\<close>

partial_function (option) iterate_with :: "('l \<Rightarrow> 's \<Rightarrow> ('l + 'r, 's) outcome) \<Rightarrow> 'l \<Rightarrow> 's \<Rightarrow> ('r, 's) outcome option" where
  "iterate_with body l s =
     (case body l s of
        Ok r s \<Rightarrow> (case r of Inl l \<Rightarrow> iterate_with body l s | Inr v \<Rightarrow> Some (Ok v s))
      | Panic m \<Rightarrow> Some (Panic m)
      | Fault m \<Rightarrow> Some (Fault m)
      | Asleep s \<Rightarrow> Some (Asleep s)
      | Stuck \<Rightarrow> Some Stuck
      | Exited s \<Rightarrow> Some (Exited s))"

definition loop_with :: "('l \<Rightarrow> 's \<Rightarrow> ('l + 'r, 's) outcome) \<Rightarrow> 'l \<Rightarrow> 's \<Rightarrow> ('r, 's) outcome" where
  "loop_with body l s = (case iterate_with body l s of None \<Rightarrow> Stuck | Some r \<Rightarrow> r)"

lemma loop_with_unfold:
  "loop_with body l s = bnd (body l s) (\<lambda>r s. case r of Inl l \<Rightarrow> loop_with body l s | Inr v \<Rightarrow> Ok v s)"
  unfolding loop_with_def by (subst iterate_with.simps) (simp split: outcome.split sum.split)

text \<open>A loop whose body decreases a measure ends, with what its last round gives.\<close>

definition round_ok :: "('l \<Rightarrow> 's \<Rightarrow> bool) \<Rightarrow> (('r, 's) outcome \<Rightarrow> bool) \<Rightarrow> ('l + 'r, 's) outcome \<Rightarrow> bool" where
  "round_ok I P r \<longleftrightarrow>
     (case r of
        Ok x s \<Rightarrow> (case x of Inl l \<Rightarrow> I l s | Inr v \<Rightarrow> P (Ok v s))
      | Panic m \<Rightarrow> P (Panic m)
      | Fault m \<Rightarrow> P (Fault m)
      | Asleep s \<Rightarrow> P (Asleep s)
      | Stuck \<Rightarrow> P Stuck
      | Exited s \<Rightarrow> P (Exited s))"

lemma round_ok_simps [simp]:
  "round_ok I P (Ok (Inl l) s) = I l s" "round_ok I P (Ok (Inr v) s) = P (Ok v s)"
  "round_ok I P (Panic m) = P (Panic m)" "round_ok I P (Fault m) = P (Fault m)"
  by (simp_all add: round_ok_def)

lemma loop_with_rule:
  fixes f :: "'l \<Rightarrow> 's \<Rightarrow> nat"
  assumes "I l s" and step: "\<And>l s. I l s \<Longrightarrow> round_ok (\<lambda>l' s'. I l' s' \<and> f l' s' < f l s) P (body l s)"
  shows "P (loop_with body l s)"
  using assms(1)
proof (induction "f l s" arbitrary: l s rule: less_induct)
  case less
  then show ?case using step [OF less.prems]
    by (subst loop_with_unfold) (simp add: round_ok_def split: outcome.splits sum.splits)
qed

text \<open>The C loop \<open>for(i = ...; c(i); i++)\<close>, its condition read again in every round.\<close>

partial_function (option) for_iter :: "(nat \<Rightarrow> 's \<Rightarrow> bool) \<Rightarrow> (nat \<Rightarrow> 's \<Rightarrow> (unit, 's) outcome) \<Rightarrow> nat \<Rightarrow> 's \<Rightarrow>
    (unit, 's) outcome option" where
  "for_iter c body i s =
     (if c i s
      then (case body i s of
              Ok r s \<Rightarrow> for_iter c body (Suc i) s
            | Panic m \<Rightarrow> Some (Panic m)
            | Fault m \<Rightarrow> Some (Fault m)
            | Asleep s \<Rightarrow> Some (Asleep s)
            | Stuck \<Rightarrow> Some Stuck
            | Exited s \<Rightarrow> Some (Exited s))
      else Some (Ok () s))"

definition for_while :: "(nat \<Rightarrow> 's \<Rightarrow> bool) \<Rightarrow> (nat \<Rightarrow> 's \<Rightarrow> (unit, 's) outcome) \<Rightarrow> nat \<Rightarrow> 's \<Rightarrow> (unit, 's) outcome" where
  "for_while c body i s = (case for_iter c body i s of None \<Rightarrow> Stuck | Some r \<Rightarrow> r)"

text \<open>The scan \<open>for(p = tab; p < &tab[N]; p++) if(P(p)) break;\<close>: the first index that matches.\<close>

fun find_idx :: "('a \<Rightarrow> bool) \<Rightarrow> 'a list \<Rightarrow> nat option" where
  "find_idx P [] = None"
| "find_idx P (x # xs) = (if P x then Some 0 else map_option Suc (find_idx P xs))"

named_theorems outcome_simps \<open>sequencing and case analysis on outcomes\<close>

lemma seq_simps [simp]:
  "seq (Ok a s) f = f s" "seq (Panic m) f = Panic m" "seq (Fault m) f = Fault m"
  "seq (Asleep s) f = Asleep s" "seq Stuck f = Stuck" "seq (Exited s) f = Exited s"
  by (simp_all add: seq_def)

lemma bnd_assoc [outcome_simps]: "bnd (bnd m f) g = bnd m (\<lambda>a s. bnd (f a s) g)"
  by (cases m) simp_all

lemma seq_assoc [outcome_simps]: "seq (seq m f) g = seq m (\<lambda>s. seq (f s) g)"
  by (cases m) simp_all

lemma bnd_eq_Ok [outcome_simps]: "bnd m f = Ok b t \<longleftrightarrow> (\<exists>a s. m = Ok a s \<and> f a s = Ok b t)"
  by (cases m) simp_all

lemma seq_eq_Ok [outcome_simps]: "seq m f = Ok b t \<longleftrightarrow> (\<exists>a s. m = Ok a s \<and> f s = Ok b t)"
  by (cases m) simp_all

lemma seq_cong: "m = m' \<Longrightarrow> (\<And>s. f s = g s) \<Longrightarrow> seq m f = seq m' g"
  by (cases m') simp_all

lemma for_each_append:
  "for_each body (is @ js) s = seq (for_each body is s) (for_each body js)"
  by (induction "is" arbitrary: s) (simp_all add: seq_assoc cong: seq_cong)

text \<open>An invariant every body step keeps, with bodies that always return, is kept by the loop.\<close>

lemma for_each_Ok:
  assumes "\<And>i s. i \<in> set is \<Longrightarrow> I s \<Longrightarrow> body i s = Ok () (step i s)"
    and "\<And>i s. i \<in> set is \<Longrightarrow> I s \<Longrightarrow> I (step i s)" and "I s"
  shows "for_each body is s = Ok () (fold step is s) \<and> I (fold step is s)"
  using assms by (induction "is" arbitrary: s) simp_all

lemma for_while_unfold:
  "for_while c body i s = (if c i s then seq (body i s) (for_while c body (Suc i)) else Ok () s)"
  unfolding for_while_def by (subst for_iter.simps) (simp split: outcome.split)

text \<open>A loop whose condition holds up to \<open>n\<close> returns, with the invariant at \<open>n\<close>.\<close>

lemma for_while_inv:
  assumes "\<And>j s. j < n \<Longrightarrow> Inv j s \<Longrightarrow> c j s \<and> (\<exists>t. body j s = Ok () t \<and> Inv (Suc j) t)"
    and "\<And>s. Inv n s \<Longrightarrow> \<not> c n s" and "Inv i s" "i \<le> n"
  shows "\<exists>t. for_while c body i s = Ok () t \<and> Inv n t"
  using assms(3,4)
proof (induction "n - i" arbitrary: i s)
  case 0
  then show ?case using assms(2) by (subst for_while_unfold) simp
next
  case (Suc k)
  then have "i < n" by simp
  then obtain u where u: "c i s" "body i s = Ok () u" "Inv (Suc i) u" using assms(1) Suc.prems(1) by blast
  have "\<exists>t. for_while c body (Suc i) u = Ok () t \<and> Inv n t"
    using Suc.hyps u(3) \<open>i < n\<close> by (intro Suc.hyps(1)) simp_all
  then show ?case using u by (subst for_while_unfold) simp
qed

section \<open>Table scans\<close>

lemma find_idx_None [simp]: "find_idx P xs = None \<longleftrightarrow> (\<forall>x \<in> set xs. \<not> P x)"
  by (induction xs) auto

lemma find_idx_Some:
  "find_idx P xs = Some i \<longleftrightarrow> i < length xs \<and> P (xs ! i) \<and> (\<forall>j < i. \<not> P (xs ! j))"
proof (induction xs arbitrary: i)
  case Nil
  then show ?case by simp
next
  case (Cons x xs)
  show ?case
  proof (cases i)
    case 0
    then show ?thesis by (auto split: if_splits)
  next
    case (Suc k)
    then show ?thesis
      by (auto simp: Cons.IH All_less_Suc2 split: if_splits)
  qed
qed

lemma find_idx_bound: "find_idx P xs = Some i \<Longrightarrow> i < length xs"
  by (simp add: find_idx_Some)

lemma find_idx_holds: "find_idx P xs = Some i \<Longrightarrow> P (xs ! i)"
  by (simp add: find_idx_Some)

lemma find_idx_ex: "i < length xs \<Longrightarrow> P (xs ! i) \<Longrightarrow> \<exists>j. find_idx P xs = Some j"
  by (cases "find_idx P xs") (use nth_mem in auto)

section \<open>Lists\<close>

lemma nth_upd: "xs[b := x] ! i = (if b = i \<and> i < length xs then x else xs ! i)"
  by (cases "b = i"; cases "i < length xs") (simp_all add: list_update_beyond not_less)

section \<open>Words\<close>

lemma unat_of_nat32: "n < 2 ^ 32 \<Longrightarrow> unat (of_nat n :: u32) = n"
  by (simp add: unat_of_nat)

lemma unat_lt32 [simp]: "unat (x :: u32) < 4294967296"
  using unsigned_less [of x] by simp

lemma unat_add_u32: "unat (a :: u32) + unat b < 2 ^ 32 \<Longrightarrow> unat (a + b) = unat a + unat b"
  by (simp add: unat_word_ariths)

end
