(* ===== verification/Bytes.thy ===== *)
theory Bytes
  imports Prelude
begin

text \<open>
  Byte-addressed memory with 32-bit addresses that wrap around, and the little-endian layout
  of \<open>ushort\<close> and \<open>uint\<close> values the x86 uses. Everything the kernel stores through a
  pointer (free-list links, page tables, frames on user stacks, directory entries) goes
  through these operations.
\<close>

type_synonym memory = "u32 \<Rightarrow> u8"

fun store_bytes :: "memory \<Rightarrow> u32 \<Rightarrow> u8 list \<Rightarrow> memory" where
  "store_bytes m a [] = m"
| "store_bytes m a (b # bs) = store_bytes (m(a := b)) (a + 1) bs"

definition load_bytes :: "memory \<Rightarrow> u32 \<Rightarrow> nat \<Rightarrow> u8 list" where
  "load_bytes m a n = map (\<lambda>i. m (a + of_nat i)) [0..<n]"

definition bytes16 :: "u16 \<Rightarrow> u8 list" where
  "bytes16 w = [ucast w, ucast (drop_bit 8 w)]"

definition bytes32 :: "u32 \<Rightarrow> u8 list" where
  "bytes32 w = [ucast w, ucast (drop_bit 8 w), ucast (drop_bit 16 w), ucast (drop_bit 24 w)]"

definition word16 :: "u8 list \<Rightarrow> u16" where
  "word16 bs = ucast (bs ! 0) OR push_bit 8 (ucast (bs ! 1))"

definition word32 :: "u8 list \<Rightarrow> u32" where
  "word32 bs = ucast (bs ! 0) OR push_bit 8 (ucast (bs ! 1))
     OR push_bit 16 (ucast (bs ! 2)) OR push_bit 24 (ucast (bs ! 3))"

definition store32 :: "memory \<Rightarrow> u32 \<Rightarrow> u32 \<Rightarrow> memory" where
  "store32 m a v = store_bytes m a (bytes32 v)"

definition load32 :: "memory \<Rightarrow> u32 \<Rightarrow> u32" where
  "load32 m a = word32 (load_bytes m a 4)"

text \<open>The bytes a block of \<open>n\<close> bytes at \<open>a\<close> occupies.\<close>

definition in_block :: "u32 \<Rightarrow> nat \<Rightarrow> u32 \<Rightarrow> bool" where
  "in_block a n x \<longleftrightarrow> unat (x - a) < n"

section \<open>Little-endian round trips\<close>

lemma length_bytes16 [simp]: "length (bytes16 w) = 2"
  by (simp add: bytes16_def)

lemma length_bytes32 [simp]: "length (bytes32 w) = 4"
  by (simp add: bytes32_def)

lemma word16_bytes16 [simp]: "word16 (bytes16 w) = w"
proof (rule bit_word_eqI)
  fix n assume n: "n < LENGTH(16)"
  consider "n < 8" | "8 \<le> n" by linarith
  then show "bit (word16 (bytes16 w)) n = bit w n"
    using n by cases (auto simp: word16_def bytes16_def bit_simps)
qed

lemma word32_bytes32 [simp]: "word32 (bytes32 w) = w"
proof (rule bit_word_eqI)
  fix n assume n: "n < LENGTH(32)"
  consider "n < 8" | "8 \<le> n" "n < 16" | "16 \<le> n" "n < 24" | "24 \<le> n" by linarith
  then show "bit (word32 (bytes32 w)) n = bit w n"
    using n by cases (auto simp: word32_def bytes32_def bit_simps numeral_3_eq_3)
qed

lemma word32_bytes32_append [simp]: "word32 (bytes32 w @ bs) = w"
proof -
  have "word32 (bytes32 w @ bs) = word32 (bytes32 w)"
    by (simp add: word32_def nth_append)
  then show ?thesis by simp
qed

lemma word16_bytes16_append [simp]: "word16 (bytes16 w @ bs) = w"
proof -
  have "word16 (bytes16 w @ bs) = word16 (bytes16 w)"
    by (simp add: word16_def nth_append)
  then show ?thesis by simp
qed

lemma bytes32_word32:
  assumes "length bs = 4"
  shows "bytes32 (word32 bs) = bs"
proof -
  obtain a b c d where bs: "bs = [a, b, c, d]"
    using assms by (auto simp: numeral_eq_Suc length_Suc_conv)
  have "ucast (word32 bs) = a" "ucast (drop_bit 8 (word32 bs)) = b"
    "ucast (drop_bit 16 (word32 bs)) = c" "ucast (drop_bit 24 (word32 bs)) = d"
    by (rule bit_word_eqI, auto simp: word32_def bs bit_simps numeral_3_eq_3 dest: bit_imp_le_length)+
  then show ?thesis by (simp add: bytes32_def bs)
qed

section \<open>Memory\<close>

lemma length_load_bytes [simp]: "length (load_bytes m a n) = n"
  by (simp add: load_bytes_def)

lemma nth_load_bytes [simp]: "i < n \<Longrightarrow> load_bytes m a n ! i = m (a + of_nat i)"
  by (simp add: load_bytes_def)

lemma load_bytes_Suc: "load_bytes m a (Suc n) = m a # load_bytes m (a + 1) n"
  by (simp add: load_bytes_def map_upt_Suc add.assoc del: upt_Suc)

text \<open>The content of memory after a block store, address by address. A block of up to
  \<open>2^32\<close> bytes never overwrites itself.\<close>

lemma unat_minus_one: "(x :: u32) \<noteq> 0 \<Longrightarrow> unat (x - 1) = unat x - 1"
  using unat_gt_0 [of x] by (auto simp: unat_sub_if' simp del: unat_gt_0)

lemma store_bytes_at:
  "length bs \<le> 2 ^ 32 \<Longrightarrow>
    store_bytes m a bs x = (if unat (x - a) < length bs then bs ! unat (x - a) else m x)"
proof (induction bs arbitrary: m a)
  case Nil
  then show ?case by simp
next
  case (Cons b bs)
  have IH: "store_bytes (m(a := b)) (a + 1) bs x =
      (if unat (x - (a + 1)) < length bs then bs ! unat (x - (a + 1)) else (m(a := b)) x)"
    using Cons.prems by (intro Cons.IH) simp
  show ?case
  proof (cases "x = a")
    case True
    have "unat (x - (a + 1)) = 2 ^ 32 - 1"
      using True by (simp add: unsigned_minus_1_eq_mask mask_eq_exp_minus_1)
    then show ?thesis using True Cons.prems IH by simp
  next
    case False
    then have "x - a \<noteq> 0" by simp
    then have "unat (x - (a + 1)) = unat (x - a) - 1" "0 < unat (x - a)"
      using unat_minus_one [of "x - a"] by (simp_all add: diff_diff_eq unat_gt_0)
    then show ?thesis using False IH by (cases "unat (x - a)") auto
  qed
qed

lemma store_bytes_outside:
  "length bs \<le> 2 ^ 32 \<Longrightarrow> \<not> in_block a (length bs) x \<Longrightarrow> store_bytes m a bs x = m x"
  by (simp add: store_bytes_at in_block_def)

lemma store_bytes_append:
  "store_bytes m a (xs @ ys) = store_bytes (store_bytes m a xs) (a + of_nat (length xs)) ys"
  by (induction xs arbitrary: m a) (simp_all add: add.assoc)

lemma load_store_bytes:
  assumes "length bs \<le> 2 ^ 32" and "n = length bs"
  shows "load_bytes (store_bytes m a bs) a n = bs"
proof (rule nth_equalityI)
  fix i assume "i < length (load_bytes (store_bytes m a bs) a n)"
  with assms have i: "i < length bs" and "unat (of_nat i :: u32) = i"
    by (simp_all add: unat_of_nat32)
  then show "load_bytes (store_bytes m a bs) a n ! i = bs ! i"
    using assms by (simp add: store_bytes_at)
qed (simp add: assms)

lemma load_store_bytes_disjoint:
  assumes "length bs \<le> 2 ^ 32"
    and "\<And>i. i < n \<Longrightarrow> \<not> in_block a (length bs) (b + of_nat i)"
  shows "load_bytes (store_bytes m a bs) b n = load_bytes m b n"
  using assms by (intro nth_equalityI) (simp_all add: store_bytes_outside)

lemma load_bytes_cong:
  "(\<And>i. i < n \<Longrightarrow> m (a + of_nat i) = m' (a + of_nat i)) \<Longrightarrow> load_bytes m a n = load_bytes m' a n"
  by (intro nth_equalityI) simp_all

lemma load32_store32 [simp]: "load32 (store32 m a v) a = v"
  by (simp add: load32_def store32_def load_store_bytes)

lemma store32_outside: "\<not> in_block a 4 x \<Longrightarrow> store32 m a v x = m x"
  by (simp add: store32_def store_bytes_outside)

lemma load32_cong:
  "(\<And>i. i < 4 \<Longrightarrow> m (a + of_nat i) = m' (a + of_nat i)) \<Longrightarrow> load32 m a = load32 m' a"
  unfolding load32_def by (intro arg_cong [where f = word32] load_bytes_cong)

end
