(* ===== verification/Cstring.thy ===== *)
theory Cstring
  imports Bytes
begin

text \<open>
  The kernel's string.c. Routines that may see overlapping blocks (\<open>memmove\<close>) or that take a
  different path by alignment (\<open>memset\<close>) work on the byte memory; routines that only read
  take the bytes a pointer sees as a function of the offset (\<open>cptr\<close>); routines that fill a
  character array of their own take that array as a list and write it by index.
\<close>

type_synonym cptr = "nat \<Rightarrow> u8"

section \<open>Block operations\<close>

text \<open>\<open>stosb\<close> and \<open>stosl\<close> of x86.h: store \<open>n\<close> bytes, or \<open>n\<close> 32-bit words, upwards.\<close>

definition stosb :: "memory \<Rightarrow> u32 \<Rightarrow> u32 \<Rightarrow> u32 \<Rightarrow> memory" where
  "stosb m dst c n = store_bytes m dst (replicate (unat n) (ucast c))"

definition stosl :: "memory \<Rightarrow> u32 \<Rightarrow> u32 \<Rightarrow> u32 \<Rightarrow> memory" where
  "stosl m dst w n = store_bytes m dst (concat (replicate (unat n) (bytes32 w)))"

definition memset :: "memory \<Rightarrow> u32 \<Rightarrow> u32 \<Rightarrow> u32 \<Rightarrow> memory" where
  "memset m dst c n =
     (if sint dst mod 4 = 0 \<and> n mod 4 = 0
      then let c = c AND 0xFF
           in stosl m dst (push_bit 24 c OR push_bit 16 c OR push_bit 8 c OR c) (n div 4)
      else stosb m dst c n)"

fun memcmp_loop :: "cptr \<Rightarrow> cptr \<Rightarrow> nat \<Rightarrow> nat \<Rightarrow> int" where
  "memcmp_loop s1 s2 i 0 = 0"
| "memcmp_loop s1 s2 i (Suc n) =
     (if s1 i \<noteq> s2 i then uint (s1 i) - uint (s2 i) else memcmp_loop s1 s2 (Suc i) n)"

definition memcmp :: "cptr \<Rightarrow> cptr \<Rightarrow> u32 \<Rightarrow> int" where
  "memcmp v1 v2 n = memcmp_loop v1 v2 0 (unat n)"

text \<open>The two copy loops of \<open>memmove\<close>: \<open>*d++ = *s++\<close> and \<open>*--d = *--s\<close>.\<close>

fun copy_up :: "memory \<Rightarrow> u32 \<Rightarrow> u32 \<Rightarrow> nat \<Rightarrow> memory" where
  "copy_up m d s 0 = m"
| "copy_up m d s (Suc n) = copy_up (m(d := m s)) (d + 1) (s + 1) n"

fun copy_down :: "memory \<Rightarrow> u32 \<Rightarrow> u32 \<Rightarrow> nat \<Rightarrow> memory" where
  "copy_down m d s 0 = m"
| "copy_down m d s (Suc n) = copy_down (m(d - 1 := m (s - 1))) (d - 1) (s - 1) n"

definition memmove :: "memory \<Rightarrow> u32 \<Rightarrow> u32 \<Rightarrow> u32 \<Rightarrow> memory" where
  "memmove m dst src n =
     (if src < dst \<and> src + n > dst
      then copy_down m (dst + n) (src + n) (unat n)
      else copy_up m dst src (unat n))"

definition memcpy :: "memory \<Rightarrow> u32 \<Rightarrow> u32 \<Rightarrow> u32 \<Rightarrow> memory" where
  "memcpy m dst src n = memmove m dst src n"

section \<open>Strings\<close>

fun strncmp_loop :: "cptr \<Rightarrow> cptr \<Rightarrow> nat \<Rightarrow> nat \<Rightarrow> int" where
  "strncmp_loop p q i 0 = 0"
| "strncmp_loop p q i (Suc n) =
     (if p i \<noteq> 0 \<and> p i = q i then strncmp_loop p q (Suc i) n
      else uint (p i) - uint (q i))"

definition strncmp :: "cptr \<Rightarrow> cptr \<Rightarrow> u32 \<Rightarrow> int" where
  "strncmp p q n = strncmp_loop p q 0 (unat n)"

fun zero_fill :: "u8 list \<Rightarrow> nat \<Rightarrow> nat \<Rightarrow> u8 list" where
  "zero_fill s i 0 = s"
| "zero_fill s i (Suc n) = zero_fill (s[i := 0]) (Suc i) n"

fun strncpy_loop :: "u8 list \<Rightarrow> cptr \<Rightarrow> nat \<Rightarrow> nat \<Rightarrow> u8 list" where
  "strncpy_loop s t i 0 = s"
| "strncpy_loop s t i (Suc n) =
     (if t i \<noteq> 0 then strncpy_loop (s[i := t i]) t (Suc i) n
      else zero_fill (s[i := t i]) (Suc i) n)"

definition strncpy :: "u8 list \<Rightarrow> cptr \<Rightarrow> int \<Rightarrow> u8 list" where
  "strncpy s t n = strncpy_loop s t 0 (nat n)"

fun safestrcpy_loop :: "u8 list \<Rightarrow> cptr \<Rightarrow> nat \<Rightarrow> nat \<Rightarrow> u8 list" where
  "safestrcpy_loop s t i 0 = s[i := 0]"
| "safestrcpy_loop s t i (Suc n) =
     (if t i \<noteq> 0 then safestrcpy_loop (s[i := t i]) t (Suc i) n
      else (s[i := t i])[Suc i := 0])"

definition safestrcpy :: "u8 list \<Rightarrow> cptr \<Rightarrow> int \<Rightarrow> u8 list" where
  "safestrcpy s t n = (if n \<le> 0 then s else safestrcpy_loop s t 0 (nat n - 1))"

partial_function (option) strlen_loop :: "cptr \<Rightarrow> nat \<Rightarrow> nat option" where
  "strlen_loop s n = (if s n \<noteq> 0 then strlen_loop s (Suc n) else Some n)"

definition strlen :: "cptr \<Rightarrow> nat option" where
  "strlen s = strlen_loop s 0"

text \<open>The C string a pointer sees within \<open>n\<close> bytes: the bytes before the first NUL.\<close>

definition cstr :: "cptr \<Rightarrow> nat \<Rightarrow> u8 list" where
  "cstr t n = takeWhile (\<lambda>b. b \<noteq> 0) (map t [0..<n])"

section \<open>Block operations: correctness\<close>

lemma concat_replicate_bytes32:
  assumes "bytes32 w = replicate 4 b"
  shows "concat (replicate n (bytes32 w)) = replicate (4 * n) b"
  by (induction n) (simp_all add: assms replicate_add [symmetric])

lemma memset_pattern:
  "bytes32 (push_bit 24 (c AND 0xFF) OR push_bit 16 (c AND 0xFF) OR push_bit 8 (c AND 0xFF)
      OR (c AND 0xFF)) = replicate 4 (ucast (c :: u32))"
proof -
  define d where "d = c AND 0xFF"
  have "d = take_bit 8 c"
    by (simp add: d_def take_bit_eq_mask mask_eq_exp_minus_1)
  then have bit_d: "bit d n \<longleftrightarrow> n < 8 \<and> bit c n" for n
    by (simp add: bit_take_bit_iff)
  let ?w = "push_bit 24 d OR push_bit 16 d OR push_bit 8 d OR d"
  have "ucast ?w = (ucast c :: u8)" "ucast (drop_bit 8 ?w) = (ucast c :: u8)"
    "ucast (drop_bit 16 ?w) = (ucast c :: u8)" "ucast (drop_bit 24 ?w) = (ucast c :: u8)"
    by (rule bit_word_eqI, auto simp: bit_simps bit_d)+
  then have "bytes32 ?w = replicate 4 (ucast c)"
    by (simp add: bytes32_def numeral_eq_Suc)
  then show ?thesis by (simp only: d_def)
qed

lemma unat_div4: "(n :: u32) mod 4 = 0 \<Longrightarrow> 4 * unat (n div 4) = unat n"
proof -
  assume "n mod 4 = 0"
  then have "unat (n mod 4) = 0" by simp
  then have "4 dvd unat n" by (simp add: unat_mod mod_0_imp_dvd)
  then show ?thesis by (auto simp: unat_div)
qed

lemma memset_eq: "memset m dst c n = store_bytes m dst (replicate (unat n) (ucast c))"
proof (cases "sint dst mod 4 = 0 \<and> n mod 4 = 0")
  case True
  then show ?thesis
    unfolding memset_def stosl_def Let_def concat_replicate_bytes32 [OF memset_pattern]
    by (simp add: unat_div4)
next
  case False
  then show ?thesis unfolding memset_def stosb_def by (simp only: if_False)
qed

lemma copy_up_eq:
  assumes "\<And>i j. j < i \<Longrightarrow> i < n \<Longrightarrow> d + of_nat j \<noteq> s + of_nat i" and "n \<le> 2 ^ 32"
  shows "copy_up m d s n = store_bytes m d (load_bytes m s n)"
  using assms
proof (induction n arbitrary: m d s)
  case 0
  then show ?case by (simp add: load_bytes_def)
next
  case (Suc n)
  have fresh: "i < n \<Longrightarrow> s + 1 + of_nat i \<noteq> d" for i
    using Suc.prems(1) [of 0 "Suc i"] by (simp add: algebra_simps)
  have "copy_up (m(d := m s)) (d + 1) (s + 1) n =
      store_bytes (m(d := m s)) (d + 1) (load_bytes (m(d := m s)) (s + 1) n)"
  proof (rule Suc.IH)
    fix i j assume "j < i" "i < n"
    then show "d + 1 + of_nat j \<noteq> s + 1 + of_nat i"
      using Suc.prems(1) [of "Suc j" "Suc i"] by (simp add: algebra_simps)
  qed (use Suc.prems in simp)
  also have "load_bytes (m(d := m s)) (s + 1) n = load_bytes m (s + 1) n"
    by (rule load_bytes_cong) (simp add: fresh)
  finally show ?case
    by (simp only: copy_up.simps load_bytes_Suc store_bytes.simps)
qed

lemma store_bytes_upd_fresh:
  assumes "length bs \<le> 2 ^ 32" and "\<not> in_block a (length bs) x"
  shows "store_bytes (m(x := b)) a bs = (store_bytes m a bs)(x := b)"
  using assms by (intro ext) (auto simp: store_bytes_at in_block_def)

lemma copy_down_eq:
  assumes "\<And>i j. j < i \<Longrightarrow> i < n \<Longrightarrow> d - of_nat (Suc j) \<noteq> s - of_nat (Suc i)" and "n \<le> 2 ^ 32"
  shows "copy_down m d s n = store_bytes m (d - of_nat n) (load_bytes m (s - of_nat n) n)"
  using assms
proof (induction n arbitrary: m d s)
  case 0
  then show ?case by (simp add: load_bytes_def)
next
  case (Suc n)
  let ?m = "m(d - 1 := m (s - 1))" and ?a = "d - 1 - of_nat n"
  let ?bs = "load_bytes m (s - 1 - of_nat n) n"
  have "copy_down ?m (d - 1) (s - 1) n = store_bytes ?m ?a (load_bytes ?m (s - 1 - of_nat n) n)"
  proof (rule Suc.IH)
    fix i j assume "j < i" "i < n"
    then show "d - 1 - of_nat (Suc j) \<noteq> s - 1 - of_nat (Suc i)"
      using Suc.prems(1) [of "Suc j" "Suc i"] by (simp add: algebra_simps)
  qed (use Suc.prems in simp)
  also have "load_bytes ?m (s - 1 - of_nat n) n = ?bs"
  proof (rule load_bytes_cong)
    fix i assume i: "i < n"
    then have "s - 1 - of_nat n + of_nat i = s - of_nat (Suc (n - i))"
      by (simp add: of_nat_diff algebra_simps)
    then show "?m (s - 1 - of_nat n + of_nat i) = m (s - 1 - of_nat n + of_nat i)"
      using Suc.prems(1) [of 0 "n - i"] i by (auto simp: less_Suc_eq_le)
  qed
  also have "store_bytes ?m ?a ?bs = (store_bytes m ?a ?bs)(d - 1 := m (s - 1))"
    using Suc.prems(2) by (intro store_bytes_upd_fresh) (simp_all add: in_block_def unat_of_nat)
  also have "\<dots> = store_bytes m ?a (?bs @ [m (s - 1)])"
    by (simp add: store_bytes_append)
  also have "?bs @ [m (s - 1)] = load_bytes m (s - 1 - of_nat n) (Suc n)"
    by (simp add: load_bytes_def)
  finally show ?case by (simp only: copy_down.simps of_nat_Suc diff_diff_eq)
qed

text \<open>The copy is the one that first reads the whole source block, also where the blocks
  overlap; neither block wraps around the address space.\<close>

lemma memmove_eq:
  assumes "unat src + unat n < 2 ^ 32" and "unat dst + unat n \<le> 2 ^ 32"
  shows "memmove m dst src n = store_bytes m dst (load_bytes m src (unat n))"
proof (cases "src < dst \<and> src + n > dst")
  case True
  have "dst + n - of_nat (Suc j) \<noteq> src + n - of_nat (Suc i)" if "j < i" "i < unat n" for i j
  proof
    assume "dst + n - of_nat (Suc j) = src + n - of_nat (Suc i)"
    then have "dst + of_nat (Suc i) = src + of_nat (Suc j)" by (simp add: algebra_simps)
    then have "unat (dst + of_nat (Suc i)) = unat (src + of_nat (Suc j))" by (simp only:)
    moreover have "unat (dst + of_nat (Suc i)) = (unat dst + Suc i) mod 2 ^ 32"
      "unat (src + of_nat (Suc j)) = (unat src + Suc j) mod 2 ^ 32"
      by (simp_all only: unat_word_ariths unat_of_nat) (simp_all add: mod_simps)
    ultimately have "(unat dst + Suc i) mod 2 ^ 32 = (unat src + Suc j) mod 2 ^ 32"
      by (simp only:)
    moreover have "unat src < unat dst" using True by (simp add: word_less_nat_alt)
    ultimately show False using that assms(1,2) by (cases "unat dst + Suc i = 2 ^ 32") auto
  qed
  then have "copy_down m (dst + n) (src + n) (unat n) =
      store_bytes m (dst + n - of_nat (unat n)) (load_bytes m (src + n - of_nat (unat n)) (unat n))"
    by (intro copy_down_eq) (auto intro: less_imp_le)
  then show ?thesis using True by (simp add: memmove_def)
next
  case False
  have "dst + of_nat j \<noteq> src + of_nat i" if "j < i" "i < unat n" for i j
  proof
    assume "dst + of_nat j = src + of_nat i"
    then have "unat (dst + of_nat j) = unat (src + of_nat i)" by simp
    moreover have "unat (dst + of_nat j) = unat dst + j" "unat (src + of_nat i) = unat src + i"
      using that assms(1,2) by (simp_all add: unat_word_ariths unat_of_nat)
    ultimately have lt: "unat src < unat dst" "unat dst < unat src + unat n" using that by auto
    have "unat (src + n) = unat src + unat n"
      using assms(1) by (rule unat_add_u32)
    then show False using lt False by (simp add: word_less_nat_alt)
  qed
  then have "copy_up m dst src (unat n) = store_bytes m dst (load_bytes m src (unat n))"
    by (intro copy_up_eq) (auto intro: less_imp_le)
  then show ?thesis using False unfolding memmove_def by (simp only: if_False)
qed

lemma memcmp_loop_eq0:
  "memcmp_loop s1 s2 i n = 0 \<longleftrightarrow> (\<forall>k < n. s1 (i + k) = s2 (i + k))"
  by (induction n arbitrary: i) (auto simp: All_less_Suc2 word_uint_eq_iff)

lemma memcmp_eq0: "memcmp v1 v2 n = 0 \<longleftrightarrow> map v1 [0..<unat n] = map v2 [0..<unat n]"
  by (auto simp: memcmp_def memcmp_loop_eq0)

section \<open>Strings: correctness\<close>

lemma upt_Suc_Cons: "[i..<i + Suc n] = i # [Suc i..<Suc i + n]"
  by (simp add: upt_conv_Cons)

lemma strncmp_loop_eq0:
  "strncmp_loop p q i n = 0 \<longleftrightarrow>
     takeWhile (\<lambda>b. b \<noteq> 0) (map p [i..<i + n]) = takeWhile (\<lambda>b. b \<noteq> 0) (map q [i..<i + n])"
proof (induction n arbitrary: i)
  case 0
  then show ?case by simp
next
  case (Suc n)
  show ?case
    unfolding upt_Suc_Cons by (auto simp: Suc.IH word_uint_eq_iff)
qed

lemma zero_fill_eq:
  "i + n \<le> length s \<Longrightarrow> zero_fill s i n = take i s @ replicate n 0 @ drop (i + n) s"
proof (induction n arbitrary: i s)
  case 0
  then show ?case by simp
next
  case (Suc n)
  then have "zero_fill s i (Suc n) =
      take (Suc i) (s[i := 0]) @ replicate n 0 @ drop (Suc i + n) (s[i := 0])"
    by simp
  also have "take (Suc i) (s[i := 0]) = take i s @ [0]"
    using Suc.prems by (simp add: take_Suc_conv_app_nth)
  finally show ?case by simp
qed

lemma strncpy_loop_eq:
  "i + n \<le> length s \<Longrightarrow> c = takeWhile (\<lambda>b. b \<noteq> 0) (map t [i..<i + n]) \<Longrightarrow>
     strncpy_loop s t i n = take i s @ c @ replicate (n - length c) 0 @ drop (i + n) s"
proof (induction n arbitrary: i s c)
  case 0
  then show ?case by simp
next
  case (Suc n)
  let ?c = "takeWhile (\<lambda>b. b \<noteq> 0) (map t [Suc i..<Suc i + n])"
  have tk: "take (Suc i) (s[i := t i]) = take i s @ [t i]"
    using Suc.prems by (simp add: take_Suc_conv_app_nth)
  have c: "c = (if t i \<noteq> 0 then t i # ?c else [])"
    using Suc.prems(2) unfolding upt_Suc_Cons by simp
  show ?case
  proof (cases "t i = 0")
    case True
    then show ?thesis using Suc.prems(1) c tk by (simp add: zero_fill_eq)
  next
    case False
    have "strncpy_loop (s[i := t i]) t (Suc i) n =
        take (Suc i) (s[i := t i]) @ ?c @ replicate (n - length ?c) 0 @ drop (Suc i + n) (s[i := t i])"
      using Suc.prems(1) by (intro Suc.IH) simp_all
    then show ?thesis using False c tk by simp
  qed
qed

lemma safestrcpy_loop_eq:
  "i + n < length s \<Longrightarrow> c = takeWhile (\<lambda>b. b \<noteq> 0) (map t [i..<i + n]) \<Longrightarrow>
     \<exists>rest. safestrcpy_loop s t i n = take i s @ c @ 0 # rest \<and>
       length (safestrcpy_loop s t i n) = length s \<and>
       drop (Suc (i + n)) (safestrcpy_loop s t i n) = drop (Suc (i + n)) s"
proof (induction n arbitrary: i s c)
  case 0
  then show ?case by (auto simp: upd_conv_take_nth_drop)
next
  case (Suc n)
  let ?c = "takeWhile (\<lambda>b. b \<noteq> 0) (map t [Suc i..<Suc i + n])"
  have tk: "take (Suc i) (s[i := t i]) = take i s @ [t i]"
    using Suc.prems by (simp add: take_Suc_conv_app_nth)
  have c: "c = (if t i \<noteq> 0 then t i # ?c else [])"
    using Suc.prems(2) unfolding upt_Suc_Cons by simp
  show ?case
  proof (cases "t i = 0")
    case True
    then show ?thesis using Suc.prems(1) c
      by (auto simp: upd_conv_take_nth_drop take_Suc_conv_app_nth nth_append add.commute)
  next
    case False
    have "\<exists>rest. safestrcpy_loop (s[i := t i]) t (Suc i) n
          = take (Suc i) (s[i := t i]) @ ?c @ 0 # rest \<and>
        length (safestrcpy_loop (s[i := t i]) t (Suc i) n) = length (s[i := t i]) \<and>
        drop (Suc (Suc i + n)) (safestrcpy_loop (s[i := t i]) t (Suc i) n)
          = drop (Suc (Suc i + n)) (s[i := t i])"
      using Suc.prems(1) by (intro Suc.IH) simp_all
    then show ?thesis using False c tk by auto
  qed
qed

lemma strlen_loop_eq:
  assumes "s k = 0" and "n \<le> k" and "\<And>i. n \<le> i \<Longrightarrow> i < k \<Longrightarrow> s i \<noteq> 0"
  shows "strlen_loop s n = Some k"
  using assms
proof (induction "k - n" arbitrary: n)
  case 0
  then show ?case by (simp add: strlen_loop.simps)
next
  case (Suc d)
  then have "strlen_loop s (Suc n) = Some k" by (intro Suc.hyps(1)) auto
  moreover have "s n \<noteq> 0" using Suc by auto
  ultimately show ?case by (simp add: strlen_loop.simps [of s n])
qed

section \<open>Properties\<close>

text \<open>C27: \<open>memmove\<close> is correct for overlapping blocks: afterwards the destination holds the
  bytes the source block had before the call, and no byte outside the destination has
  changed. Neither block may wrap around the end of the address space.\<close>

theorem memmove_overlap:
  assumes "unat src + unat n < 2 ^ 32" and "unat dst + unat n \<le> 2 ^ 32"
  shows "load_bytes (memmove m dst src n) dst (unat n) = load_bytes m src (unat n) \<and>
    (\<forall>x. \<not> in_block dst (unat n) x \<longrightarrow> memmove m dst src n x = m x)"
proof -
  have len: "unat n \<le> 2 ^ 32" using assms by simp
  then show ?thesis by (simp add: memmove_eq [OF assms] load_store_bytes store_bytes_outside)
qed

theorem memmove_overlap_witness:
  "unat (0x1000 :: u32) + unat (8 :: u32) < 2 ^ 32 \<and> unat (0x1002 :: u32) + unat (8 :: u32) \<le> 2 ^ 32 \<and>
   load_bytes (memmove (\<lambda>a. ucast a) 0x1002 0x1000 8) 0x1002 8 = [0, 1, 2, 3, 4, 5, 6, 7]"
proof -
  have "load_bytes (\<lambda>a :: u32. ucast a) 0x1000 8 = [0, 1, 2, 3, 4, 5, 6, 7]" by code_simp
  then show ?thesis using memmove_overlap [of "0x1000" "8" "0x1002" "\<lambda>a. ucast a"] by simp
qed

end
