(* ===== verification/Kernel_State.thy ===== *)
theory Kernel_State
  imports Cstring
begin

text \<open>
  The data the kernel keeps: the structures of the header files as records, the constants of
  param.h, and one record for the whole kernel state that the operations pass along.

  Pointers into the fixed tables (\<open>ptable.proc\<close>, \<open>ftable.file\<close>, \<open>icache.inode\<close>,
  \<open>bcache.buf\<close>) are indices into the lists that model these tables; a null pointer is
  \<open>None\<close>. Kernel and user addresses are 32-bit words. Locks and sleep channels, which the C
  code names by address, are named by what they are embedded in.
\<close>

section \<open>Constants of param.h, proc.h, mmu.h, memlayout.h, fs.h and buf.h\<close>

abbreviation NPROC :: nat where "NPROC \<equiv> 64"
abbreviation KSTACKSIZE :: u32 where "KSTACKSIZE \<equiv> 4096"
abbreviation NOFILE :: nat where "NOFILE \<equiv> 16"
abbreviation NFILE :: nat where "NFILE \<equiv> 100"
abbreviation NINODE :: nat where "NINODE \<equiv> 50"
abbreviation MAXOPBLOCKS :: int where "MAXOPBLOCKS \<equiv> 10"
abbreviation LOGSIZE :: int where "LOGSIZE \<equiv> 30"
abbreviation NBUF :: nat where "NBUF \<equiv> 30"
abbreviation NUMSIG :: nat where "NUMSIG \<equiv> 32"
abbreviation PGSIZE :: u32 where "PGSIZE \<equiv> 4096"
abbreviation FL_IF :: u32 where "FL_IF \<equiv> 0x200"
abbreviation KERNBASE :: u32 where "KERNBASE \<equiv> 0x80000000"
abbreviation PHYSTOP :: u32 where "PHYSTOP \<equiv> 0xE000000"
abbreviation BSIZE :: nat where "BSIZE \<equiv> 512"
abbreviation PIPESIZE :: nat where "PIPESIZE \<equiv> 512"
abbreviation B_VALID :: u32 where "B_VALID \<equiv> 2"
abbreviation B_DIRTY :: u32 where "B_DIRTY \<equiv> 4"

section \<open>Locks, channels\<close>

text \<open>The sleep locks (one in every buffer and every cached inode) and the spin locks (one in
  every table, pipe and sleep lock).\<close>

datatype sleepid = BufLock nat | InodeLock nat

datatype lockid =
    L_ptable | L_tickslock | L_kmem | L_bcache | L_log | L_icache | L_ftable | L_idelock | L_cons
  | L_pipe u32
  | L_sleep sleepid

text \<open>Sleep channels: \<open>Chan0\<close> is the null channel of a process that is not sleeping.\<close>

datatype channel =
    Chan0
  | Ch_proc nat
  | Ch_ticks
  | Ch_log
  | Ch_sleep sleepid
  | Ch_buf nat
  | Ch_input
  | Ch_nread u32
  | Ch_nwrite u32

record spinlock =
  locked :: u32
  lname :: string
  lcpu :: "nat option"
  pcs :: "u32 list"

record sleeplock =
  slocked :: u32
  slname :: string
  slpid :: int

section \<open>Processors and processes\<close>

text \<open>\<open>struct cpu\<close>, as far as the locking and scheduling code uses it: the current process
  (\<open>proc\<close>, \<open>%gs:4\<close>), the fields of the task state segment that \<open>switchuvm\<close> sets, and the
  CPU's own registers \<open>eflags\<close> and \<open>cr3\<close>.\<close>

record cpu =
  ncli :: int
  intena :: u32
  eflags :: u32
  cproc :: "nat option"
  cr3 :: u32
  ts_esp0 :: u32
  ts_ss0 :: u16
  ts_iomb :: u16

datatype procstate = UNUSED | EMBRYO | SLEEPING | RUNNABLE | RUNNING | ZOMBIE

record trapframe =
  tf_edi :: u32
  tf_esi :: u32
  tf_ebp :: u32
  tf_oesp :: u32
  tf_ebx :: u32
  tf_edx :: u32
  tf_ecx :: u32
  tf_eax :: u32
  tf_gs :: u16
  tf_padding1 :: u16
  tf_fs :: u16
  tf_padding2 :: u16
  tf_es :: u16
  tf_padding3 :: u16
  tf_ds :: u16
  tf_padding4 :: u16
  tf_trapno :: u32
  tf_err :: u32
  tf_eip :: u32
  tf_cs :: u16
  tf_padding5 :: u16
  tf_eflags :: u32
  tf_esp :: u32
  tf_ss :: u16
  tf_padding6 :: u16

record kcontext =
  ctx_edi :: u32
  ctx_esi :: u32
  ctx_ebx :: u32
  ctx_ebp :: u32
  ctx_eip :: u32

text \<open>\<open>struct proc\<close>. The trap frame and the saved context lie on the process's kernel stack;
  the record keeps the two pointers (\<open>tfp\<close>, \<open>contextp\<close>) and what they point at.\<close>

record proc =
  sz :: u32
  pgdir :: u32
  kstack :: u32
  pstate :: procstate
  pid :: int
  parent :: "nat option"
  tfp :: u32
  tf :: trapframe
  contextp :: u32
  ctx :: kcontext
  chan :: channel
  killed :: int
  ofile :: "nat option list"
  cwd :: "nat option"
  pname :: "u8 list"
  pending :: u32
  signals :: "u32 list"
  alarmEnd :: u32

section \<open>File system structures\<close>

record superblock =
  sb_size :: u32
  sb_nblocks :: u32
  sb_ninodes :: u32
  sb_nlog :: u32
  sb_logstart :: u32
  sb_inodestart :: u32
  sb_bmapstart :: u32

text \<open>\<open>struct buf\<close>. The buffers are numbered \<open>0..<NBUF\<close>; number \<open>NBUF\<close> is the list head
  \<open>bcache.head\<close>.\<close>

record buf =
  bflags :: u32
  bdev :: u32
  blockno :: u32
  refcnt :: u32
  bprev :: nat
  bnext :: nat
  qnext :: "nat option"
  bdata :: "u8 list"

record logheader =
  lh_n :: int
  lh_block :: "int list"

record logrec =
  log_start :: int
  log_size :: int
  outstanding :: int
  committing :: int
  log_dev :: int
  lh :: logheader

datatype filetype = FD_NONE | FD_PIPE | FD_INODE

record filerec =
  ftype :: filetype
  fref :: int
  readable :: u8
  writable :: u8
  fpipe :: "u32 option"
  fip :: "nat option"
  foff :: u32

record inode =
  i_dev :: u32
  inum :: u32
  iref :: int
  iflags :: int
  itype :: int
  imajor :: int
  iminor :: int
  nlink :: int
  isize :: u32
  addrs :: "u32 list"

record pipe =
  pdata :: "u8 list"
  nread :: u32
  nwrite :: u32
  readopen :: int
  writeopen :: int

text \<open>The line buffer of the console: \<open>in_r\<close>, \<open>in_w\<close>, \<open>in_e\<close> are its read, write and edit
  indices.\<close>

record inputbuf =
  ibuf :: "u8 list"
  in_r :: u32
  in_w :: u32
  in_e :: u32

section \<open>The kernel state\<close>

text \<open>Addresses the linker fixes and the machine code of umsigret.S.\<close>

record symbols =
  sym_end :: u32
  sym_data :: u32
  sym_trapret :: u32
  sym_forkret :: u32
  sym_defaultHandler :: u32
  sym_sigreturn :: "u8 list"
  sym_initcode :: u32
  sym_initcode_size :: u32

text \<open>Messages the modelled code prints with \<open>cprintf\<close>.\<close>

datatype kmsg = Signal_accepted int int | Cprintf string "int list"

text \<open>
  \<open>cpus\<close>/\<open>mycpu\<close>: the processors and the one that executes; \<open>mem\<close>: memory at kernel
  virtual addresses (page tables, page contents, kernel stacks, free-list links); \<open>argp\<close>:
  the stack address of the caller's first argument, from which \<open>getcallerpcs\<close> walks;
  \<open>switches\<close>: how often a process has given up the CPU so far; \<open>disk\<close>, \<open>dwrites\<close>: the
  blocks of the disk and the block writes that reached it, oldest first; \<open>console\<close>: console
  messages, newest first; \<open>crt\<close>, \<open>cursor\<close>: the cells and the cursor registers of the
  screen; \<open>uartout\<close>: the bytes sent over the serial line, oldest first.
\<close>

record kst =
  cpus :: "nat \<Rightarrow> cpu"
  mycpu :: nat
  locks :: "lockid \<Rightarrow> spinlock"
  slocks :: "sleepid \<Rightarrow> sleeplock"
  argp :: u32
  mem :: memory
  freelist :: u32
  use_lock :: int
  kpgdir :: u32
  ptable :: "proc list"
  nextpid :: int
  initproc :: "nat option"
  first :: int
  ticks :: u32
  pipes :: "u32 \<Rightarrow> pipe"
  ftable :: "filerec list"
  icache :: "inode list"
  bufs :: "buf list"
  klog :: logrec
  sb :: superblock
  disk :: "u32 \<Rightarrow> u8 list"
  disksize :: u32
  idequeue :: "nat option"
  havedisk1 :: int
  dwrites :: "(u32 \<times> u8 list) list"
  switches :: nat
  console :: "kmsg list"
  syms :: symbols
  cons_locking :: int
  input :: inputbuf
  crt :: "u16 list"
  cursor :: u16
  uart :: int
  uartout :: "u8 list"
  panicked :: int
  kbd_shift :: u32

type_synonym 'a kres = "('a, kst) outcome"

text \<open>What the rest of the machine does while the caller is switched out, indexed by the
  number of the switch: the other processes, the scheduler and the interrupt handlers.\<close>

type_synonym env = "nat \<Rightarrow> kst \<Rightarrow> kst"

abbreviation thecpu :: "kst \<Rightarrow> cpu" where
  "thecpu s \<equiv> cpus s (mycpu s)"

definition upd_cpu :: "(cpu \<Rightarrow> cpu) \<Rightarrow> kst \<Rightarrow> kst" where
  "upd_cpu f s = s\<lparr>cpus := (cpus s)(mycpu s := f (cpus s (mycpu s)))\<rparr>"

definition upd_lock :: "lockid \<Rightarrow> (spinlock \<Rightarrow> spinlock) \<Rightarrow> kst \<Rightarrow> kst" where
  "upd_lock l f s = s\<lparr>locks := (locks s)(l := f (locks s l))\<rparr>"

definition upd_slock :: "sleepid \<Rightarrow> (sleeplock \<Rightarrow> sleeplock) \<Rightarrow> kst \<Rightarrow> kst" where
  "upd_slock l f s = s\<lparr>slocks := (slocks s)(l := f (slocks s l))\<rparr>"

definition upd_proc :: "nat \<Rightarrow> (proc \<Rightarrow> proc) \<Rightarrow> kst \<Rightarrow> kst" where
  "upd_proc i f s = s\<lparr>ptable := (ptable s)[i := f (ptable s ! i)]\<rparr>"

definition upd_buf :: "nat \<Rightarrow> (buf \<Rightarrow> buf) \<Rightarrow> kst \<Rightarrow> kst" where
  "upd_buf i f s = s\<lparr>bufs := (bufs s)[i := f (bufs s ! i)]\<rparr>"

definition upd_file :: "nat \<Rightarrow> (filerec \<Rightarrow> filerec) \<Rightarrow> kst \<Rightarrow> kst" where
  "upd_file i f s = s\<lparr>ftable := (ftable s)[i := f (ftable s ! i)]\<rparr>"

definition upd_pipe :: "u32 \<Rightarrow> (pipe \<Rightarrow> pipe) \<Rightarrow> kst \<Rightarrow> kst" where
  "upd_pipe a f s = s\<lparr>pipes := (pipes s)(a := f (pipes s a))\<rparr>"

text \<open>The pointer \<open>proc\<close> of the running process; using it when it is null is a fault.\<close>

abbreviation curproc :: "kst \<Rightarrow> nat option" where
  "curproc s \<equiv> cproc (thecpu s)"

definition with_proc :: "kst \<Rightarrow> (nat \<Rightarrow> ('a, kst) outcome) \<Rightarrow> ('a, kst) outcome" where
  "with_proc s f = (case curproc s of None \<Rightarrow> Fault ''proc is null'' | Some i \<Rightarrow> f i)"

named_theorems upd_defs \<open>the one-component state updates\<close>

lemmas upd_all_defs [upd_defs] = upd_cpu_def upd_lock_def upd_slock_def upd_proc_def upd_buf_def
  upd_file_def upd_pipe_def

section \<open>A sample state\<close>

text \<open>An idle one-CPU kernel with zeroed tables, from which the witnesses of the properties build
  their concrete states.\<close>

definition tf0 :: trapframe where
  "tf0 = \<lparr>tf_edi = 0, tf_esi = 0, tf_ebp = 0, tf_oesp = 0, tf_ebx = 0, tf_edx = 0, tf_ecx = 0,
     tf_eax = 0, tf_gs = 0, tf_padding1 = 0, tf_fs = 0, tf_padding2 = 0, tf_es = 0,
     tf_padding3 = 0, tf_ds = 0, tf_padding4 = 0, tf_trapno = 0, tf_err = 0, tf_eip = 0,
     tf_cs = 0, tf_padding5 = 0, tf_eflags = 0, tf_esp = 0, tf_ss = 0, tf_padding6 = 0\<rparr>"

definition proc0 :: proc where
  "proc0 = \<lparr>sz = 0, pgdir = 0, kstack = 0, pstate = UNUSED, pid = 0, parent = None, tfp = 0,
     tf = tf0, contextp = 0,
     ctx = \<lparr>ctx_edi = 0, ctx_esi = 0, ctx_ebx = 0, ctx_ebp = 0, ctx_eip = 0\<rparr>,
     chan = Chan0, killed = 0, ofile = replicate NOFILE None, cwd = None,
     pname = replicate 16 0, pending = 0, signals = replicate NUMSIG 0, alarmEnd = 0\<rparr>"

definition cpu0 :: cpu where
  "cpu0 = \<lparr>ncli = 0, intena = 0, eflags = FL_IF, cproc = Some 0, cr3 = 0, ts_esp0 = 0,
     ts_ss0 = 0, ts_iomb = 0\<rparr>"

definition spin0 :: spinlock where
  "spin0 = \<lparr>locked = 0, lname = [], lcpu = None, pcs = replicate 10 0\<rparr>"

definition buf0 :: buf where
  "buf0 = \<lparr>bflags = 0, bdev = 0, blockno = 0, refcnt = 0, bprev = 0, bnext = 0, qnext = None,
     bdata = replicate BSIZE 0\<rparr>"

definition kst0 :: kst where
  "kst0 = \<lparr>cpus = (\<lambda>_. cpu0), mycpu = 0, locks = (\<lambda>_. spin0),
     slocks = (\<lambda>_. \<lparr>slocked = 0, slname = [], slpid = 0\<rparr>), argp = 0, mem = (\<lambda>_. 0),
     freelist = 0, use_lock = 1, kpgdir = 0, ptable = replicate NPROC proc0, nextpid = 1,
     initproc = None, first = 1, ticks = 0,
     pipes = (\<lambda>_. \<lparr>pdata = replicate PIPESIZE 0, nread = 0, nwrite = 0, readopen = 0, writeopen = 0\<rparr>),
     ftable = replicate NFILE \<lparr>ftype = FD_NONE, fref = 0, readable = 0, writable = 0, fpipe = None,
       fip = None, foff = 0\<rparr>,
     icache = replicate NINODE \<lparr>i_dev = 0, inum = 0, iref = 0, iflags = 0, itype = 0, imajor = 0,
       iminor = 0, nlink = 0, isize = 0, addrs = replicate 13 0\<rparr>,
     bufs = replicate (Suc NBUF) buf0,
     klog = \<lparr>log_start = 0, log_size = 0, outstanding = 0, committing = 0, log_dev = 0,
       lh = \<lparr>lh_n = 0, lh_block = replicate (nat LOGSIZE) 0\<rparr>\<rparr>,
     sb = \<lparr>sb_size = 0, sb_nblocks = 0, sb_ninodes = 0, sb_nlog = 0, sb_logstart = 0,
       sb_inodestart = 0, sb_bmapstart = 0\<rparr>,
     disk = (\<lambda>_. replicate BSIZE 0), disksize = 1000, idequeue = None, havedisk1 = 1,
     dwrites = [], switches = 0, console = [],
     syms = \<lparr>sym_end = 0x80100000, sym_data = 0x80100000, sym_trapret = 0x80100100,
       sym_forkret = 0x80100200, sym_defaultHandler = 0x80100300,
       sym_sigreturn = [0xb8, 0x18, 0, 0, 0, 0xcd, 0x40, 0xc3],
       sym_initcode = 0x8010a000, sym_initcode_size = 44\<rparr>,
     cons_locking = 0, input = \<lparr>ibuf = replicate 128 0, in_r = 0, in_w = 0, in_e = 0\<rparr>,
     crt = replicate 2000 0, cursor = 0, uart = 0, uartout = [], panicked = 0, kbd_shift = 0\<rparr>"

end
