(* ===== verification/Spinlock.thy ===== *)
theory Spinlock
  imports Kernel_State
begin

unbundle bit_operations_syntax

text \<open>
  Spin locks (spinlock.c): the lock word taken with \<open>xchg\<close>, the holder recorded for
  \<open>holding\<close>, and the nesting counter of \<open>pushcli\<close>/\<open>popcli\<close>. The operations are first given
  for the executing CPU; \<open>smp_step\<close> then interleaves the individual memory accesses of several
  CPUs, and mutual exclusion is proved for it. \<open>locked_op\<close> is the contract the other
  components use: a critical section runs its body and gives lock and interrupt state back.
\<close>

section \<open>Interrupt enable, nesting\<close>

definition readeflags :: "kst \<Rightarrow> u32" where
  "readeflags s = eflags (thecpu s)"

definition cli :: "kst \<Rightarrow> kst" where
  "cli s = upd_cpu (\<lambda>c. c\<lparr>eflags := eflags c AND NOT FL_IF\<rparr>) s"

definition sti :: "kst \<Rightarrow> kst" where
  "sti s = upd_cpu (\<lambda>c. c\<lparr>eflags := eflags c OR FL_IF\<rparr>) s"

definition pushcli :: "kst \<Rightarrow> kst" where
  "pushcli s =
     (let eflags = readeflags s;
          s = cli s;
          s = (if ncli (thecpu s) = 0 then upd_cpu (\<lambda>c. c\<lparr>intena := eflags AND FL_IF\<rparr>) s else s)
      in upd_cpu (\<lambda>c. c\<lparr>ncli := ncli c + 1\<rparr>) s)"

definition popcli :: "kst \<Rightarrow> unit kres" where
  "popcli s =
     (if readeflags s AND FL_IF \<noteq> 0 then Panic ''popcli - interruptible''
      else let s = upd_cpu (\<lambda>c. c\<lparr>ncli := ncli c - 1\<rparr>) s
           in if ncli (thecpu s) < 0 then Panic ''popcli''
              else Ok () (if ncli (thecpu s) = 0 \<and> intena (thecpu s) \<noteq> 0 then sti s else s))"

section \<open>The lock\<close>

definition initlock :: "lockid \<Rightarrow> string \<Rightarrow> kst \<Rightarrow> kst" where
  "initlock l nm s = upd_lock l (\<lambda>k. k\<lparr>lname := nm, locked := 0, lcpu := None\<rparr>) s"

text \<open>The stack walk: \<open>ebp[1]\<close> is the saved \<open>eip\<close>, \<open>ebp[0]\<close> the saved \<open>ebp\<close>.\<close>

fun callerpcs :: "memory \<Rightarrow> u32 \<Rightarrow> nat \<Rightarrow> u32 list" where
  "callerpcs m fp 0 = []"
| "callerpcs m fp (Suc n) =
     (if fp = 0 \<or> fp < KERNBASE \<or> fp = 0xffffffff then replicate (Suc n) 0
      else load32 m (fp + 4) # callerpcs m (load32 m fp) n)"

definition getcallerpcs :: "memory \<Rightarrow> u32 \<Rightarrow> u32 list" where
  "getcallerpcs m v = callerpcs m (v - 8) 10"

definition holding :: "lockid \<Rightarrow> kst \<Rightarrow> bool" where
  "holding l s \<longleftrightarrow> locked (locks s l) \<noteq> 0 \<and> lcpu (locks s l) = Some (mycpu s)"

definition xchg :: "lockid \<Rightarrow> u32 \<Rightarrow> kst \<Rightarrow> u32 \<times> kst" where
  "xchg l v s = (locked (locks s l), upd_lock l (\<lambda>k. k\<lparr>locked := v\<rparr>) s)"

text \<open>The bookkeeping after the exchange succeeded, and the two halves of the release around
  the store that frees the lock word.\<close>

definition record_holder :: "lockid \<Rightarrow> kst \<Rightarrow> kst" where
  "record_holder l s =
     upd_lock l (\<lambda>k. k\<lparr>lcpu := Some (mycpu s), pcs := getcallerpcs (mem s) (argp s)\<rparr>) s"

definition clear_holder :: "lockid \<Rightarrow> kst \<Rightarrow> kst" where
  "clear_holder l s = upd_lock l (\<lambda>k. k\<lparr>pcs := (pcs k)[0 := 0], lcpu := None\<rparr>) s"

definition free_word :: "lockid \<Rightarrow> kst \<Rightarrow> kst" where
  "free_word l s = upd_lock l (\<lambda>k. k\<lparr>locked := 0\<rparr>) s"

text \<open>\<open>acquire\<close> run by one CPU while no other CPU changes the lock: if another holds it, the
  loop around \<open>xchg\<close> never ends.\<close>

definition acquire :: "lockid \<Rightarrow> kst \<Rightarrow> unit kres" where
  "acquire l s =
     (let s = pushcli s
      in if holding l s then Panic ''acquire''
         else (case xchg l 1 s of
                 (old, s) \<Rightarrow> if old \<noteq> 0 then Stuck else Ok () (record_holder l s)))"

definition release :: "lockid \<Rightarrow> kst \<Rightarrow> unit kres" where
  "release l s =
     (if \<not> holding l s then Panic ''release''
      else popcli (free_word l (clear_holder l s)))"

section \<open>A critical section\<close>

definition with_lock :: "lockid \<Rightarrow> (kst \<Rightarrow> 'a \<times> kst) \<Rightarrow> kst \<Rightarrow> 'a kres" where
  "with_lock l body s =
     seq (acquire l s) (\<lambda>s. case body s of (r, s) \<Rightarrow> seq (release l s) (\<lambda>s. Ok r s))"

definition lock_free :: "lockid \<Rightarrow> kst \<Rightarrow> bool" where
  "lock_free l s \<longleftrightarrow> locked (locks s l) = 0"

definition cpu_ok :: "kst \<Rightarrow> bool" where
  "cpu_ok s \<longleftrightarrow> 0 \<le> ncli (thecpu s) \<and> (0 < ncli (thecpu s) \<longrightarrow> eflags (thecpu s) AND FL_IF = 0)"

definition in_cs :: "lockid \<Rightarrow> kst \<Rightarrow> bool" where
  "in_cs l s \<longleftrightarrow> holding l s \<and> 0 < ncli (thecpu s) \<and> eflags (thecpu s) AND FL_IF = 0"

text \<open>The state in which a successful \<open>acquire\<close> and a successful \<open>release\<close> return.\<close>

definition enter :: "lockid \<Rightarrow> kst \<Rightarrow> kst" where
  "enter l s = record_holder l (upd_lock l (\<lambda>k. k\<lparr>locked := 1\<rparr>) (pushcli s))"

definition leave :: "lockid \<Rightarrow> kst \<Rightarrow> kst" where
  "leave l s =
     (let s = upd_cpu (\<lambda>c. c\<lparr>ncli := ncli c - 1\<rparr>) (free_word l (clear_holder l s))
      in if ncli (thecpu s) = 0 \<and> intena (thecpu s) \<noteq> 0 then sti s else s)"

named_theorems spin_defs \<open>definitions of the lock operations\<close>

lemmas lock_op_defs [spin_defs] = readeflags_def cli_def sti_def pushcli_def popcli_def holding_def
  xchg_def record_holder_def clear_holder_def free_word_def acquire_def release_def enter_def
  leave_def in_cs_def cpu_ok_def lock_free_def

lemma length_callerpcs [simp]: "length (callerpcs m fp n) = n"
  by (induction n arbitrary: fp) simp_all

lemma if_clear [simp]: "((x :: u32) AND - 513) AND FL_IF = 0"
proof -
  have "(x AND NOT FL_IF) AND FL_IF = 0"
    by (rule bit_word_eqI) (simp only: bit_and_iff bit_not_iff bit_0_eq, blast)
  then show ?thesis by simp
qed

lemma bit_FL_IF: "bit FL_IF n \<longleftrightarrow> n = 9"
proof -
  have "FL_IF = 2 ^ 9" by simp
  then show ?thesis by (simp only: bit_exp_iff) auto
qed

lemma if_restore:
  "(x :: u32) AND FL_IF \<noteq> 0 \<Longrightarrow> (x AND - 513) OR FL_IF = x"
  "(x :: u32) AND FL_IF = 0 \<Longrightarrow> x AND - 513 = x"
proof -
  have m: "- 513 = NOT FL_IF" by simp
  have b: "bit x 9 \<longleftrightarrow> x AND FL_IF \<noteq> 0"
    using and_exp_eq_0_iff_not_bit [of x 9] by simp
  show "x AND FL_IF \<noteq> 0 \<Longrightarrow> (x AND - 513) OR FL_IF = x"
    unfolding m using b
    by (intro bit_word_eqI) (auto simp only: bit_and_iff bit_or_iff bit_not_iff bit_FL_IF possible_bit_word)
  show "x AND FL_IF = 0 \<Longrightarrow> x AND - 513 = x"
    unfolding m using b
    by (intro bit_word_eqI) (auto simp only: bit_and_iff bit_not_iff bit_FL_IF possible_bit_word)
qed

lemma acquire_Ok: "lock_free l s \<Longrightarrow> acquire l s = Ok () (enter l s)"
  by (auto simp: spin_defs upd_defs Let_def)

lemma acquire_held: "holding l s \<Longrightarrow> acquire l s = Panic ''acquire''"
  by (auto simp: spin_defs upd_defs Let_def)

lemma release_Ok: "in_cs l s \<Longrightarrow> release l s = Ok () (leave l s)"
  by (auto simp: spin_defs upd_defs Let_def)

lemma in_cs_enter: "cpu_ok s \<Longrightarrow> in_cs l (enter l s)"
  by (auto simp: spin_defs upd_defs Let_def)

text \<open>A critical section touches the lock and the interrupt state only.\<close>

lemma enter_frame [simp]:
  "mycpu (enter l s) = mycpu s"
  "slocks (enter l s) = slocks s"
  "argp (enter l s) = argp s"
  "mem (enter l s) = mem s"
  "freelist (enter l s) = freelist s"
  "use_lock (enter l s) = use_lock s"
  "kpgdir (enter l s) = kpgdir s"
  "ptable (enter l s) = ptable s"
  "nextpid (enter l s) = nextpid s"
  "initproc (enter l s) = initproc s"
  "first (enter l s) = first s"
  "ticks (enter l s) = ticks s"
  "pipes (enter l s) = pipes s"
  "ftable (enter l s) = ftable s"
  "icache (enter l s) = icache s"
  "bufs (enter l s) = bufs s"
  "klog (enter l s) = klog s"
  "sb (enter l s) = sb s"
  "disk (enter l s) = disk s"
  "disksize (enter l s) = disksize s"
  "idequeue (enter l s) = idequeue s"
  "havedisk1 (enter l s) = havedisk1 s"
  "dwrites (enter l s) = dwrites s"
  "switches (enter l s) = switches s"
  "console (enter l s) = console s"
  "syms (enter l s) = syms s"
  "mycpu s = c \<Longrightarrow> cproc (cpus (enter l s) c) = cproc (cpus s c)"
  "mycpu s = c \<Longrightarrow> ncli (cpus (enter l s) c) = ncli (cpus s c) + 1"
  "k \<noteq> l \<Longrightarrow> locks (enter l s) k = locks s k"
  by (auto simp: spin_defs upd_defs Let_def)

lemma leave_frame [simp]:
  "mycpu (leave l s) = mycpu s"
  "slocks (leave l s) = slocks s"
  "argp (leave l s) = argp s"
  "mem (leave l s) = mem s"
  "freelist (leave l s) = freelist s"
  "use_lock (leave l s) = use_lock s"
  "kpgdir (leave l s) = kpgdir s"
  "ptable (leave l s) = ptable s"
  "nextpid (leave l s) = nextpid s"
  "initproc (leave l s) = initproc s"
  "first (leave l s) = first s"
  "ticks (leave l s) = ticks s"
  "pipes (leave l s) = pipes s"
  "ftable (leave l s) = ftable s"
  "icache (leave l s) = icache s"
  "bufs (leave l s) = bufs s"
  "klog (leave l s) = klog s"
  "sb (leave l s) = sb s"
  "disk (leave l s) = disk s"
  "disksize (leave l s) = disksize s"
  "idequeue (leave l s) = idequeue s"
  "havedisk1 (leave l s) = havedisk1 s"
  "dwrites (leave l s) = dwrites s"
  "switches (leave l s) = switches s"
  "console (leave l s) = console s"
  "syms (leave l s) = syms s"
  "mycpu s = c \<Longrightarrow> cproc (cpus (leave l s) c) = cproc (cpus s c)"
  "mycpu s = c \<Longrightarrow> ncli (cpus (leave l s) c) = ncli (cpus s c) - 1"
  "k \<noteq> l \<Longrightarrow> locks (leave l s) k = locks s k"
  by (auto simp: spin_defs upd_defs Let_def)

lemma lock_free_leave [simp]: "lock_free l (leave l s)"
  by (simp add: spin_defs upd_defs Let_def)

lemma lock_free_other [simp]:
  "k \<noteq> l \<Longrightarrow> lock_free k (enter l s) = lock_free k s" "k \<noteq> l \<Longrightarrow> lock_free k (leave l s) = lock_free k s"
  by (simp_all add: lock_free_def)

text \<open>Whether the executing CPU is in a critical section depends on the lock and CPU state
  only, so any body that leaves these alone stays inside it.\<close>

lemma in_cs_cong:
  "locks t = locks s \<Longrightarrow> cpus t = cpus s \<Longrightarrow> mycpu t = mycpu s \<Longrightarrow> in_cs l t = in_cs l s"
  by (simp add: in_cs_def holding_def)

lemma eflags_cs:
  assumes "cpu_ok s" and "cpus t = cpus (enter l s)" and "mycpu t = mycpu s"
  shows "eflags (thecpu (leave l t)) = eflags (thecpu s)"
  using assms by (auto simp: spin_defs upd_defs Let_def if_restore split: if_splits)

lemma not_holding_release: "\<not> holding l s \<Longrightarrow> release l s = Panic ''release''"
  by (simp add: release_def)

section \<open>The contract of a critical section\<close>

text \<open>A routine whose body leaves locks and CPU state alone, run under a free lock: it returns
  the body's result, the lock is free again, and the CPU's nesting depth and interrupt flag
  are what they were.\<close>

locale locked_op =
  fixes lk :: lockid and body :: "kst \<Rightarrow> 'a \<times> kst"
  assumes body_locks: "locks (snd (body s)) = locks s"
    and body_cpus: "cpus (snd (body s)) = cpus s"
    and body_mycpu: "mycpu (snd (body s)) = mycpu s"
begin

lemma runs:
  assumes "lock_free lk s" and "cpu_ok s"
  shows "with_lock lk body s
    = Ok (fst (body (enter lk s))) (leave lk (snd (body (enter lk s))))"
proof -
  have "in_cs lk (snd (body (enter lk s)))"
    using in_cs_enter [OF assms(2)] by (simp add: in_cs_cong [OF body_locks body_cpus body_mycpu])
  then show ?thesis
    using assms(1) by (simp add: with_lock_def acquire_Ok release_Ok case_prod_beta)
qed

lemma balanced:
  assumes "lock_free lk s" and "cpu_ok s" and "with_lock lk body s = Ok r t"
  shows "lock_free lk t \<and> ncli (thecpu t) = ncli (thecpu s) \<and> eflags (thecpu t) = eflags (thecpu s)"
proof -
  let ?b = "snd (body (enter lk s))"
  have t: "t = leave lk ?b" using assms by (simp add: runs)
  have "ncli (thecpu t) = ncli (thecpu ?b) - 1" unfolding t by simp
  then have "ncli (thecpu t) = ncli (thecpu s)" by (simp add: body_cpus body_mycpu)
  moreover have "eflags (thecpu t) = eflags (thecpu s)"
    unfolding t by (rule eflags_cs [OF assms(2)]) (simp_all add: body_cpus body_mycpu)
  ultimately show ?thesis using t by simp
qed

lemma other_locks:
  assumes "lock_free lk s" and "cpu_ok s" and "with_lock lk body s = Ok r t" and "k \<noteq> lk"
  shows "locks t k = locks s k"
  using assms by (auto simp: runs body_locks)

lemma reentry: "holding lk s \<Longrightarrow> with_lock lk body s = Panic ''acquire''"
  by (simp add: with_lock_def acquire_held)

end

section \<open>Several CPUs\<close>

text \<open>
  Where a CPU is in the lock code: outside, at the exchange loop for a lock, past a successful
  exchange but before \<open>lk->cpu = cpu\<close>, between \<open>lk->cpu = 0\<close> and the store that frees the lock
  word, and between that store and \<open>popcli\<close>. \<open>held\<close> is the set of locks the CPU has acquired
  and not begun to release.
\<close>

datatype phase = Outside | Spinning lockid | Won lockid | Dropping lockid | Dropped

record smp =
  kern :: kst
  phases :: "nat \<Rightarrow> phase"
  held :: "nat \<Rightarrow> lockid set"

definition on_cpu :: "nat \<Rightarrow> smp \<Rightarrow> kst" where
  "on_cpu c m = (kern m)\<lparr>mycpu := c\<rparr>"

inductive smp_step :: "smp \<Rightarrow> smp \<Rightarrow> bool" where
  start_acquire:
    "phases m c = Outside \<Longrightarrow> \<not> holding l (pushcli (on_cpu c m)) \<Longrightarrow>
     smp_step m (m\<lparr>kern := pushcli (on_cpu c m), phases := (phases m)(c := Spinning l)\<rparr>)"
| spin:
    "phases m c = Spinning l \<Longrightarrow> xchg l 1 (on_cpu c m) = (old, s') \<Longrightarrow> old \<noteq> 0 \<Longrightarrow>
     smp_step m (m\<lparr>kern := s'\<rparr>)"
| win:
    "phases m c = Spinning l \<Longrightarrow> xchg l 1 (on_cpu c m) = (old, s') \<Longrightarrow> old = 0 \<Longrightarrow>
     smp_step m (m\<lparr>kern := s', phases := (phases m)(c := Won l)\<rparr>)"
| record_it:
    "phases m c = Won l \<Longrightarrow>
     smp_step m (m\<lparr>kern := record_holder l (on_cpu c m), phases := (phases m)(c := Outside),
       held := (held m)(c := insert l (held m c))\<rparr>)"
| start_release:
    "phases m c = Outside \<Longrightarrow> holding l (on_cpu c m) \<Longrightarrow>
     smp_step m (m\<lparr>kern := clear_holder l (on_cpu c m), phases := (phases m)(c := Dropping l),
       held := (held m)(c := held m c - {l})\<rparr>)"
| store_free:
    "phases m c = Dropping l \<Longrightarrow>
     smp_step m (m\<lparr>kern := free_word l (on_cpu c m), phases := (phases m)(c := Dropped)\<rparr>)"
| pop:
    "phases m c = Dropped \<Longrightarrow> popcli (on_cpu c m) = Ok () s' \<Longrightarrow>
     smp_step m (m\<lparr>kern := s', phases := (phases m)(c := Outside)\<rparr>)"

text \<open>Start: no lock is taken and no CPU is inside the lock code.\<close>

definition smp_start :: "smp \<Rightarrow> bool" where
  "smp_start m \<longleftrightarrow> (\<forall>c. phases m c = Outside \<and> held m c = {} \<and> ncli (cpus (kern m) c) = 0) \<and>
     (\<forall>l. locked (locks (kern m) l) = 0 \<and> lcpu (locks (kern m) l) = None)"

inductive smp_reach :: "smp \<Rightarrow> bool" where
  smp_init: "smp_start m \<Longrightarrow> smp_reach m"
| smp_next: "smp_reach m \<Longrightarrow> smp_step m m' \<Longrightarrow> smp_reach m'"

definition owns :: "(nat \<Rightarrow> phase) \<Rightarrow> (nat \<Rightarrow> lockid set) \<Rightarrow> nat \<Rightarrow> lockid \<Rightarrow> bool" where
  "owns ph hs c l \<longleftrightarrow> l \<in> hs c \<or> ph c = Won l \<or> ph c = Dropping l"

text \<open>The invariant: an owner is unique and the lock word is set exactly while there is one; the
  recorded holder is the CPU that holds the lock; the nesting counter counts the held locks
  and the operation in progress, and interrupts are off while it is positive.\<close>

definition lk_inv ::
  "(lockid \<Rightarrow> bool) \<Rightarrow> (lockid \<Rightarrow> nat option) \<Rightarrow> (nat \<Rightarrow> phase) \<Rightarrow> (nat \<Rightarrow> lockid set) \<Rightarrow> bool" where
  "lk_inv w h ph hs \<longleftrightarrow>
     (\<forall>l. w l \<longleftrightarrow> (\<exists>c. owns ph hs c l)) \<and>
     (\<forall>l c d. owns ph hs c l \<longrightarrow> owns ph hs d l \<longrightarrow> c = d) \<and>
     (\<forall>l c. h l = Some c \<longleftrightarrow> l \<in> hs c) \<and>
     (\<forall>l c. ph c = Won l \<or> ph c = Dropping l \<longrightarrow> l \<notin> hs c)"

definition smp_locks_inv :: "smp \<Rightarrow> bool" where
  "smp_locks_inv m \<longleftrightarrow>
     lk_inv (\<lambda>l. locked (locks (kern m) l) \<noteq> 0) (\<lambda>l. lcpu (locks (kern m) l)) (phases m) (held m)"

definition cli_inv :: "cpu \<Rightarrow> phase \<Rightarrow> lockid set \<Rightarrow> bool" where
  "cli_inv c ph hs \<longleftrightarrow> finite hs \<and>
     ncli c = int (card hs) + (if ph = Outside then 0 else 1) \<and>
     (0 < ncli c \<longrightarrow> eflags c AND FL_IF = 0)"

definition smp_cli_inv :: "smp \<Rightarrow> bool" where
  "smp_cli_inv m \<longleftrightarrow> (\<forall>c. cli_inv (cpus (kern m) c) (phases m c) (held m c))"

lemma owns_upd: "owns (ph(c := p)) hs d l = (if d = c then l \<in> hs c \<or> p = Won l \<or> p = Dropping l else owns ph hs d l)"
  by (auto simp: owns_def)

lemma owns_upd2: "owns (ph(c := p)) (hs(c := H)) d l = (if d = c then l \<in> H \<or> p = Won l \<or> p = Dropping l else owns ph hs d l)"
  by (auto simp: owns_def)

lemma owns_quiet: "ph c = Outside \<or> ph c = Dropped \<or> ph c = Spinning x \<Longrightarrow> owns ph hs c l = (l \<in> hs c)"
  by (auto simp: owns_def)


lemma lk_invD:
  assumes "lk_inv w h ph hs"
  shows "w l \<longleftrightarrow> (\<exists>c. owns ph hs c l)" "owns ph hs c l \<Longrightarrow> owns ph hs d l \<Longrightarrow> c = d"
    "h l = Some c \<longleftrightarrow> l \<in> hs c" "ph c = Won l \<or> ph c = Dropping l \<Longrightarrow> l \<notin> hs c"
  using assms unfolding lk_inv_def by metis+

lemma lk_invI:
  assumes "\<And>l. w l \<longleftrightarrow> (\<exists>c. owns ph hs c l)" "\<And>l c d. owns ph hs c l \<Longrightarrow> owns ph hs d l \<Longrightarrow> c = d"
    "\<And>l c. h l = Some c \<longleftrightarrow> l \<in> hs c" "\<And>l c. ph c = Won l \<or> ph c = Dropping l \<Longrightarrow> l \<notin> hs c"
  shows "lk_inv w h ph hs"
  unfolding lk_inv_def using assms by simp

lemma lk_quiet:
  assumes "lk_inv w h ph hs" "ph c = Outside \<or> ph c = Dropped \<or> ph c = Spinning x" "p = Outside \<or> p = Dropped \<or> p = Spinning y"
  shows "lk_inv w h (ph(c := p)) hs"
proof -
  have o: "owns (ph(c := p)) hs = owns ph hs" using assms(2,3) by (auto simp: owns_upd owns_quiet fun_eq_iff)
  show ?thesis
  proof (rule lk_invI, unfold o)
    fix l d assume "(ph(c := p)) d = Won l \<or> (ph(c := p)) d = Dropping l"
    then have "ph d = Won l \<or> ph d = Dropping l" using assms(3) by (auto split: if_splits)
    then show "l \<notin> hs d" by (rule lk_invD(4) [OF assms(1)])
  qed (fact lk_invD(1) [OF assms(1)], erule (1) lk_invD(2) [OF assms(1)], fact lk_invD(3) [OF assms(1)])
qed

lemma lk_win:
  assumes "lk_inv w h ph hs" "ph c = Spinning l" "\<not> w l"
  shows "lk_inv (w(l := True)) h (ph(c := Won l)) hs"
proof -
  have no: "\<not> owns ph hs d l" for d using lk_invD(1) [OF assms(1)] assms(3) by blast
  have o: "owns (ph(c := Won l)) hs d k \<longleftrightarrow> owns ph hs d k \<or> (d = c \<and> k = l)" for d k
    using assms(2) by (auto simp: owns_def)
  show ?thesis
  proof (rule lk_invI, unfold o)
    show "(w(l := True)) k \<longleftrightarrow> (\<exists>d. owns ph hs d k \<or> (d = c \<and> k = l))" for k
      using lk_invD(1) [OF assms(1), of k] by auto
    show "owns ph hs d k \<or> (d = c \<and> k = l) \<Longrightarrow> owns ph hs e k \<or> (e = c \<and> k = l) \<Longrightarrow> d = e" for d e k
      using lk_invD(2) [OF assms(1)] no by blast
    show "h k = Some d \<longleftrightarrow> k \<in> hs d" for k d by (rule lk_invD(3) [OF assms(1)])
    show "(ph(c := Won l)) d = Won k \<or> (ph(c := Won l)) d = Dropping k \<Longrightarrow> k \<notin> hs d" for d k
      using lk_invD(4) [OF assms(1)] no [of c] by (auto simp: owns_def split: if_splits)
  qed
qed

lemma lk_record:
  assumes "lk_inv w h ph hs" "ph c = Won l"
  shows "lk_inv w (h(l := Some c)) (ph(c := Outside)) (hs(c := insert l (hs c)))"
proof -
  have o: "owns (ph(c := Outside)) (hs(c := insert l (hs c))) = owns ph hs"
    using assms(2) by (auto simp: owns_def fun_eq_iff)
  have "owns ph hs c l" using assms(2) by (simp add: owns_def)
  then have u: "l \<in> hs d \<Longrightarrow> d = c" for d using lk_invD(2) [OF assms(1), of d l c] by (simp add: owns_def)
  show ?thesis
  proof (rule lk_invI, unfold o)
    show "(h(l := Some c)) k = Some d \<longleftrightarrow> k \<in> (hs(c := insert l (hs c))) d" for k d
      using u [of d] lk_invD(3) [OF assms(1), of k d] by auto
    show "(ph(c := Outside)) d = Won k \<or> (ph(c := Outside)) d = Dropping k \<Longrightarrow> k \<notin> (hs(c := insert l (hs c))) d" for d k
      using lk_invD(4) [OF assms(1), of d k] by (auto split: if_splits)
  qed (fact lk_invD(1) [OF assms(1)], erule (1) lk_invD(2) [OF assms(1)])
qed

lemma lk_start_release:
  assumes "lk_inv w h ph hs" "ph c = Outside" "h l = Some c"
  shows "lk_inv w (h(l := None)) (ph(c := Dropping l)) (hs(c := hs c - {l}))"
proof -
  have l: "l \<in> hs c" using lk_invD(3) [OF assms(1)] assms(3) by blast
  then have o: "owns (ph(c := Dropping l)) (hs(c := hs c - {l})) = owns ph hs"
    using assms(2) by (auto simp: owns_def fun_eq_iff)
  have u: "l \<in> hs d \<Longrightarrow> d = c" for d using lk_invD(2) [OF assms(1), of d l c] l by (simp add: owns_def)
  show ?thesis
  proof (rule lk_invI, unfold o)
    show "(h(l := None)) k = Some d \<longleftrightarrow> k \<in> (hs(c := hs c - {l})) d" for k d
      using u [of d] lk_invD(3) [OF assms(1), of k d] by auto
    show "(ph(c := Dropping l)) d = Won k \<or> (ph(c := Dropping l)) d = Dropping k \<Longrightarrow> k \<notin> (hs(c := hs c - {l})) d" for d k
      using lk_invD(4) [OF assms(1), of d k] by (auto split: if_splits)
  qed (fact lk_invD(1) [OF assms(1)], erule (1) lk_invD(2) [OF assms(1)])
qed

lemma lk_store_free:
  assumes "lk_inv w h ph hs" "ph c = Dropping l"
  shows "lk_inv (w(l := False)) h (ph(c := Dropped)) hs"
proof -
  have "owns ph hs c l" using assms(2) by (simp add: owns_def)
  then have u: "owns ph hs d l \<Longrightarrow> d = c" for d using lk_invD(2) [OF assms(1)] by blast
  have n: "l \<notin> hs c" using lk_invD(4) [OF assms(1)] assms(2) by blast
  have o: "owns (ph(c := Dropped)) hs d k \<longleftrightarrow> owns ph hs d k \<and> k \<noteq> l" for d k
  proof (cases "d = c")
    case True
    then show ?thesis using assms(2) n by (auto simp: owns_def)
  next
    case False
    then show ?thesis using u [of d] by (auto simp: owns_def)
  qed
  show ?thesis
  proof (rule lk_invI, unfold o)
    show "(w(l := False)) k \<longleftrightarrow> (\<exists>d. owns ph hs d k \<and> k \<noteq> l)" for k
      using lk_invD(1) [OF assms(1), of k] by auto
    show "(ph(c := Dropped)) d = Won k \<or> (ph(c := Dropped)) d = Dropping k \<Longrightarrow> k \<notin> hs d" for d k
      using lk_invD(4) [OF assms(1), of d k] by (auto split: if_splits)
    show "owns ph hs d k \<and> k \<noteq> l \<Longrightarrow> owns ph hs e k \<and> k \<noteq> l \<Longrightarrow> d = e" for d e k
      using lk_invD(2) [OF assms(1)] by blast
    show "h k = Some d \<longleftrightarrow> k \<in> hs d" for k d by (rule lk_invD(3) [OF assms(1)])
  qed
qed

lemma smp_locks_inv_step: "smp_step m m' \<Longrightarrow> smp_locks_inv m \<Longrightarrow> smp_locks_inv m'"
proof (induction rule: smp_step.induct)
  case (start_acquire m c l)
  then show ?case
    using lk_quiet [of _ _ "phases m" "held m" c _ "Spinning l"]
    by (simp add: smp_locks_inv_def spin_defs upd_defs on_cpu_def Let_def)
next
  case (spin m c l old s')
  then have "s' = upd_lock l (\<lambda>k. k\<lparr>locked := 1\<rparr>) (on_cpu c m)" "locked (locks (kern m) l) \<noteq> 0"
    by (auto simp: xchg_def on_cpu_def)
  then have "(\<lambda>k. locked (locks s' k) \<noteq> 0) = (\<lambda>k. locked (locks (kern m) k) \<noteq> 0)"
    "(\<lambda>k. lcpu (locks s' k)) = (\<lambda>k. lcpu (locks (kern m) k))"
    by (auto simp: upd_defs on_cpu_def)
  then show ?case using spin by (simp add: smp_locks_inv_def)
next
  case (win m c l old s')
  then have s': "s' = upd_lock l (\<lambda>k. k\<lparr>locked := 1\<rparr>) (on_cpu c m)" "\<not> locked (locks (kern m) l) \<noteq> 0"
    by (auto simp: xchg_def on_cpu_def)
  then have "(\<lambda>k. locked (locks s' k) \<noteq> 0) = (\<lambda>k. locked (locks (kern m) k) \<noteq> 0)(l := True)"
    "(\<lambda>k. lcpu (locks s' k)) = (\<lambda>k. lcpu (locks (kern m) k))"
    by (auto simp: upd_defs on_cpu_def)
  then show ?case using lk_win [OF win(4) [unfolded smp_locks_inv_def] win(1)] s'(2)
    by (simp add: smp_locks_inv_def)
next
  case (record_it m c l)
  have "(\<lambda>k. lcpu (locks (record_holder l (on_cpu c m)) k)) =
      (\<lambda>k. lcpu (locks (kern m) k))(l := Some c)"
    "(\<lambda>k. locked (locks (record_holder l (on_cpu c m)) k) \<noteq> 0) =
      (\<lambda>k. locked (locks (kern m) k) \<noteq> 0)"
    by (auto simp: record_holder_def upd_defs on_cpu_def)
  then show ?case using lk_record [OF record_it(2) [unfolded smp_locks_inv_def] record_it(1)]
    by (simp add: smp_locks_inv_def)
next
  case (start_release m c l)
  have "(\<lambda>k. lcpu (locks (clear_holder l (on_cpu c m)) k)) =
      (\<lambda>k. lcpu (locks (kern m) k))(l := None)"
    "(\<lambda>k. locked (locks (clear_holder l (on_cpu c m)) k) \<noteq> 0) =
      (\<lambda>k. locked (locks (kern m) k) \<noteq> 0)"
    by (auto simp: clear_holder_def upd_defs on_cpu_def)
  moreover have "lcpu (locks (kern m) l) = Some c"
    using start_release(2) by (simp add: holding_def on_cpu_def)
  ultimately show ?case
    using lk_start_release [OF start_release(3) [unfolded smp_locks_inv_def] start_release(1)]
    by (simp add: smp_locks_inv_def)
next
  case (store_free m c l)
  have "(\<lambda>k. lcpu (locks (free_word l (on_cpu c m)) k)) = (\<lambda>k. lcpu (locks (kern m) k))"
    "(\<lambda>k. locked (locks (free_word l (on_cpu c m)) k) \<noteq> 0) =
      (\<lambda>k. locked (locks (kern m) k) \<noteq> 0)(l := False)"
    by (auto simp: free_word_def upd_defs on_cpu_def)
  then show ?case
    using lk_store_free [OF store_free(2) [unfolded smp_locks_inv_def] store_free(1)]
    by (simp add: smp_locks_inv_def)
next
  case (pop m c s')
  then have "locks s' = locks (kern m)"
    by (auto simp: popcli_def sti_def upd_defs on_cpu_def Let_def split: if_splits)
  then show ?case using lk_quiet [of _ _ "phases m" "held m" c _ Outside] pop
    by (simp add: smp_locks_inv_def)
qed

text \<open>The nesting counter of the moving CPU; the other CPUs keep theirs.\<close>

lemma cli_inv_push:
  assumes "cli_inv (cpus s c) Outside hs" and "mycpu s = c"
  shows "cli_inv (cpus (pushcli s) c) (Spinning l) hs"
  using assms by (simp add: cli_inv_def spin_defs upd_defs Let_def)

lemma cli_inv_pop:
  assumes "cli_inv (cpus s c) Dropped hs" and "mycpu s = c"
  shows "\<exists>s'. popcli s = Ok () s' \<and> cli_inv (cpus s' c) Outside hs \<and>
    (\<forall>d. d \<noteq> c \<longrightarrow> cpus s' d = cpus s d)"
  using assms by (auto simp: cli_inv_def spin_defs upd_defs Let_def)

lemma pushcli_other: "d \<noteq> mycpu s \<Longrightarrow> cpus (pushcli s) d = cpus s d"
  by (simp add: spin_defs upd_defs Let_def)

lemma smp_cli_inv_step:
  "smp_step m m' \<Longrightarrow> smp_locks_inv m \<Longrightarrow> smp_cli_inv m \<Longrightarrow> smp_cli_inv m'"
proof (induction rule: smp_step.induct)
  case (start_acquire m c l)
  then have "cli_inv (cpus (pushcli (on_cpu c m)) c) (Spinning l) (held m c)"
    by (intro cli_inv_push) (simp_all add: smp_cli_inv_def on_cpu_def, metis)
  then show ?case
    using start_acquire(4) by (auto simp: smp_cli_inv_def pushcli_other on_cpu_def)
next
  case (spin m c l old s')
  then show ?case by (auto simp: smp_cli_inv_def xchg_def upd_defs on_cpu_def)
next
  case (win m c l old s')
  then have "cpus s' = cpus (kern m)" by (auto simp: xchg_def upd_defs on_cpu_def)
  moreover have "cli_inv (cpus (kern m) c) (Spinning l) (held m c)"
    using win unfolding smp_cli_inv_def by metis
  ultimately show ?case using win(5) by (auto simp: smp_cli_inv_def cli_inv_def)
next
  case (record_it m c l)
  have "cli_inv (cpus (kern m) c) (Won l) (held m c)"
    using record_it unfolding smp_cli_inv_def by metis
  moreover have "l \<notin> held m c"
    using lk_invD(4) [OF record_it(2) [unfolded smp_locks_inv_def]] record_it(1) by blast
  ultimately show ?case
    using record_it(3) by (auto simp: smp_cli_inv_def cli_inv_def record_holder_def upd_defs on_cpu_def)
next
  case (start_release m c l)
  have "cli_inv (cpus (kern m) c) Outside (held m c)"
    using start_release unfolding smp_cli_inv_def by metis
  moreover have "lcpu (locks (kern m) l) = Some c"
    using start_release(2) by (simp add: holding_def on_cpu_def)
  then have "l \<in> held m c"
    using lk_invD(3) [OF start_release(3) [unfolded smp_locks_inv_def], of l c] by blast
  moreover from calculation have "0 < card (held m c)"
    by (auto simp: cli_inv_def card_gt_0_iff)
  ultimately have "cli_inv (cpus (kern m) c) (Dropping l) (held m c - {l})"
    by (auto simp: cli_inv_def card_Diff_singleton)
  then show ?case
    using start_release(4) by (auto simp: smp_cli_inv_def clear_holder_def upd_defs on_cpu_def)
next
  case (store_free m c l)
  have "cli_inv (cpus (kern m) c) (Dropping l) (held m c)"
    using store_free unfolding smp_cli_inv_def by metis
  then show ?case
    using store_free(3) by (auto simp: smp_cli_inv_def cli_inv_def free_word_def upd_defs on_cpu_def)
next
  case (pop m c s')
  then have "cli_inv (cpus (on_cpu c m) c) Dropped (held m c)"
    unfolding smp_cli_inv_def on_cpu_def by simp metis
  then obtain s'' where "popcli (on_cpu c m) = Ok () s''" "cli_inv (cpus s'' c) Outside (held m c)"
    "\<forall>d. d \<noteq> c \<longrightarrow> cpus s'' d = cpus (on_cpu c m) d"
    using cli_inv_pop [of "on_cpu c m" c] by (auto simp: on_cpu_def)
  then show ?case using pop by (auto simp: smp_cli_inv_def on_cpu_def)
qed

lemma smp_inv_start: "smp_start m \<Longrightarrow> smp_locks_inv m \<and> smp_cli_inv m"
  by (simp add: smp_start_def smp_locks_inv_def smp_cli_inv_def lk_inv_def cli_inv_def owns_def)

lemma smp_inv_reach: "smp_reach m \<Longrightarrow> smp_locks_inv m \<and> smp_cli_inv m"
  by (induction rule: smp_reach.induct)
    (auto intro: smp_locks_inv_step smp_cli_inv_step dest: smp_inv_start)

section \<open>Properties\<close>

text \<open>A run to evaluate the properties on: CPU 0 acquires \<open>ptable.lock\<close>.\<close>

definition smp_demo0 :: smp where
  "smp_demo0 = \<lparr>kern = kst0, phases = \<lambda>_. Outside, held = \<lambda>_. {}\<rparr>"

definition smp_demo :: smp where
  "smp_demo = \<lparr>kern = enter L_ptable kst0, phases = \<lambda>_. Outside, held = (\<lambda>_. {})(0 := {L_ptable})\<rparr>"

lemma smp_demo_reach: "smp_reach smp_demo"
proof -
  let ?m1 = "\<lparr>kern = pushcli kst0, phases = (\<lambda>_. Outside)(0 := Spinning L_ptable), held = \<lambda>_. {}\<rparr>"
  let ?m2 = "\<lparr>kern = snd (xchg L_ptable 1 (pushcli kst0)), phases = (\<lambda>_. Outside)(0 := Won L_ptable),
    held = \<lambda>_. {}\<rparr>"
  have cpu: "on_cpu 0 smp_demo0 = kst0" "on_cpu 0 ?m1 = pushcli kst0"
    "on_cpu 0 ?m2 = snd (xchg L_ptable 1 (pushcli kst0))"
    by (simp_all add: on_cpu_def smp_demo0_def kst0_def spin_defs upd_defs Let_def)
  have "smp_reach smp_demo0"
    by (rule smp_init) (simp add: smp_start_def smp_demo0_def kst0_def cpu0_def spin0_def)
  moreover have "smp_step smp_demo0 ?m1"
    using start_acquire [of smp_demo0 0 L_ptable, unfolded cpu]
    by (simp add: smp_demo0_def kst0_def spin0_def spin_defs upd_defs Let_def)
  moreover have "smp_step ?m1 ?m2"
    using win [of ?m1 0 L_ptable 0 "snd (xchg L_ptable 1 (pushcli kst0))", unfolded cpu]
    by (simp add: kst0_def spin0_def spin_defs upd_defs Let_def)
  moreover have "smp_step ?m2 smp_demo"
    using record_it [of ?m2 0 L_ptable, unfolded cpu]
    by (simp add: smp_demo_def enter_def xchg_def fun_upd_idem)
  ultimately show ?thesis by (meson smp_next)
qed

text \<open>C2: mutual exclusion of spin locks for any number of CPUs, at the granularity of the
  individual accesses of \<open>acquire\<close> and \<open>release\<close>: in every reachable state at most one CPU is
  between winning the exchange on a lock and freeing the lock word, and \<open>holding\<close>, which
  the panics of the kernel rely on, is true on a CPU exactly for the locks this CPU has
  acquired and not begun to release.\<close>

theorem spinlock_mutual_exclusion:
  assumes "smp_reach m"
  shows "(owns (phases m) (held m) c l \<longrightarrow> owns (phases m) (held m) d l \<longrightarrow> c = d) \<and>
    (holding l (on_cpu c m) \<longleftrightarrow> l \<in> held m c)"
proof -
  note inv = smp_inv_reach [OF assms, THEN conjunct1, unfolded smp_locks_inv_def]
  have "lcpu (locks (kern m) l) = Some c \<longleftrightarrow> l \<in> held m c" by (rule lk_invD(3) [OF inv])
  moreover have "l \<in> held m c \<Longrightarrow> locked (locks (kern m) l) \<noteq> 0"
    using lk_invD(1) [OF inv, of l] by (auto simp: owns_def)
  ultimately show ?thesis
    using lk_invD(2) [OF inv] by (auto simp: holding_def on_cpu_def)
qed

theorem spinlock_mutual_exclusion_witness:
  "smp_reach smp_demo \<and> owns (phases smp_demo) (held smp_demo) 0 L_ptable \<and>
   holding L_ptable (on_cpu 0 smp_demo) \<and> \<not> owns (phases smp_demo) (held smp_demo) 1 L_ptable"
proof -
  have "owns (phases smp_demo) (held smp_demo) 0 L_ptable" "L_ptable \<in> held smp_demo 0"
    by (simp_all add: smp_demo_def owns_def)
  then show ?thesis
    using smp_demo_reach spinlock_mutual_exclusion [OF smp_demo_reach, of 0 L_ptable 1] by auto
qed

text \<open>C24: in every reachable state a CPU that holds a lock or is about to take one runs with
  interrupts off, its nesting counter is the number of locks it holds plus the operation in
  progress, and the \<open>popcli\<close> at the end of a release never panics.\<close>

theorem spinlock_interrupts_off:
  assumes "smp_reach m"
  shows "(held m c \<noteq> {} \<or> phases m c \<noteq> Outside \<longrightarrow> eflags (cpus (kern m) c) AND FL_IF = 0) \<and>
    ncli (cpus (kern m) c) = int (card (held m c)) + (if phases m c = Outside then 0 else 1) \<and>
    (phases m c = Dropped \<longrightarrow> (\<exists>s'. popcli (on_cpu c m) = Ok () s'))"
proof -
  have inv: "cli_inv (cpus (kern m) c) (phases m c) (held m c)"
    using smp_inv_reach [OF assms] by (simp add: smp_cli_inv_def)
  then have "phases m c = Dropped \<longrightarrow> (\<exists>s'. popcli (on_cpu c m) = Ok () s')"
    using cli_inv_pop [of "on_cpu c m" c "held m c"] by (auto simp: on_cpu_def)
  moreover have "held m c \<noteq> {} \<Longrightarrow> 0 < card (held m c)"
    using inv by (simp add: cli_inv_def card_gt_0_iff)
  ultimately show ?thesis using inv by (auto simp: cli_inv_def split: if_splits)
qed

theorem spinlock_interrupts_off_witness:
  "smp_reach smp_demo \<and> held smp_demo 0 \<noteq> {} \<and> eflags (cpus (kern smp_demo) 0) AND FL_IF = 0 \<and>
   ncli (cpus (kern smp_demo) 0) = 1"
  using smp_demo_reach spinlock_interrupts_off [OF smp_demo_reach, of 0] by (simp add: smp_demo_def)

end
