(* ===== verification/Kalloc.thy ===== *)
theory Kalloc
  imports Spinlock
begin

unbundle bit_operations_syntax

text \<open>
  The physical page allocator (kalloc.c). The free list is linked through the first word of
  every free page, so it lives in memory; \<open>free_chain\<close> reads it back as a list. The contract
  \<open>page_allocator\<close> is what the users of the allocator rely on.
\<close>

section \<open>Address arithmetic of mmu.h and memlayout.h\<close>

definition PGROUNDUP :: "u32 \<Rightarrow> u32" where
  "PGROUNDUP a = (a + PGSIZE - 1) AND NOT (PGSIZE - 1)"

definition PGROUNDDOWN :: "u32 \<Rightarrow> u32" where
  "PGROUNDDOWN a = a AND NOT (PGSIZE - 1)"

definition V2P :: "u32 \<Rightarrow> u32" where
  "V2P a = a - KERNBASE"

definition P2V :: "u32 \<Rightarrow> u32" where
  "P2V a = a + KERNBASE"

section \<open>Operations\<close>

text \<open>The critical section under \<open>kmem.lock\<close>, entered only once \<open>kinit2\<close> has set
  \<open>use_lock\<close>.\<close>

definition kmem_locked :: "(kst \<Rightarrow> 'a \<times> kst) \<Rightarrow> kst \<Rightarrow> 'a kres" where
  "kmem_locked body s =
     (if use_lock s \<noteq> 0 then with_lock L_kmem body s else (case body s of (r, s) \<Rightarrow> Ok r s))"

definition push_free :: "u32 \<Rightarrow> kst \<Rightarrow> unit \<times> kst" where
  "push_free v s = ((), s\<lparr>mem := store32 (mem s) v (freelist s), freelist := v\<rparr>)"

definition pop_free :: "kst \<Rightarrow> u32 \<times> kst" where
  "pop_free s =
     (let r = freelist s in (r, if r \<noteq> 0 then s\<lparr>freelist := load32 (mem s) r\<rparr> else s))"

definition kfree :: "u32 \<Rightarrow> kst \<Rightarrow> unit kres" where
  "kfree v s =
     (if v mod PGSIZE \<noteq> 0 \<or> v < sym_end (syms s) \<or> V2P v \<ge> PHYSTOP then Panic ''kfree''
      else kmem_locked (push_free v) (s\<lparr>mem := memset (mem s) v 1 PGSIZE\<rparr>))"

definition kalloc :: "kst \<Rightarrow> u32 kres" where
  "kalloc s = kmem_locked pop_free s"

lemma page_advance: "\<not> p + PGSIZE < p \<Longrightarrow> unat (p + PGSIZE) = unat p + 4096"
proof (rule ccontr)
  assume *: "\<not> p + PGSIZE < p" "unat (p + PGSIZE) \<noteq> unat p + 4096"
  have eq: "unat (p + PGSIZE) = (unat p + 4096) mod 4294967296"
    by (simp add: unat_word_ariths)
  with *(2) have "4294967296 \<le> unat p + 4096" by (cases "unat p + 4096 < 4294967296") simp_all
  then have "unat (p + PGSIZE) = unat p + 4096 - 4294967296"
    by (simp add: eq le_mod_geq less_imp_diff_less)
  then have "unat (p + PGSIZE) < unat p" using \<open>4294967296 \<le> unat p + 4096\<close> by simp
  then show False using *(1) by (simp add: word_less_nat_alt)
qed

lemma page_advance_less: "\<not> p + PGSIZE < p \<Longrightarrow> 4294967296 - unat (p + PGSIZE) < 4294967296 - unat p"
  using page_advance [of p] unat_lt32 [of "p + PGSIZE"] by simp

text \<open>The loop of \<open>freerange\<close>; a pointer that runs over the end of the address space is
  undefined in C.\<close>

function freerange_loop :: "u32 \<Rightarrow> u32 \<Rightarrow> kst \<Rightarrow> unit kres" where
  "freerange_loop p vend s =
     (if p + PGSIZE < p then Fault ''pointer overflow''
      else if p + PGSIZE \<le> vend then seq (kfree p s) (freerange_loop (p + PGSIZE) vend)
      else Ok () s)"
  by pat_completeness auto
termination
  by (relation "measure (\<lambda>(p, vend, s). 4294967296 - unat p)") (auto intro: page_advance_less)

declare freerange_loop.simps [simp del]

definition freerange :: "u32 \<Rightarrow> u32 \<Rightarrow> kst \<Rightarrow> unit kres" where
  "freerange vstart vend s = freerange_loop (PGROUNDUP vstart) vend s"

definition kinit1 :: "u32 \<Rightarrow> u32 \<Rightarrow> kst \<Rightarrow> unit kres" where
  "kinit1 vstart vend s =
     freerange vstart vend ((initlock L_kmem ''kmem'' s)\<lparr>use_lock := 0\<rparr>)"

definition kinit2 :: "u32 \<Rightarrow> u32 \<Rightarrow> kst \<Rightarrow> unit kres" where
  "kinit2 vstart vend s = seq (freerange vstart vend s) (\<lambda>s. Ok () (s\<lparr>use_lock := 1\<rparr>))"

section \<open>The free list\<close>

fun free_chain :: "memory \<Rightarrow> u32 \<Rightarrow> u32 list \<Rightarrow> bool" where
  "free_chain m h [] \<longleftrightarrow> h = 0"
| "free_chain m h (x # xs) \<longleftrightarrow> h = x \<and> h \<noteq> 0 \<and> free_chain m (load32 m h) xs"

definition page_ok :: "kst \<Rightarrow> u32 \<Rightarrow> bool" where
  "page_ok s v \<longleftrightarrow> v mod PGSIZE = 0 \<and> sym_end (syms s) \<le> v \<and> V2P v < PHYSTOP"

text \<open>The allocator's invariant, with the list of free pages.\<close>

definition kmem_inv :: "kst \<Rightarrow> u32 list \<Rightarrow> bool" where
  "kmem_inv s xs \<longleftrightarrow> free_chain (mem s) (freelist s) xs \<and> distinct xs \<and>
     (\<forall>x \<in> set xs. page_ok s x) \<and> cpu_ok s \<and> lock_free L_kmem s"

lemma page_ok_nonzero: "page_ok s v \<Longrightarrow> v \<noteq> 0"
  by (auto simp: page_ok_def V2P_def)

text \<open>Distinct pages do not share bytes.\<close>

lemma unat_mod_page: "(v :: u32) mod PGSIZE = 0 \<Longrightarrow> 4096 dvd unat v"
proof -
  assume "v mod PGSIZE = 0"
  then have "unat (v mod PGSIZE) = 0" by simp
  then show ?thesis by (simp add: unat_mod mod_0_imp_dvd)
qed

lemma page_disjoint:
  assumes "v mod PGSIZE = 0" "x mod PGSIZE = 0" "x \<noteq> v" "i < 4096"
  shows "\<not> in_block v 4096 (x + of_nat i)"
proof -
  let ?d = "unat (x - v)"
  have "4096 dvd unat v" "4096 dvd unat x"
    using assms(1,2) by (simp_all add: unat_mod_page)
  then have dvd: "4096 dvd ?d"
    by (auto simp: unat_sub_if' intro!: dvd_diff_nat dvd_add)
  have "?d \<noteq> 0" using assms(3) by (simp add: unat_eq_0)
  then have ge: "4096 \<le> ?d" using dvd by (simp add: dvd_imp_le)
  obtain k where k: "?d = 4096 * k" using dvd by (rule dvdE)
  have "?d < 4294967296" by simp
  then have "k < 1048576" unfolding k by simp
  then have "?d \<le> 4294967296 - 4096" unfolding k by simp
  then have "unat (x - v + of_nat i) = ?d + i"
    using assms(4) by (simp add: unat_word_ariths unat_of_nat)
  then have "unat (x + of_nat i - v) = ?d + i" by (simp add: algebra_simps)
  then show ?thesis using ge by (simp add: in_block_def)
qed

lemma free_chain_cong:
  assumes "\<And>x. x \<in> set xs \<Longrightarrow> load32 m' x = load32 m x"
  shows "free_chain m' h xs = free_chain m h xs"
  using assms by (induction xs arbitrary: h) auto

text \<open>Writing inside a page that is not free leaves the list alone.\<close>

lemma free_chain_outside:
  assumes "v mod PGSIZE = 0" "v \<notin> set xs" "\<forall>x \<in> set xs. x mod PGSIZE = 0"
    and "\<And>a. \<not> in_block v 4096 a \<Longrightarrow> m' a = m a"
  shows "free_chain m' h xs = free_chain m h xs"
proof (rule free_chain_cong)
  fix x assume x: "x \<in> set xs"
  show "load32 m' x = load32 m x"
  proof (rule load32_cong)
    fix i :: nat assume "i < 4"
    moreover have "x mod PGSIZE = 0" "x \<noteq> v" using x assms(2,3) by auto
    ultimately have "\<not> in_block v 4096 (x + of_nat i)"
      using assms(1) by (intro page_disjoint) simp_all
    then show "m' (x + of_nat i) = m (x + of_nat i)" by (rule assms(4))
  qed
qed

section \<open>Functional behaviour\<close>

lemma push_free_chain:
  assumes "free_chain m h xs" "page_ok s v" "v \<notin> set xs" "\<forall>x \<in> set xs. page_ok s x"
  shows "free_chain (store32 (memset m v 1 PGSIZE) v h) v (v # xs)"
proof -
  let ?m = "store32 (memset m v 1 PGSIZE) v h"
  have "?m a = m a" if "\<not> in_block v 4096 a" for a
  proof -
    have "\<not> in_block v 4 a" using that by (simp add: in_block_def)
    then have "?m a = memset m v 1 PGSIZE a" by (rule store32_outside)
    also have "\<dots> = m a" using that by (simp add: memset_eq store_bytes_outside)
    finally show ?thesis .
  qed
  then have "free_chain ?m h xs = free_chain m h xs"
    using assms(2-4) by (intro free_chain_outside) (auto simp: page_ok_def)
  then show ?thesis using assms(1,2) page_ok_nonzero by simp
qed

interpretation kpush: locked_op L_kmem "push_free v"
  by unfold_locales (simp_all add: push_free_def)

interpretation kpop: locked_op L_kmem pop_free
  by unfold_locales (simp_all add: pop_free_def Let_def)

lemma cpu_ok_balanced:
  assumes "cpu_ok s" "mycpu t = mycpu s" "ncli (thecpu t) = ncli (thecpu s)"
    "eflags (thecpu t) = eflags (thecpu s)"
  shows "cpu_ok t"
  using assms by (simp add: cpu_ok_def)

lemma page_ok_cong: "syms t = syms s \<Longrightarrow> page_ok t = page_ok s"
  by (simp add: page_ok_def fun_eq_iff)

lemma kmem_invI:
  assumes "free_chain (mem t) (freelist t) xs" "distinct xs" "\<forall>x \<in> set xs. page_ok s x"
    "syms t = syms s" "cpu_ok t" "lock_free L_kmem t"
  shows "kmem_inv t xs"
  using assms by (simp add: kmem_inv_def page_ok_cong [OF assms(4)])

lemma kmem_invD:
  assumes "kmem_inv s xs"
  shows "free_chain (mem s) (freelist s) xs" "distinct xs" "\<forall>x \<in> set xs. page_ok s x"
    "cpu_ok s" "lock_free L_kmem s"
  using assms by (simp_all add: kmem_inv_def)

text \<open>Under the lock or not, the body's result is the operation's result; afterwards the
  lock is free and the CPU state is as before.\<close>

lemma kmem_locked_runs:
  assumes "locked_op body" and "cpu_ok s" and "lock_free L_kmem s"
  shows "\<exists>u t. (u = s \<or> u = enter L_kmem s) \<and> kmem_locked body s = Ok (fst (body u)) t \<and>
    (t = snd (body u) \<or> t = leave L_kmem (snd (body u))) \<and> cpu_ok t \<and> lock_free L_kmem t"
proof (cases "use_lock s = 0")
  case True
  note frame = locked_op.body_locks [OF assms(1)] locked_op.body_cpus [OF assms(1)]
    locked_op.body_mycpu [OF assms(1)]
  have "cpu_ok (snd (body s))" "lock_free L_kmem (snd (body s))"
    using assms(2,3) by (simp_all add: cpu_ok_def lock_free_def frame)
  then show ?thesis using True
    by (intro exI [of _ s] exI [of _ "snd (body s)"]) (simp add: kmem_locked_def case_prod_beta)
next
  case False
  let ?t = "leave L_kmem (snd (body (enter L_kmem s)))"
  have run: "with_lock L_kmem body s = Ok (fst (body (enter L_kmem s))) ?t"
    using locked_op.runs [OF assms(1,3,2)] .
  note bal = locked_op.balanced [OF assms(1,3,2) run]
  have "cpu_ok ?t"
    by (rule cpu_ok_balanced [OF assms(2) _ bal [THEN conjunct2, THEN conjunct1]
          bal [THEN conjunct2, THEN conjunct2]])
      (simp add: locked_op.body_mycpu [OF assms(1)])
  then show ?thesis using False run
    by (intro exI [of _ "enter L_kmem s"] exI [of _ ?t]) (simp add: kmem_locked_def)
qed

lemma kalloc_spec:
  assumes "kmem_inv s xs"
  shows "\<exists>t. kalloc s = Ok (case xs of [] \<Rightarrow> 0 | x # _ \<Rightarrow> x) t \<and> kmem_inv t (tl xs) \<and>
    mem t = mem s \<and> syms t = syms s"
proof -
  obtain u t where u: "u = s \<or> u = enter L_kmem s" and run: "kalloc s = Ok (fst (pop_free u)) t"
    and t: "t = snd (pop_free u) \<or> t = leave L_kmem (snd (pop_free u))"
    and ok: "cpu_ok t" "lock_free L_kmem t"
    using kmem_locked_runs [OF kpop.locked_op_axioms kmem_invD(4,5) [OF assms]]
    unfolding kalloc_def by blast
  have f: "mem u = mem s" "freelist u = freelist s" "syms u = syms s" using u by auto
  have "mem t = mem s" "syms t = syms s"
    "freelist t = (if freelist s \<noteq> 0 then load32 (mem s) (freelist s) else 0)"
    using t f by (auto simp: pop_free_def Let_def)
  moreover have "fst (pop_free u) = (case xs of [] \<Rightarrow> 0 | x # _ \<Rightarrow> x)"
    using kmem_invD(1) [OF assms] f by (cases xs) (auto simp: pop_free_def Let_def)
  moreover from calculation have "kmem_inv t (tl xs)"
    using kmem_invD(1-3) [OF assms] ok by (intro kmem_invI [of _ _ s]) (cases xs; auto)+
  ultimately show ?thesis using run by auto
qed

lemma kfree_spec:
  assumes inv: "kmem_inv s xs" and ok: "page_ok s v" and "v \<notin> set xs"
  shows "\<exists>t. kfree v s = Ok () t \<and> kmem_inv t (v # xs) \<and>
    (\<forall>a. \<not> in_block v 4096 a \<longrightarrow> mem t a = mem s a) \<and> syms t = syms s"
proof -
  let ?s = "s\<lparr>mem := memset (mem s) v 1 PGSIZE\<rparr>"
  let ?m = "store32 (memset (mem s) v 1 PGSIZE) v (freelist s)"
  have pre: "cpu_ok ?s" "lock_free L_kmem ?s"
    using kmem_invD(4,5) [OF inv] by (simp_all add: lock_free_def cpu_ok_def)
  obtain u t where u: "u = ?s \<or> u = enter L_kmem ?s"
    and run: "kmem_locked (push_free v) ?s = Ok (fst (push_free v u)) t"
    and t: "t = snd (push_free v u) \<or> t = leave L_kmem (snd (push_free v u))"
    and cs: "cpu_ok t" "lock_free L_kmem t"
    using kmem_locked_runs [OF kpush.locked_op_axioms pre, of v] by blast
  have f: "mem u = mem ?s" "freelist u = freelist s" "syms u = syms s" using u by auto
  have t': "mem t = ?m" "freelist t = v" "syms t = syms s"
    using t f by (auto simp: push_free_def)
  have "free_chain ?m v (v # xs)"
    using kmem_invD(1,3) [OF inv] ok assms(3) by (intro push_free_chain)
  then have "kmem_inv t (v # xs)"
    using kmem_invD(2,3) [OF inv] ok assms(3) cs t' by (intro kmem_invI [of _ _ s]) auto
  moreover have "?m a = mem s a" if "\<not> in_block v 4096 a" for a
  proof -
    have "\<not> in_block v 4 a" using that by (simp add: in_block_def)
    then show ?thesis using that by (simp add: store32_outside memset_eq store_bytes_outside)
  qed
  moreover have "kfree v s = Ok () t"
    using ok run by (auto simp: kfree_def page_ok_def push_free_def)
  ultimately show ?thesis using t' by auto
qed

section \<open>Rounding\<close>

lemma and_not_mask12: "(a :: u32) AND NOT 4095 = a - take_bit 12 a"
proof -
  have m: "(4095 :: u32) = mask 12" by (simp add: mask_eq_exp_minus_1)
  have "a AND NOT 4095 = push_bit 12 (drop_bit 12 a)"
    unfolding m by (rule bit_word_eqI) (auto simp only: bit_and_iff bit_not_iff bit_mask_iff
        bit_push_bit_iff bit_drop_bit_eq possible_bit_word comp_apply le_add_diff_inverse not_less)
  also have "\<dots> = a - take_bit 12 a"
    using bits_ident [of 12 a] by (simp add: eq_diff_eq)
  finally show ?thesis .
qed

lemma PGROUNDDOWN_eq: "PGROUNDDOWN a = a - a mod PGSIZE"
proof -
  have "PGSIZE - 1 = 4095" by simp
  then have "PGROUNDDOWN a = a - take_bit 12 a"
    unfolding PGROUNDDOWN_def by (simp only: and_not_mask12)
  then show ?thesis by (simp add: take_bit_eq_mod)
qed

lemma unat_PGROUNDDOWN: "unat (PGROUNDDOWN a) = unat a div 4096 * 4096"
proof -
  have "a mod PGSIZE \<le> a" by (simp add: word_le_nat_alt unat_mod)
  then have "unat (PGROUNDDOWN a) = unat a - unat a mod 4096"
    by (simp add: PGROUNDDOWN_eq unat_sub unat_mod)
  then show ?thesis by (simp add: minus_mod_eq_div_mult)
qed

lemma PGROUNDUP_eq: "PGROUNDUP a = PGROUNDDOWN (a + PGSIZE - 1)"
  by (simp only: PGROUNDUP_def PGROUNDDOWN_def)

lemma unat_PGROUNDUP:
  assumes "unat a + 4095 < 2 ^ 32"
  shows "unat (PGROUNDUP a) = (unat a + 4095) div 4096 * 4096"
proof -
  have "a + PGSIZE - 1 = a + 4095" by simp
  then have "unat (a + PGSIZE - 1) = unat a + 4095"
    using assms by (simp add: unat_word_ariths)
  then show ?thesis by (simp add: PGROUNDUP_eq unat_PGROUNDDOWN)
qed

section \<open>Freeing a range\<close>

definition page_seq :: "u32 \<Rightarrow> nat \<Rightarrow> u32 list" where
  "page_seq p n = map (\<lambda>i. p + of_nat i * PGSIZE) [0..<n]"

lemma page_seq_Suc: "page_seq p (Suc n) = p # page_seq (p + PGSIZE) n"
  by (simp add: page_seq_def map_upt_Suc algebra_simps del: upt_Suc)

lemma freerange_loop_spec:
  assumes "kmem_inv s xs" and "unat vend = unat p + 4096 * n + r" and "r < 4096"
    and "unat vend + 4096 < 2 ^ 32" and "\<forall>x \<in> set (page_seq p n). page_ok s x"
    and "distinct (page_seq p n)" and "set (page_seq p n) \<inter> set xs = {}"
  shows "\<exists>t. freerange_loop p vend s = Ok () t \<and> kmem_inv t (rev (page_seq p n) @ xs) \<and> syms t = syms s"
  using assms
proof (induction n arbitrary: p s xs)
  case 0
  have "unat (p + PGSIZE) = unat p + 4096"
    using 0 by (simp add: unat_word_ariths)
  then have "\<not> p + PGSIZE < p" "\<not> p + PGSIZE \<le> vend"
    using 0 by (simp_all add: word_less_nat_alt word_le_nat_alt)
  then show ?case using 0(1) by (simp add: freerange_loop.simps [of p] page_seq_def)
next
  case (Suc n)
  have adv: "unat (p + PGSIZE) = unat p + 4096"
    using Suc.prems(2,4) by (simp add: unat_word_ariths)
  then have go: "\<not> p + PGSIZE < p" "p + PGSIZE \<le> vend"
    using Suc.prems(2) by (simp_all add: word_less_nat_alt word_le_nat_alt)
  obtain t where t: "kfree p s = Ok () t" "kmem_inv t (p # xs)" "syms t = syms s"
    using kfree_spec [OF Suc.prems(1), of p] Suc.prems(5-7) by (auto simp: page_seq_Suc)
  have "\<exists>u. freerange_loop (p + PGSIZE) vend t = Ok () u \<and>
      kmem_inv u (rev (page_seq (p + PGSIZE) n) @ p # xs) \<and> syms u = syms t"
    using Suc.prems(2-7) adv t(3)
    by (intro Suc.IH [OF t(2)]) (auto simp: page_seq_Suc page_ok_cong [OF t(3)])
  then show ?case using go t by (simp add: freerange_loop.simps [of p] page_seq_Suc)
qed

section \<open>The contract of the allocator\<close>

text \<open>What the users of the allocator rely on: the free pages behave like a stack of distinct,
  valid, non-null pages, and an empty stack gives the null pointer.\<close>

fun alloc_many :: "('s \<Rightarrow> (u32, 's) outcome) \<Rightarrow> nat \<Rightarrow> 's \<Rightarrow> (u32 list, 's) outcome" where
  "alloc_many f 0 s = Ok [] s"
| "alloc_many f (Suc n) s = bnd (f s) (\<lambda>p s. bnd (alloc_many f n s) (\<lambda>ps. Ok (p # ps)))"

locale page_allocator =
  fixes alloc :: "'s \<Rightarrow> (u32, 's) outcome" and dealloc :: "u32 \<Rightarrow> 's \<Rightarrow> (unit, 's) outcome"
    and free_pages :: "'s \<Rightarrow> u32 list \<Rightarrow> bool" and valid :: "'s \<Rightarrow> u32 \<Rightarrow> bool"
  assumes alloc_nil: "free_pages s [] \<Longrightarrow> \<exists>t. alloc s = Ok 0 t \<and> free_pages t [] \<and> valid t = valid s"
    and alloc_cons:
      "free_pages s (x # xs) \<Longrightarrow> \<exists>t. alloc s = Ok x t \<and> free_pages t xs \<and> valid t = valid s"
    and dealloc_push: "free_pages s xs \<Longrightarrow> valid s v \<Longrightarrow> v \<notin> set xs \<Longrightarrow>
      \<exists>t. dealloc v s = Ok () t \<and> free_pages t (v # xs) \<and> valid t = valid s"
    and sane: "free_pages s xs \<Longrightarrow> distinct xs \<and> (\<forall>x \<in> set xs. valid s x \<and> x \<noteq> 0)"
begin

lemma alloc_many_spec:
  "free_pages s xs \<Longrightarrow> n \<le> length xs \<Longrightarrow>
     \<exists>t. alloc_many alloc n s = Ok (take n xs) t \<and> free_pages t (drop n xs) \<and> valid t = valid s"
proof (induction n arbitrary: s xs)
  case 0
  then show ?case by simp
next
  case (Suc n)
  then obtain x ys where xs: "xs = x # ys" by (cases xs) auto
  obtain t where t: "alloc s = Ok x t" "free_pages t ys" "valid t = valid s"
    using alloc_cons Suc.prems(1) unfolding xs by blast
  then obtain u where "alloc_many alloc n t = Ok (take n ys) u" "free_pages u (drop n ys)"
    "valid u = valid t"
    using Suc.IH [OF t(2)] Suc.prems(2) xs by auto
  then show ?case using t xs by auto
qed

text \<open>Pages handed out one after the other differ, and none of them is still free.\<close>

lemma alloc_many_distinct:
  assumes "free_pages s xs" and "n \<le> length xs"
  shows "\<exists>ps t. alloc_many alloc n s = Ok ps t \<and> length ps = n \<and> distinct ps \<and>
    (\<forall>p \<in> set ps. valid s p \<and> p \<noteq> 0) \<and> free_pages t (drop n xs) \<and> set ps \<inter> set (drop n xs) = {}"
proof -
  obtain t where t: "alloc_many alloc n s = Ok (take n xs) t" "free_pages t (drop n xs)"
    using alloc_many_spec [OF assms] by auto
  have "distinct xs" "\<forall>x \<in> set xs. valid s x \<and> x \<noteq> 0" using sane [OF assms(1)] by auto
  then show ?thesis using t assms(2)
    by (intro exI [of _ "take n xs"] exI [of _ t])
      (auto simp: set_take_disj_set_drop_if_distinct dest: in_set_takeD)
qed

lemma dealloc_then_alloc:
  assumes "free_pages s xs" "valid s v" "v \<notin> set xs"
  shows "\<exists>t u. dealloc v s = Ok () t \<and> alloc t = Ok v u \<and> free_pages u xs"
  using dealloc_push [OF assms] alloc_cons [of _ v xs] by meson

end

lemma kalloc_page_ok:
  assumes "kmem_inv s xs"
  shows "\<exists>t. kalloc s = Ok (case xs of [] \<Rightarrow> 0 | x # _ \<Rightarrow> x) t \<and> kmem_inv t (tl xs) \<and>
    page_ok t = page_ok s"
proof -
  obtain t where t: "kalloc s = Ok (case xs of [] \<Rightarrow> 0 | x # _ \<Rightarrow> x) t" "kmem_inv t (tl xs)"
    "syms t = syms s"
    using kalloc_spec [OF assms] by (elim exE conjE)
  show ?thesis using t(1,2) page_ok_cong [OF t(3)] by (intro exI conjI)
qed

lemma kfree_page_ok:
  assumes "kmem_inv s xs" "page_ok s v" "v \<notin> set xs"
  shows "\<exists>t. kfree v s = Ok () t \<and> kmem_inv t (v # xs) \<and> page_ok t = page_ok s"
proof -
  obtain t where t: "kfree v s = Ok () t" "kmem_inv t (v # xs)" "syms t = syms s"
    using kfree_spec [OF assms] by (elim exE conjE)
  show ?thesis using t(1,2) page_ok_cong [OF t(3)] by (intro exI conjI)
qed

interpretation kmem: page_allocator kalloc kfree kmem_inv page_ok
proof unfold_locales
  show "kmem_inv s [] \<Longrightarrow> \<exists>t. kalloc s = Ok 0 t \<and> kmem_inv t [] \<and> page_ok t = page_ok s" for s
    using kalloc_page_ok [of s "[]"] by simp
  show "kmem_inv s (x # xs) \<Longrightarrow> \<exists>t. kalloc s = Ok x t \<and> kmem_inv t xs \<and> page_ok t = page_ok s"
    for s x xs
    using kalloc_page_ok [of s "x # xs"] by simp
  show "kmem_inv s xs \<Longrightarrow> distinct xs \<and> (\<forall>x \<in> set xs. page_ok s x \<and> x \<noteq> 0)" for s xs
    using page_ok_nonzero by (auto dest: kmem_invD)
qed (rule kfree_page_ok)

section \<open>Properties\<close>

text \<open>C6: the page allocator never hands out a page twice: from a state whose free list holds the
  pages \<open>xs\<close>, any \<open>n \<le> length xs\<close> successive calls of \<open>kalloc\<close> return \<open>n\<close> different
  page-aligned addresses inside the kernel's physical memory, none of which is still on the
  free list.\<close>

theorem kalloc_distinct:
  assumes "kmem_inv s xs" and "n \<le> length xs"
  shows "\<exists>ps t. alloc_many kalloc n s = Ok ps t \<and> length ps = n \<and> distinct ps \<and>
    (\<forall>p \<in> set ps. page_ok s p \<and> p \<noteq> 0) \<and> kmem_inv t (drop n xs) \<and> set ps \<inter> set (drop n xs) = {}"
  using assms by (rule kmem.alloc_many_distinct)

theorem kalloc_distinct_witness:
  "kmem_inv (kst0\<lparr>freelist := 0x80101000\<rparr>) [0x80101000] \<and>
   (\<exists>t. alloc_many kalloc 1 (kst0\<lparr>freelist := 0x80101000\<rparr>) = Ok [0x80101000] t \<and> kmem_inv t [])"
proof -
  let ?s = "kst0\<lparr>freelist := 0x80101000\<rparr>"
  have z: "load32 (\<lambda>_. 0) 0x80101000 = 0" by code_simp
  have inv: "kmem_inv ?s [0x80101000]"
    by (simp add: kmem_inv_def z page_ok_def kst0_def V2P_def cpu_ok_def lock_free_def spin0_def cpu0_def)
  obtain ps t where t: "alloc_many kalloc 1 ?s = Ok ps t" "length ps = 1" "kmem_inv t []"
    using kalloc_distinct [OF inv, of 1] by auto
  obtain t' where "kalloc ?s = Ok 0x80101000 t'" using kalloc_spec [OF inv] by auto
  then have "ps = [0x80101000]" using t(1) by simp
  then show ?thesis using inv t by blast
qed

text \<open>C25: \<open>freerange\<close> puts exactly the whole pages between its arguments on the free list, in
  descending order in front of what was there, and terminates.\<close>

theorem freerange_pages:
  assumes "kmem_inv s xs" and "unat vend + 4096 < 2 ^ 32"
    and "unat (PGROUNDUP vstart) \<le> unat vend"
    and "n = (unat vend - unat (PGROUNDUP vstart)) div 4096"
    and "\<forall>x \<in> set (page_seq (PGROUNDUP vstart) n). page_ok s x \<and> x \<notin> set xs"
    and "distinct (page_seq (PGROUNDUP vstart) n)"
  shows "\<exists>t. freerange vstart vend s = Ok () t \<and> kmem_inv t (rev (page_seq (PGROUNDUP vstart) n) @ xs)"
proof -
  let ?p = "PGROUNDUP vstart" and ?r = "(unat vend - unat (PGROUNDUP vstart)) mod 4096"
  have "unat vend = unat ?p + 4096 * n + ?r"
    using assms(3) unfolding assms(4) by (simp add: mult_div_mod_eq)
  moreover have "?r < 4096" by simp
  ultimately have "\<exists>t. freerange_loop ?p vend s = Ok () t \<and>
      kmem_inv t (rev (page_seq ?p n) @ xs) \<and> syms t = syms s"
    using assms(5,6) by (intro freerange_loop_spec [OF assms(1)]) (use assms(2) in auto)
  then show ?thesis by (auto simp: freerange_def)
qed

theorem freerange_pages_witness:
  "kmem_inv kst0 [] \<and>
   (\<exists>t. freerange 0x80100001 0x80103800 kst0 = Ok () t \<and> kmem_inv t [0x80102000, 0x80101000])"
proof -
  have inv: "kmem_inv kst0 []"
    by (simp add: kmem_inv_def kst0_def cpu_ok_def lock_free_def spin0_def cpu0_def)
  have r: "PGROUNDUP 0x80100001 = 0x80101000" by code_simp
  have q: "page_seq 0x80101000 2 = [0x80101000, 0x80102000]" by code_simp
  have n: "(2 :: nat) = (unat (0x80103800 :: u32) - unat (PGROUNDUP 0x80100001)) div 4096"
    by (simp add: r)
  have ok: "\<forall>x \<in> set (page_seq (PGROUNDUP 0x80100001) 2). page_ok kst0 x \<and> x \<notin> set []"
    by (simp add: r q page_ok_def kst0_def V2P_def)
  show ?thesis
    using freerange_pages [OF inv _ _ n ok] inv unfolding r q by simp
qed

end
