(* ===== verification/Sched.thy ===== *)
theory Sched
  imports Kalloc
begin

unbundle bit_operations_syntax

text \<open>
  Switching, sleeping and waking (proc.c, with \<open>switchuvm\<close> and \<open>switchkvm\<close> of vm.c).

  A process that calls \<open>sched\<close> leaves the CPU; what happens until the scheduler picks it again
  is the environment \<open>E\<close>, a parameter of every routine that may sleep. If the environment leaves
  the process runnable, the scheduler's own code (\<open>dispatch\<close>) resumes it and \<open>sched\<close> returns;
  otherwise the outcome is \<open>Asleep\<close>. \<open>scheduler_pass\<close> is the other side: one turn of the
  scheduler's endless loop, where \<open>run p\<close> is what process \<open>p\<close> does from being switched to until
  it calls \<open>sched\<close>.
\<close>

section \<open>Address space switch\<close>

definition switchuvm :: "nat option \<Rightarrow> kst \<Rightarrow> unit kres" where
  "switchuvm po s =
     (case po of
        None \<Rightarrow> Panic ''switchuvm: no process''
      | Some p \<Rightarrow>
          if kstack (ptable s ! p) = 0 then Panic ''switchuvm: no kstack''
          else if pgdir (ptable s ! p) = 0 then Panic ''switchuvm: no pgdir''
          else let s = pushcli s;
                   s = upd_cpu (\<lambda>c. c\<lparr>ts_ss0 := 16, ts_esp0 := kstack (ptable s ! p) + KSTACKSIZE,
                         ts_iomb := 0xFFFF, cr3 := V2P (pgdir (ptable s ! p))\<rparr>) s
               in popcli s)"

definition switchkvm :: "kst \<Rightarrow> kst" where
  "switchkvm s = upd_cpu (\<lambda>c. c\<lparr>cr3 := V2P (kpgdir s)\<rparr>) s"

section \<open>Leaving and regaining the CPU\<close>

text \<open>The scheduler's side of the switch: \<open>proc = p; switchuvm(p); p->state = RUNNING\<close>.\<close>

definition dispatch :: "nat \<Rightarrow> kst \<Rightarrow> unit kres" where
  "dispatch p s =
     (let s = upd_cpu (\<lambda>c. c\<lparr>cproc := Some p\<rparr>) s
      in seq (switchuvm (Some p) s) (\<lambda>s. Ok () (upd_proc p (\<lambda>q. q\<lparr>pstate := RUNNING\<rparr>) s)))"

definition swtch :: "env \<Rightarrow> nat \<Rightarrow> kst \<Rightarrow> unit kres" where
  "swtch E p s =
     (let t = E (switches s) (s\<lparr>switches := Suc (switches s)\<rparr>)
      in if p < length (ptable t) \<and> pstate (ptable t ! p) = RUNNABLE then dispatch p t
         else Asleep t)"

definition sched :: "env \<Rightarrow> kst \<Rightarrow> unit kres" where
  "sched E s =
     (if \<not> holding L_ptable s then Panic ''sched ptable.lock''
      else if ncli (thecpu s) \<noteq> 1 then Panic ''sched locks''
      else with_proc s (\<lambda>p.
        if pstate (ptable s ! p) = RUNNING then Panic ''sched running''
        else if readeflags s AND FL_IF \<noteq> 0 then Panic ''sched interruptible''
        else let i = intena (thecpu s)
             in seq (swtch E p s) (\<lambda>s. Ok () (upd_cpu (\<lambda>c. c\<lparr>intena := i\<rparr>) s))))"

definition yield :: "env \<Rightarrow> kst \<Rightarrow> unit kres" where
  "yield E s =
     seq (acquire L_ptable s) (\<lambda>s. with_proc s (\<lambda>p.
       seq (sched E (upd_proc p (\<lambda>q. q\<lparr>pstate := RUNNABLE\<rparr>) s)) (release L_ptable)))"

definition sleep :: "env \<Rightarrow> channel \<Rightarrow> lockid option \<Rightarrow> kst \<Rightarrow> unit kres" where
  "sleep E c lko s =
     (case curproc s of
        None \<Rightarrow> Panic ''sleep''
      | Some p \<Rightarrow>
          (case lko of
             None \<Rightarrow> Panic ''sleep without lk''
           | Some lk \<Rightarrow>
               seq (if lk \<noteq> L_ptable then seq (acquire L_ptable s) (release lk) else Ok () s) (\<lambda>s.
               seq (sched E (upd_proc p (\<lambda>q. q\<lparr>chan := c, pstate := SLEEPING\<rparr>) s)) (\<lambda>s.
               let s = upd_proc p (\<lambda>q. q\<lparr>chan := Chan0\<rparr>) s
               in if lk \<noteq> L_ptable then seq (release L_ptable s) (acquire lk) else Ok () s))))"

definition wakeup1 :: "channel \<Rightarrow> kst \<Rightarrow> kst" where
  "wakeup1 c s =
     s\<lparr>ptable := map (\<lambda>q. if pstate q = SLEEPING \<and> chan q = c then q\<lparr>pstate := RUNNABLE\<rparr> else q)
         (ptable s)\<rparr>"

definition wakeup :: "channel \<Rightarrow> kst \<Rightarrow> unit kres" where
  "wakeup c s = with_lock L_ptable (\<lambda>s. ((), wakeup1 c s)) s"

definition kill_body :: "int \<Rightarrow> kst \<Rightarrow> int \<times> kst" where
  "kill_body pd s =
     (case find_idx (\<lambda>q. pid q = pd) (ptable s) of
        None \<Rightarrow> (- 1, s)
      | Some i \<Rightarrow> (0, upd_proc i (\<lambda>q. let q = q\<lparr>killed := 1\<rparr>
           in if pstate q = SLEEPING then q\<lparr>pstate := RUNNABLE\<rparr> else q) s))"

definition kill :: "int \<Rightarrow> kst \<Rightarrow> int kres" where
  "kill pd s = with_lock L_ptable (kill_body pd) s"

section \<open>The scheduler loop\<close>

definition sched_slot :: "(nat \<Rightarrow> kst \<Rightarrow> kst) \<Rightarrow> nat \<Rightarrow> kst \<Rightarrow> bool kres" where
  "sched_slot run p s =
     (if pstate (ptable s ! p) \<noteq> RUNNABLE then Ok False s
      else seq (dispatch p s) (\<lambda>s.
        Ok True (upd_cpu (\<lambda>c. c\<lparr>cproc := None\<rparr>) (switchkvm (run p s)))))"

text \<open>The scan over the table; the value is the list of the processes that were run.\<close>

fun sched_scan :: "(nat \<Rightarrow> kst \<Rightarrow> kst) \<Rightarrow> nat list \<Rightarrow> kst \<Rightarrow> nat list kres" where
  "sched_scan run [] s = Ok [] s"
| "sched_scan run (p # ps) s =
     bnd (sched_slot run p s) (\<lambda>ran s.
       bnd (sched_scan run ps s) (\<lambda>qs. Ok (if ran then p # qs else qs)))"

definition scheduler_pass :: "(nat \<Rightarrow> kst \<Rightarrow> kst) \<Rightarrow> kst \<Rightarrow> nat list kres" where
  "scheduler_pass run s =
     seq (acquire L_ptable (sti s)) (\<lambda>s.
       bnd (sched_scan run [0..<NPROC] s) (\<lambda>ps s. seq (release L_ptable s) (Ok ps)))"

text \<open>The endless loop, cut after \<open>n\<close> passes.\<close>

fun scheduler :: "(nat \<Rightarrow> kst \<Rightarrow> kst) \<Rightarrow> nat \<Rightarrow> kst \<Rightarrow> nat list list kres" where
  "scheduler run 0 s = Ok [] s"
| "scheduler run (Suc n) s =
     bnd (scheduler_pass run s) (\<lambda>ps s. bnd (scheduler run n s) (\<lambda>pss. Ok (ps # pss)))"

section \<open>Waking\<close>

interpretation wk: locked_op L_ptable "\<lambda>s. ((), wakeup1 c s)"
  by unfold_locales (simp_all add: wakeup1_def)

interpretation kl: locked_op L_ptable "kill_body pd"
  by unfold_locales (simp_all add: kill_body_def upd_proc_def split: option.split)

lemma ptable_wakeup1: "ptable (wakeup1 c s) =
    map (\<lambda>q. if pstate q = SLEEPING \<and> chan q = c then q\<lparr>pstate := RUNNABLE\<rparr> else q) (ptable s)"
  by (simp add: wakeup1_def)

lemma wakeup1_frame [simp]:
  "locks (wakeup1 c s) = locks s" "cpus (wakeup1 c s) = cpus s" "mycpu (wakeup1 c s) = mycpu s"
  "length (ptable (wakeup1 c s)) = length (ptable s)" "switches (wakeup1 c s) = switches s"
  by (simp_all add: wakeup1_def)

lemma wakeup_eq:
  assumes "lock_free L_ptable s" "cpu_ok s"
  shows "wakeup c s = Ok () (leave L_ptable (wakeup1 c (enter L_ptable s)))"
  using wk.runs [OF assms] by (simp add: wakeup_def)

section \<open>Switching under the process table lock\<close>

text \<open>The state in which scheduler code runs: \<open>ptable.lock\<close> is the only lock held, interrupts
  are off, and every process that is running, runnable or sleeping has a kernel stack and a
  page directory.\<close>

definition live :: "proc \<Rightarrow> bool" where
  "live q \<longleftrightarrow> pstate q = SLEEPING \<or> pstate q = RUNNABLE \<or> pstate q = RUNNING"

definition sched_inv :: "kst \<Rightarrow> bool" where
  "sched_inv s \<longleftrightarrow> in_cs L_ptable s \<and> ncli (thecpu s) = 1 \<and> length (ptable s) = NPROC \<and>
     (\<forall>i < NPROC. live (ptable s ! i) \<longrightarrow> kstack (ptable s ! i) \<noteq> 0 \<and> pgdir (ptable s ! i) \<noteq> 0)"

text \<open>The state after a successful dispatch.\<close>

definition dispatched :: "nat \<Rightarrow> kst \<Rightarrow> kst" where
  "dispatched p s =
     (let q = ptable s ! p
      in s\<lparr>cpus := (cpus s)(mycpu s := (cpus s (mycpu s))\<lparr>cproc := Some p, ts_ss0 := 16,
             ts_esp0 := kstack q + KSTACKSIZE, ts_iomb := 0xFFFF, cr3 := V2P (pgdir q),
             eflags := eflags (cpus s (mycpu s)) AND NOT FL_IF\<rparr>),
           ptable := (ptable s)[p := q\<lparr>pstate := RUNNING\<rparr>]\<rparr>)"

lemma dispatch_Ok:
  assumes "ncli (thecpu s) = 1" "kstack (ptable s ! p) \<noteq> 0" "pgdir (ptable s ! p) \<noteq> 0"
  shows "dispatch p s = Ok () (dispatched p s)"
  using assms
  by (cases "thecpu s")
    (simp add: dispatch_def switchuvm_def dispatched_def spin_defs upd_defs Let_def)

lemma dispatched_frame [simp]:
  "mycpu (dispatched p s) = mycpu s" "locks (dispatched p s) = locks s"
  "length (ptable (dispatched p s)) = length (ptable s)"
  "q \<noteq> p \<Longrightarrow> ptable (dispatched p s) ! q = ptable s ! q"
  "ncli (cpus (dispatched p s) (mycpu s)) = ncli (thecpu s)"
  "cproc (cpus (dispatched p s) (mycpu s)) = Some p"
  "ptable (dispatched p s) = (ptable s)[p := (ptable s ! p)\<lparr>pstate := RUNNING\<rparr>]"
  by (simp_all add: dispatched_def Let_def)

lemma in_cs_dispatched: "in_cs l s \<Longrightarrow> in_cs l (dispatched p s)"
  by (simp add: in_cs_def holding_def dispatched_def Let_def)

text \<open>A change of one live process that keeps its stack and page directory keeps the invariant,
  and so does waking.\<close>

lemma sched_inv_upd:
  assumes "sched_inv s" "p < NPROC" "live (ptable s ! p)" "kstack (f (ptable s ! p)) = kstack (ptable s ! p)"
    "pgdir (f (ptable s ! p)) = pgdir (ptable s ! p)"
  shows "sched_inv (upd_proc p f s)"
  using assms by (auto simp: sched_inv_def in_cs_def holding_def upd_proc_def nth_list_update)

lemma sched_inv_wakeup1: "sched_inv s \<Longrightarrow> sched_inv (wakeup1 c s)"
  by (auto simp: sched_inv_def in_cs_def holding_def ptable_wakeup1 live_def)

lemma sched_inv_dispatched:
  assumes "sched_inv s" "p < NPROC" "live (ptable s ! p)"
  shows "sched_inv (dispatched p s)"
  using assms in_cs_dispatched [of L_ptable s p]
  by (auto simp: sched_inv_def nth_list_update)

lemma sched_inv_dispatch:
  assumes "sched_inv s" "p < NPROC" "pstate (ptable s ! p) = RUNNABLE"
  shows "dispatch p s = Ok () (dispatched p s)"
  using assms by (intro dispatch_Ok) (auto simp: sched_inv_def live_def)

section \<open>Round robin\<close>

text \<open>What the scheduler relies on from a process it runs: when the process switches back, the
  scheduler's own conditions hold again, and the process has not stopped another one that was
  runnable. Only \<open>sched\<close> itself takes a process out of the runnable state.\<close>

definition after_slot :: "(nat \<Rightarrow> kst \<Rightarrow> kst) \<Rightarrow> nat \<Rightarrow> kst \<Rightarrow> kst" where
  "after_slot run p s = upd_cpu (\<lambda>c. c\<lparr>cproc := None\<rparr>) (switchkvm (run p (dispatched p s)))"

locale well_behaved =
  fixes run :: "nat \<Rightarrow> kst \<Rightarrow> kst"
  assumes run_inv: "sched_inv s \<Longrightarrow> p < NPROC \<Longrightarrow> pstate (ptable s ! p) = RUNNING \<Longrightarrow> sched_inv (run p s)"
    and run_others: "sched_inv s \<Longrightarrow> p < NPROC \<Longrightarrow> pstate (ptable s ! p) = RUNNING \<Longrightarrow>
      q < NPROC \<Longrightarrow> q \<noteq> p \<Longrightarrow> pstate (ptable s ! q) = RUNNABLE \<Longrightarrow>
      pstate (ptable (run p s) ! q) = RUNNABLE"
begin

lemma slot_run:
  assumes "sched_inv s" "p < NPROC" "pstate (ptable s ! p) = RUNNABLE"
  shows "sched_slot run p s = Ok True (after_slot run p s)" "sched_inv (after_slot run p s)"
    "q < NPROC \<Longrightarrow> q \<noteq> p \<Longrightarrow> pstate (ptable s ! q) = RUNNABLE \<Longrightarrow>
      pstate (ptable (after_slot run p s) ! q) = RUNNABLE"
proof -
  have len: "length (ptable s) = NPROC" using assms(1) by (simp add: sched_inv_def)
  have running: "pstate (ptable (dispatched p s) ! p) = RUNNING" using len assms(2) by simp
  have inv: "sched_inv (dispatched p s)"
    using assms by (intro sched_inv_dispatched) (simp_all add: live_def)
  show "sched_slot run p s = Ok True (after_slot run p s)"
    using sched_inv_dispatch [OF assms] assms(3) by (simp add: sched_slot_def after_slot_def)
  have "sched_inv (run p (dispatched p s))" using inv assms(2) running by (rule run_inv)
  then show "sched_inv (after_slot run p s)"
    by (simp add: after_slot_def sched_inv_def in_cs_def holding_def switchkvm_def upd_defs)
  assume q: "q < NPROC" "q \<noteq> p" "pstate (ptable s ! q) = RUNNABLE"
  then show "pstate (ptable (after_slot run p s) ! q) = RUNNABLE"
    using run_others [OF inv assms(2) running q(1,2)]
    by (simp add: after_slot_def switchkvm_def upd_defs)
qed

lemma scan_spec:
  assumes "sched_inv s" "distinct ps" "set ps \<subseteq> {..<NPROC}"
  shows "\<exists>qs t. sched_scan run ps s = Ok qs t \<and> sched_inv t \<and> set qs \<subseteq> set ps \<and>
    (\<exists>f. qs = filter f ps) \<and>
    (\<forall>p \<in> set ps. pstate (ptable s ! p) = RUNNABLE \<longrightarrow> p \<in> set qs)"
  using assms
proof (induction ps arbitrary: s)
  case Nil
  then show ?case by simp
next
  case (Cons p ps)
  define ran where "ran \<longleftrightarrow> pstate (ptable s ! p) = RUNNABLE"
  define s1 where "s1 = (if ran then after_slot run p s else s)"
  have p: "p < NPROC" "p \<notin> set ps" using Cons.prems by auto
  have slot: "sched_slot run p s = Ok ran s1"
    using slot_run(1) [OF Cons.prems(1) p(1)] by (simp add: ran_def s1_def sched_slot_def)
  have inv1: "sched_inv s1"
    using slot_run(2) [OF Cons.prems(1) p(1)] Cons.prems(1) by (simp add: ran_def s1_def)
  have keep: "pstate (ptable s1 ! q) = RUNNABLE"
    if "q \<in> set ps" "pstate (ptable s ! q) = RUNNABLE" for q
    using slot_run(3) [OF Cons.prems(1) p(1), of q] that Cons.prems(3) p(2)
    by (auto simp: ran_def s1_def)
  obtain qs t f where t: "sched_scan run ps s1 = Ok qs t" "sched_inv t" "set qs \<subseteq> set ps"
    "qs = filter f ps" "\<forall>q \<in> set ps. pstate (ptable s1 ! q) = RUNNABLE \<longrightarrow> q \<in> set qs"
    using Cons.IH [OF inv1] Cons.prems by auto
  have "\<exists>g. (if ran then p # qs else qs) = filter g (p # ps)"
  proof
    show "(if ran then p # qs else qs) = filter (\<lambda>q. if q = p then ran else f q) (p # ps)"
      using p(2) t(4) by (auto intro!: filter_cong)
  qed
  moreover have "\<forall>q \<in> set (p # ps). pstate (ptable s ! q) = RUNNABLE \<longrightarrow>
      q \<in> set (if ran then p # qs else qs)"
    using t(5) keep by (auto simp: ran_def)
  ultimately show ?case using slot t(1-3) by auto
qed

end

text \<open>Two kinds of process: one that wakes a channel and yields, one that goes to sleep.\<close>

definition run_yield :: "channel \<Rightarrow> nat \<Rightarrow> kst \<Rightarrow> kst" where
  "run_yield c p s = upd_proc p (\<lambda>q. q\<lparr>pstate := RUNNABLE\<rparr>) (wakeup1 c s)"

definition run_sleep :: "channel \<Rightarrow> nat \<Rightarrow> kst \<Rightarrow> kst" where
  "run_sleep c p s = upd_proc p (\<lambda>q. q\<lparr>chan := c, pstate := SLEEPING\<rparr>) s"

interpretation ry: well_behaved "run_yield c"
proof unfold_locales
  fix s p assume *: "sched_inv s" "p < NPROC" "pstate (ptable s ! p) = RUNNING"
  then have len: "length (ptable s) = NPROC" by (simp add: sched_inv_def)
  show "sched_inv (run_yield c p s)"
    unfolding run_yield_def using * len
    by (intro sched_inv_upd sched_inv_wakeup1) (simp_all add: ptable_wakeup1 live_def)
  show "pstate (ptable (run_yield c p s) ! q) = RUNNABLE"
    if "q < NPROC" "q \<noteq> p" "pstate (ptable s ! q) = RUNNABLE" for q
    using that len by (simp add: run_yield_def upd_proc_def ptable_wakeup1)
qed

interpretation rs: well_behaved "run_sleep c"
proof unfold_locales
  fix s p assume *: "sched_inv s" "p < NPROC" "pstate (ptable s ! p) = RUNNING"
  show "sched_inv (run_sleep c p s)"
    unfolding run_sleep_def using * by (intro sched_inv_upd) (simp_all add: live_def)
  show "pstate (ptable (run_sleep c p s) ! q) = RUNNABLE"
    if "q < NPROC" "q \<noteq> p" "pstate (ptable s ! q) = RUNNABLE" for q
    using that by (simp add: run_sleep_def upd_proc_def)
qed

text \<open>The state of an idle CPU about to start a pass.\<close>

definition idle :: "kst \<Rightarrow> bool" where
  "idle s \<longleftrightarrow> lock_free L_ptable s \<and> ncli (thecpu s) = 0 \<and> length (ptable s) = NPROC \<and>
     (\<forall>i < NPROC. live (ptable s ! i) \<longrightarrow> kstack (ptable s ! i) \<noteq> 0 \<and> pgdir (ptable s ! i) \<noteq> 0)"

lemma idle_enter:
  assumes "idle s"
  shows "acquire L_ptable (sti s) = Ok () (enter L_ptable (sti s))"
    "sched_inv (enter L_ptable (sti s))"
proof -
  have "lock_free L_ptable (sti s)" "cpu_ok (sti s)"
    using assms by (simp_all add: idle_def lock_free_def cpu_ok_def sti_def upd_defs)
  then show "acquire L_ptable (sti s) = Ok () (enter L_ptable (sti s))"
    "sched_inv (enter L_ptable (sti s))"
    using assms in_cs_enter
    by (simp_all add: acquire_Ok sched_inv_def idle_def) (simp_all add: sti_def upd_defs)
qed

context well_behaved
begin

lemma pass_spec:
  assumes "idle s"
  shows "\<exists>ps t. scheduler_pass run s = Ok ps t \<and> idle t \<and> sorted ps \<and> distinct ps \<and>
    (\<forall>p < NPROC. pstate (ptable s ! p) = RUNNABLE \<longrightarrow> p \<in> set ps)"
proof -
  let ?e = "enter L_ptable (sti s)"
  have "set [0..<NPROC] \<subseteq> {..<NPROC}" by (auto simp del: upt_rec_numeral)
  from scan_spec [OF idle_enter(2) [OF assms] distinct_upt this]
  obtain qs u f where u: "sched_scan run [0..<NPROC] ?e = Ok qs u" "sched_inv u"
    "qs = filter f [0..<NPROC]" "\<forall>p \<in> set [0..<NPROC]. pstate (ptable ?e ! p) = RUNNABLE \<longrightarrow> p \<in> set qs"
    by (elim exE conjE)
  have "release L_ptable u = Ok () (leave L_ptable u)" "idle (leave L_ptable u)"
    using u(2) by (simp_all add: release_Ok sched_inv_def idle_def)
  moreover have "sorted qs" "distinct qs" unfolding u(3) by (simp_all add: sorted_wrt_filter)
  moreover have "ptable ?e = ptable s" by (simp add: sti_def upd_defs)
  ultimately show ?thesis using u idle_enter(1) [OF assms]
    by (auto simp: scheduler_pass_def simp del: upt_rec_numeral)
qed

text \<open>Any number of passes: every one of them runs each process that is runnable at its start.\<close>

lemma scheduler_returns:
  assumes "idle s"
  shows "\<exists>pss t. scheduler run n s = Ok pss t \<and> idle t \<and> length pss = n \<and>
    (\<forall>ps \<in> set pss. sorted ps \<and> distinct ps)"
  using assms
proof (induction n arbitrary: s)
  case 0
  then show ?case by simp
next
  case (Suc n)
  obtain ps t where t: "scheduler_pass run s = Ok ps t" "idle t" "sorted ps" "distinct ps"
    using pass_spec [OF Suc.prems] by auto
  obtain pss u where "scheduler run n t = Ok pss u" "idle u" "length pss = n"
    "\<forall>ps \<in> set pss. sorted ps \<and> distinct ps"
    using Suc.IH [OF t(2)] by auto
  then show ?case using t by auto
qed

end

section \<open>Sleeping and waking\<close>

text \<open>The state that \<open>sleep\<close> hands to the rest of the machine.\<close>

definition asleep_state :: "nat \<Rightarrow> channel \<Rightarrow> lockid \<Rightarrow> kst \<Rightarrow> kst" where
  "asleep_state p c lk s =
     (upd_proc p (\<lambda>q. q\<lparr>chan := c, pstate := SLEEPING\<rparr>) (leave lk (enter L_ptable s)))
       \<lparr>switches := Suc (switches s)\<rparr>"

text \<open>A process in the kernel that holds exactly one spin lock, not the process table lock.\<close>

definition may_sleep :: "nat \<Rightarrow> lockid \<Rightarrow> kst \<Rightarrow> bool" where
  "may_sleep p lk s \<longleftrightarrow> curproc s = Some p \<and> p < NPROC \<and> length (ptable s) = NPROC \<and>
     live (ptable s ! p) \<and> lk \<noteq> L_ptable \<and> in_cs lk s \<and> ncli (thecpu s) = 1 \<and>
     lock_free L_ptable s \<and>
     (\<forall>i < NPROC. live (ptable s ! i) \<longrightarrow> kstack (ptable s ! i) \<noteq> 0 \<and> pgdir (ptable s ! i) \<noteq> 0)"

lemma may_sleep_locks:
  assumes "may_sleep p lk s"
  shows "acquire L_ptable s = Ok () (enter L_ptable s)"
    "release lk (enter L_ptable s) = Ok () (leave lk (enter L_ptable s))"
    "in_cs L_ptable (leave lk (enter L_ptable s))"
    "ncli (cpus (leave lk (enter L_ptable s)) (mycpu s)) = 1"
proof -
  have "cpu_ok s" using assms by (simp add: may_sleep_def cpu_ok_def in_cs_def)
  then have e: "in_cs L_ptable (enter L_ptable s)" by (rule in_cs_enter)
  show "acquire L_ptable s = Ok () (enter L_ptable s)"
    using assms by (simp add: may_sleep_def acquire_Ok)
  have "holding lk (enter L_ptable s)"
    using assms by (simp add: may_sleep_def in_cs_def holding_def)
  then have "in_cs lk (enter L_ptable s)" using e by (simp add: in_cs_def)
  then show "release lk (enter L_ptable s) = Ok () (leave lk (enter L_ptable s))"
    by (rule release_Ok)
  have n: "ncli (thecpu (enter L_ptable s)) = 2" using assms by (simp add: may_sleep_def)
  then show "ncli (cpus (leave lk (enter L_ptable s)) (mycpu s)) = 1" by simp
  show "in_cs L_ptable (leave lk (enter L_ptable s))"
    using e n assms
    by (auto simp: in_cs_def holding_def may_sleep_def leave_def clear_holder_def free_word_def
        upd_defs Let_def)
qed

lemma asleep_state_props:
  assumes "may_sleep p lk s"
  shows "sched_inv (asleep_state p c lk s)" "pstate (ptable (asleep_state p c lk s) ! p) = SLEEPING"
    "chan (ptable (asleep_state p c lk s) ! p) = c" "lock_free lk (asleep_state p c lk s)"
proof -
  have "p < length (ptable s)" using assms by (simp add: may_sleep_def)
  then show "pstate (ptable (asleep_state p c lk s) ! p) = SLEEPING"
    "chan (ptable (asleep_state p c lk s) ! p) = c"
    by (simp_all add: asleep_state_def upd_proc_def)
  show "lock_free lk (asleep_state p c lk s)"
    using lock_free_leave [of lk "enter L_ptable s"]
    by (simp add: asleep_state_def upd_proc_def lock_free_def)
  show "sched_inv (asleep_state p c lk s)"
    using may_sleep_locks(3,4) [OF assms] assms
    by (auto simp: asleep_state_def upd_proc_def sched_inv_def in_cs_def holding_def
        may_sleep_def nth_list_update)
qed

lemma sleep_eq:
  assumes "may_sleep p lk s"
  shows "sleep E c (Some lk) s =
    (let u = E (switches s) (asleep_state p c lk s)
     in if p < length (ptable u) \<and> pstate (ptable u ! p) = RUNNABLE
        then seq (dispatch p u) (\<lambda>t.
          seq (release L_ptable (upd_proc p (\<lambda>q. q\<lparr>chan := Chan0\<rparr>)
            (upd_cpu (\<lambda>k. k\<lparr>intena := intena (cpus (leave lk (enter L_ptable s)) (mycpu s))\<rparr>) t)))
            (acquire lk))
        else Asleep u)"
proof -
  let ?l = "leave lk (enter L_ptable s)"
  let ?a = "upd_proc p (\<lambda>q. q\<lparr>chan := c, pstate := SLEEPING\<rparr>) ?l"
  have p: "curproc s = Some p" "p < length (ptable s)" "lk \<noteq> L_ptable"
    using assms by (simp_all add: may_sleep_def)
  note locks = may_sleep_locks [OF assms]
  have "in_cs L_ptable ?a" using locks(3) by (simp add: in_cs_def holding_def upd_proc_def)
  moreover have "ncli (thecpu ?a) = 1" "curproc ?a = Some p" "intena (thecpu ?a) = intena (cpus ?l (mycpu s))"
    "pstate (ptable ?a ! p) = SLEEPING" "switches ?a = switches s"
    using locks(4) p by (simp_all add: upd_proc_def)
  ultimately have "sched E ?a =
      seq (swtch E p ?a) (\<lambda>t. Ok () (upd_cpu (\<lambda>k. k\<lparr>intena := intena (cpus ?l (mycpu s))\<rparr>) t))"
    by (simp add: sched_def with_proc_def in_cs_def readeflags_def Let_def)
  moreover have "swtch E p ?a =
      (let u = E (switches s) (asleep_state p c lk s)
       in if p < length (ptable u) \<and> pstate (ptable u ! p) = RUNNABLE then dispatch p u else Asleep u)"
    by (simp add: swtch_def asleep_state_def upd_proc_def)
  ultimately show ?thesis
    using p locks(1,2) by (simp add: sleep_def Let_def outcome_simps)
qed

text \<open>What a sleeper relies on: given a state where it sleeps on its channel and its lock is free,
  the rest of the machine eventually wakes it and gives the lock back.\<close>

locale waker =
  fixes E :: env and p :: nat and c :: channel and lk :: lockid
  assumes wakes: "sched_inv a \<Longrightarrow> p < NPROC \<Longrightarrow> pstate (ptable a ! p) = SLEEPING \<Longrightarrow>
    chan (ptable a ! p) = c \<Longrightarrow> lock_free lk a \<Longrightarrow>
    sched_inv (E n a) \<and> pstate (ptable (E n a) ! p) = RUNNABLE \<and> lock_free lk (E n a)"
begin

lemma sleep_returns:
  assumes "may_sleep p lk s"
  shows "\<exists>t. sleep E c (Some lk) s = Ok () t \<and> in_cs lk t \<and> ncli (thecpu t) = 1 \<and>
    lock_free L_ptable t \<and> curproc t = Some p \<and> pstate (ptable t ! p) = RUNNING \<and>
    chan (ptable t ! p) = Chan0"
proof -
  define u where "u = E (switches s) (asleep_state p c lk s)"
  define i where "i = intena (cpus (leave lk (enter L_ptable s)) (mycpu s))"
  define v where "v = upd_proc p (\<lambda>q. q\<lparr>chan := Chan0\<rparr>) (upd_cpu (\<lambda>k. k\<lparr>intena := i\<rparr>) (dispatched p u))"
  have p: "p < NPROC" "lk \<noteq> L_ptable" using assms by (simp_all add: may_sleep_def)
  have u: "sched_inv u" "pstate (ptable u ! p) = RUNNABLE" "lock_free lk u"
    using wakes [OF asleep_state_props(1) [OF assms] p(1) asleep_state_props(2-4) [OF assms]]
    by (simp_all add: u_def)
  then have len: "length (ptable u) = NPROC" by (simp add: sched_inv_def)
  have "sched_inv (dispatched p u)"
    using u p by (intro sched_inv_dispatched) (simp_all add: live_def)
  then have v: "in_cs L_ptable v" "ncli (thecpu v) = 1" "curproc v = Some p"
    "pstate (ptable v ! p) = RUNNING" "chan (ptable v ! p) = Chan0" "lock_free lk v"
    using len p u(3)
    by (auto simp: v_def sched_inv_def in_cs_def holding_def upd_defs lock_free_def)
  have "sleep E c (Some lk) s = seq (release L_ptable v) (acquire lk)"
    using sleep_eq [OF assms, of E c] sched_inv_dispatch [OF u(1) p(1) u(2)] u(2) len p(1)
    unfolding u_def [symmetric] i_def [symmetric] by (simp add: v_def)
  also have "\<dots> = Ok () (enter lk (leave L_ptable v))"
    using v(1,6) p(2) by (simp add: release_Ok acquire_Ok)
  finally have run: "sleep E c (Some lk) s = Ok () (enter lk (leave L_ptable v))" .
  have "cpu_ok (leave L_ptable v)" using v(2) by (simp add: cpu_ok_def)
  then have "in_cs lk (enter lk (leave L_ptable v))" by (rule in_cs_enter)
  then show ?thesis using run v p(2) by simp
qed

end

interpretation wake_once: waker "\<lambda>n. wakeup1 c" p c lk
proof unfold_locales
  fix a :: kst and n :: nat
  assume "sched_inv a" "p < NPROC" "pstate (ptable a ! p) = SLEEPING" "chan (ptable a ! p) = c"
    "lock_free lk a"
  moreover from this(1) have "length (ptable a) = NPROC" by (simp add: sched_inv_def)
  ultimately show "sched_inv (wakeup1 c a) \<and> pstate (ptable (wakeup1 c a) ! p) = RUNNABLE \<and>
      lock_free lk (wakeup1 c a)"
    using sched_inv_wakeup1 by (simp add: ptable_wakeup1 lock_free_def)
qed

section \<open>Properties\<close>

text \<open>A process table with one process, pid 7, to evaluate the properties on.\<close>

definition demo :: "procstate \<Rightarrow> kst" where
  "demo st = kst0\<lparr>ptable := (replicate NPROC proc0)
     [0 := proc0\<lparr>pstate := st, pid := 7, kstack := 0x80400000, pgdir := 0x80401000\<rparr>]\<rparr>"

text \<open>C17: the scheduler is fair. If every process that is switched to comes back with the
  scheduler's conditions intact and without having stopped another runnable process, then one
  pass over the process table returns, with \<open>ptable.lock\<close> free again, and runs every process that was
  runnable at its start exactly once, in table order.\<close>

theorem scheduler_round_robin:
  assumes "\<And>s p. sched_inv s \<Longrightarrow> p < NPROC \<Longrightarrow> pstate (ptable s ! p) = RUNNING \<Longrightarrow> sched_inv (run p s)"
    and "\<And>s p q. sched_inv s \<Longrightarrow> p < NPROC \<Longrightarrow> pstate (ptable s ! p) = RUNNING \<Longrightarrow>
      q < NPROC \<Longrightarrow> q \<noteq> p \<Longrightarrow> pstate (ptable s ! q) = RUNNABLE \<Longrightarrow>
      pstate (ptable (run p s) ! q) = RUNNABLE"
    and "idle s"
  shows "\<exists>ps t. scheduler_pass run s = Ok ps t \<and> idle t \<and> sorted ps \<and> distinct ps \<and>
    (\<forall>p < NPROC. pstate (ptable s ! p) = RUNNABLE \<longrightarrow> p \<in> set ps)"
proof -
  have "well_behaved run" by unfold_locales (fact assms(1,2))+
  then show ?thesis using assms(3) by (rule well_behaved.pass_spec)
qed

theorem scheduler_round_robin_witness:
  "idle (demo RUNNABLE) \<and>
   (\<exists>ps t. scheduler_pass (run_yield Chan0) (demo RUNNABLE) = Ok ps t \<and> 0 \<in> set ps)"
proof -
  have idle: "idle (demo RUNNABLE)"
    by (auto simp: idle_def demo_def lock_free_def kst0_def spin0_def cpu0_def live_def proc0_def
        nth_list_update)
  have "pstate (ptable (demo RUNNABLE) ! 0) = RUNNABLE" by (simp add: demo_def kst0_def)
  moreover have "\<exists>ps t. scheduler_pass (run_yield Chan0) (demo RUNNABLE) = Ok ps t \<and> idle t \<and> sorted ps \<and>
    distinct ps \<and> (\<forall>p < NPROC. pstate (ptable (demo RUNNABLE) ! p) = RUNNABLE \<longrightarrow> p \<in> set ps)"
    by (rule scheduler_round_robin) (fact ry.run_inv ry.run_others idle)+
  ultimately show ?thesis using idle by auto
qed



text \<open>C26: \<open>kill\<close> marks the first process with the given pid, makes it runnable if it sleeps, and
  changes nothing else in the process table; without such a process it returns \<open>-1\<close> and leaves
  the table alone. In both cases \<open>ptable.lock\<close> is free afterwards.\<close>

theorem kill_marks_and_wakes:
  assumes "lock_free L_ptable s" and "cpu_ok s"
  shows "\<exists>r t. kill pd s = Ok r t \<and> lock_free L_ptable t \<and>
    length (ptable t) = length (ptable s) \<and>
    (case find_idx (\<lambda>q. pid q = pd) (ptable s) of
       None \<Rightarrow> r = - 1 \<and> ptable t = ptable s
     | Some i \<Rightarrow> r = 0 \<and> killed (ptable t ! i) = 1 \<and>
         pstate (ptable t ! i) = (if pstate (ptable s ! i) = SLEEPING then RUNNABLE else pstate (ptable s ! i)) \<and>
         (\<forall>j. j \<noteq> i \<longrightarrow> ptable t ! j = ptable s ! j))"
proof (cases "find_idx (\<lambda>q. pid q = pd) (ptable s)")
  case None
  then show ?thesis by (simp add: kill_def kl.runs [OF assms] kill_body_def None)
next
  case (Some i)
  show ?thesis using find_idx_bound [OF Some]
    by (simp add: kill_def kl.runs [OF assms] kill_body_def Some upd_proc_def Let_def)
qed

theorem kill_marks_and_wakes_witness:
  "\<exists>t. kill 7 (demo SLEEPING) = Ok 0 t \<and> killed (ptable t ! 0) = 1 \<and> pstate (ptable t ! 0) = RUNNABLE"
proof -
  have "lock_free L_ptable (demo SLEEPING)" "cpu_ok (demo SLEEPING)"
    by (simp_all add: demo_def kst0_def spin0_def cpu0_def lock_free_def cpu_ok_def)
  moreover have "find_idx (\<lambda>q. pid q = 7) (ptable (demo SLEEPING)) = Some 0"
    by (simp add: demo_def kst0_def find_idx_Some nth_list_update)
  moreover have "pstate (ptable (demo SLEEPING) ! 0) = SLEEPING" by (simp add: demo_def kst0_def)
  ultimately show ?thesis using kill_marks_and_wakes [of "demo SLEEPING" 7] by auto
qed

end
