(* ===== verification/Mmu.thy ===== *)
theory Mmu
  imports Sched
begin

unbundle bit_operations_syntax

text \<open>
  Address translation: the macros of mmu.h and the walk the processor makes through the page
  directory in \<open>cr3\<close> when the kernel dereferences a user pointer. Page tables lie in the
  kernel's memory, so a store through a user pointer can in principle change them; \<open>ublock\<close>
  says when a block of user addresses is mapped, writable and away from the tables it is
  mapped by, and the lemmas below give the effect of stores and loads on such a block.
\<close>

section \<open>Macros of mmu.h\<close>

abbreviation PTE_P :: u32 where "PTE_P \<equiv> 1"
abbreviation PTE_W :: u32 where "PTE_W \<equiv> 2"
abbreviation PTE_U :: u32 where "PTE_U \<equiv> 4"

definition PDX :: "u32 \<Rightarrow> u32" where
  "PDX va = drop_bit 22 va AND 0x3FF"

definition PTX :: "u32 \<Rightarrow> u32" where
  "PTX va = drop_bit 12 va AND 0x3FF"

definition PGADDR :: "u32 \<Rightarrow> u32 \<Rightarrow> u32 \<Rightarrow> u32" where
  "PGADDR d t off = push_bit 22 d OR push_bit 12 t OR off"

definition PTE_ADDR :: "u32 \<Rightarrow> u32" where
  "PTE_ADDR pte = pte AND NOT 0xFFF"

definition PTE_FLAGS :: "u32 \<Rightarrow> u32" where
  "PTE_FLAGS pte = pte AND 0xFFF"

section \<open>Translation\<close>

text \<open>The entries consulted for \<open>va\<close>: \<open>pgdir[PDX(va)]\<close> and \<open>pgtab[PTX(va)]\<close>. With \<open>CR0_WP\<close> set
  a store by the kernel needs both to be writable. A physical address is used at its kernel
  virtual address.\<close>

definition pde_at :: "u32 \<Rightarrow> u32 \<Rightarrow> u32" where
  "pde_at pd va = pd + 4 * PDX va"

definition pte_at :: "memory \<Rightarrow> u32 \<Rightarrow> u32 \<Rightarrow> u32" where
  "pte_at m pd va = P2V (PTE_ADDR (load32 m (pde_at pd va))) + 4 * PTX va"

definition translate :: "memory \<Rightarrow> u32 \<Rightarrow> bool \<Rightarrow> u32 \<Rightarrow> u32 option" where
  "translate m pd wr va =
     (let pde = load32 m (pde_at pd va); pte = load32 m (pte_at m pd va)
      in if pde AND PTE_P = 0 \<or> wr \<and> pde AND PTE_W = 0 then None
         else if pte AND PTE_P = 0 \<or> wr \<and> pte AND PTE_W = 0 then None
         else Some (P2V (PTE_ADDR pte) + (va AND 0xFFF)))"

section \<open>Access through user pointers\<close>

fun ustore :: "memory \<Rightarrow> u32 \<Rightarrow> u32 \<Rightarrow> u8 list \<Rightarrow> memory option" where
  "ustore m pd va [] = Some m"
| "ustore m pd va (b # bs) =
     (case translate m pd True va of None \<Rightarrow> None | Some k \<Rightarrow> ustore (m(k := b)) pd (va + 1) bs)"

fun uload :: "memory \<Rightarrow> u32 \<Rightarrow> u32 \<Rightarrow> nat \<Rightarrow> u8 list option" where
  "uload m pd va 0 = Some []"
| "uload m pd va (Suc n) =
     (case translate m pd False va of
        None \<Rightarrow> None
      | Some k \<Rightarrow> map_option (\<lambda>bs. m k # bs) (uload m pd (va + 1) n))"

text \<open>In the kernel a page fault ends in the \<open>panic("trap")\<close> of trap.c.\<close>

abbreviation cur_pgdir :: "kst \<Rightarrow> u32" where
  "cur_pgdir s \<equiv> P2V (cr3 (thecpu s))"

definition uwrite :: "u32 \<Rightarrow> u8 list \<Rightarrow> kst \<Rightarrow> unit kres" where
  "uwrite va bs s =
     (case ustore (mem s) (cur_pgdir s) va bs of None \<Rightarrow> Panic ''trap'' | Some m \<Rightarrow> Ok () (s\<lparr>mem := m\<rparr>))"

definition uread :: "u32 \<Rightarrow> nat \<Rightarrow> kst \<Rightarrow> u8 list kres" where
  "uread va n s =
     (case uload (mem s) (cur_pgdir s) va n of None \<Rightarrow> Panic ''trap'' | Some bs \<Rightarrow> Ok bs s)"

section \<open>Blocks of user memory\<close>

text \<open>The bytes of the page tables that the translation of \<open>va\<close> reads.\<close>

definition walk_reads :: "memory \<Rightarrow> u32 \<Rightarrow> u32 \<Rightarrow> u32 set" where
  "walk_reads m pd va =
     (\<lambda>i. pde_at pd va + of_nat i) ` {..<4} \<union> (\<lambda>i. pte_at m pd va + of_nat i) ` {..<4}"

definition uaddr :: "memory \<Rightarrow> u32 \<Rightarrow> u32 \<Rightarrow> nat \<Rightarrow> u32" where
  "uaddr m pd va i = the (translate m pd True (va + of_nat i))"

definition ublock :: "memory \<Rightarrow> u32 \<Rightarrow> u32 \<Rightarrow> nat \<Rightarrow> bool" where
  "ublock m pd va n \<longleftrightarrow>
     (\<forall>i < n. translate m pd True (va + of_nat i) \<noteq> None) \<and>
     (\<forall>i < n. \<forall>j < n. uaddr m pd va i \<notin> walk_reads m pd (va + of_nat j)) \<and>
     (\<forall>i < n. \<forall>j < n. uaddr m pd va i = uaddr m pd va j \<longrightarrow> i = j)"

definition ubytes :: "memory \<Rightarrow> u32 \<Rightarrow> u32 \<Rightarrow> nat \<Rightarrow> u8 list" where
  "ubytes m pd va n = map (\<lambda>i. m (uaddr m pd va i)) [0..<n]"

lemma length_ubytes [simp]: "length (ubytes m pd va n) = n"
  by (simp add: ubytes_def)

lemma translate_upd:
  assumes "k \<notin> walk_reads m pd va"
  shows "translate (m(k := b)) pd w va = translate m pd w va"
    "walk_reads (m(k := b)) pd va = walk_reads m pd va"
proof -
  have 1: "load32 (m(k := b)) (pde_at pd va) = load32 m (pde_at pd va)"
    using assms by (intro load32_cong) (auto simp: walk_reads_def)
  then have 2: "pte_at (m(k := b)) pd va = pte_at m pd va" by (simp add: pte_at_def)
  then have 3: "load32 (m(k := b)) (pte_at m pd va) = load32 m (pte_at m pd va)"
    using assms by (intro load32_cong) (auto simp: walk_reads_def)
  show "translate (m(k := b)) pd w va = translate m pd w va"
    by (simp add: translate_def 1 2 3)
  show "walk_reads (m(k := b)) pd va = walk_reads m pd va"
    by (simp add: walk_reads_def 2)
qed

lemma translate_read: "translate m pd True va = Some k \<Longrightarrow> translate m pd w va = Some k"
  by (auto simp: translate_def Let_def split: if_splits)

lemma ublockD:
  assumes "ublock m pd va n" "i < n"
  shows "translate m pd w (va + of_nat i) = Some (uaddr m pd va i)"
  using assms by (auto simp: ublock_def uaddr_def intro!: translate_read)

text \<open>One byte.\<close>

lemma ublock_upd:
  fixes b :: u8
  assumes "ublock m pd va n" "k < n"
  defines "m' \<equiv> m(uaddr m pd va k := b)"
  shows "i < n \<Longrightarrow> uaddr m' pd va i = uaddr m pd va i" "ublock m' pd va n"
    "ubytes m' pd va n = (ubytes m pd va n)[k := b]"
proof -
  have w: "uaddr m pd va k \<notin> walk_reads m pd (va + of_nat i)" if "i < n" for i
    using assms(1,2) that by (simp add: ublock_def)
  have a: "uaddr m' pd va i = uaddr m pd va i" if "i < n" for i
    using translate_upd(1) [OF w [OF that]] by (simp add: uaddr_def m'_def)
  then show "i < n \<Longrightarrow> uaddr m' pd va i = uaddr m pd va i" .
  have "translate m' pd True (va + of_nat i) \<noteq> None" if "i < n" for i
    using translate_upd(1) [OF w [OF that]] assms(1) that by (simp add: ublock_def m'_def)
  moreover have "walk_reads m' pd (va + of_nat j) = walk_reads m pd (va + of_nat j)" if "j < n" for j
    using translate_upd(2) [OF w [OF that]] by (simp add: m'_def)
  ultimately show "ublock m' pd va n" using assms(1) a unfolding ublock_def by simp
  have inj: "uaddr m pd va i = uaddr m pd va k \<longleftrightarrow> i = k" if "i < n" for i
    using assms(1,2) that by (auto simp: ublock_def)
  show "ubytes m' pd va n = (ubytes m pd va n)[k := b]"
  proof (rule nth_equalityI)
    fix i assume "i < length (ubytes m' pd va n)"
    then have i: "i < n" by simp
    have "ubytes m' pd va n ! i = m' (uaddr m pd va i)" using i by (simp add: ubytes_def a)
    also have "\<dots> = (ubytes m pd va n)[k := b] ! i"
      using i inj [OF i] assms(2) by (simp add: m'_def ubytes_def nth_list_update)
    finally show "ubytes m' pd va n ! i = (ubytes m pd va n)[k := b] ! i" .
  qed simp
qed

text \<open>A store at offset \<open>k\<close> of a block replaces this part of the block and nothing else.\<close>

lemma ustore_block:
  assumes "ublock m pd va n" "k + length bs \<le> n"
  shows "\<exists>m'. ustore m pd (va + of_nat k) bs = Some m' \<and> ublock m' pd va n \<and>
    ubytes m' pd va n = take k (ubytes m pd va n) @ bs @ drop (k + length bs) (ubytes m pd va n) \<and>
    (\<forall>i < n. uaddr m' pd va i = uaddr m pd va i) \<and>
    (\<forall>x. x \<notin> uaddr m pd va ` {..<n} \<longrightarrow> m' x = m x)"
  using assms
proof (induction bs arbitrary: m k)
  case Nil
  then show ?case by simp
next
  case (Cons b bs)
  let ?m = "m(uaddr m pd va k := b)"
  have k: "k < n" and pre: "Suc k + length bs \<le> n" using Cons.prems by simp_all
  note u = ublock_upd [OF Cons.prems(1) k, where b = b]
  obtain m' where m': "ustore ?m pd (va + of_nat (Suc k)) bs = Some m'" "ublock m' pd va n"
    "ubytes m' pd va n = take (Suc k) (ubytes ?m pd va n) @ bs @ drop (Suc k + length bs) (ubytes ?m pd va n)"
    "\<forall>i < n. uaddr m' pd va i = uaddr ?m pd va i"
    "\<forall>x. x \<notin> uaddr ?m pd va ` {..<n} \<longrightarrow> m' x = ?m x"
    using Cons.IH [OF u(2) pre] by (elim exE conjE)
  have img: "uaddr ?m pd va ` {..<n} = uaddr m pd va ` {..<n}" using u(1) by auto
  have "ustore m pd (va + of_nat k) (b # bs) = Some m'"
    using m'(1) ublockD [OF Cons.prems(1) k, of True] by (simp add: ac_simps)
  moreover have "ubytes m' pd va n = take k (ubytes m pd va n) @ (b # bs) @ drop (k + length (b # bs)) (ubytes m pd va n)"
    using k by (simp add: m'(3) u(3) take_Suc_conv_app_nth)
  moreover have "\<forall>x. x \<notin> uaddr m pd va ` {..<n} \<longrightarrow> m' x = m x"
    using m'(5) k unfolding img by auto
  ultimately show ?case using m'(2,4) u(1) by (intro exI [of _ m']) simp
qed

lemma uload_block:
  assumes "ublock m pd va n" "k + c \<le> n"
  shows "uload m pd (va + of_nat k) c = Some (take c (drop k (ubytes m pd va n)))"
  using assms
proof (induction c arbitrary: k)
  case 0
  then show ?case by simp
next
  case (Suc c)
  have k: "k < n" using Suc.prems by simp
  have "uload m pd (va + of_nat (Suc k)) c = Some (take c (drop (Suc k) (ubytes m pd va n)))"
    using Suc.prems by (intro Suc.IH) simp_all
  moreover have "drop k (ubytes m pd va n) = m (uaddr m pd va k) # drop (Suc k) (ubytes m pd va n)"
    using k Cons_nth_drop_Suc [of k "ubytes m pd va n"] by (simp add: ubytes_def)
  ultimately show ?case
    using ublockD [OF Suc.prems(1) k, of False] by (simp add: ac_simps)
qed

section \<open>Blocks inside one page\<close>

lemma same_page:
  assumes "unat va mod 4096 + i < 4096"
  shows "unat (va + of_nat i :: u32) = unat va + i"
    "drop_bit 12 (va + of_nat i) = drop_bit 12 va"
    "(va + of_nat i) AND 0xFFF = (va AND 0xFFF) + of_nat i"
    "unat ((va AND 0xFFF) + of_nat i) = unat va mod 4096 + i"
proof -
  define q where "q = unat va div 4096"
  have va: "unat va = 4096 * q + unat va mod 4096" by (simp add: q_def)
  have "q < 1048576" using unat_lt32 [of va] by (simp add: q_def less_mult_imp_div_less)
  then have lt: "unat va + i < 2 ^ 32" using assms va by simp
  then have i: "unat (of_nat i :: u32) = i" by (intro unat_of_nat32) simp
  then show u: "unat (va + of_nat i) = unat va + i" using lt by (simp add: unat_add_u32)
  have d: "unat (drop_bit 12 x) = unat x div 4096" for x :: u32
    by (simp add: drop_bit_eq_div unat_div)
  have split: "unat va + i = 4096 * q + (unat va mod 4096 + i)" using va by simp
  have "(unat va + i) div 4096 = q" unfolding split using assms by simp
  then have "(unat va + i) div 4096 = unat va div 4096" by (simp only: q_def)
  then show "drop_bit 12 (va + of_nat i) = drop_bit 12 va"
    by (intro word_unat_eq_iff [THEN iffD2]) (simp only: d u)
  have mask: "(0xFFF :: u32) = mask 12" by (simp add: mask_eq_exp_minus_1)
  have m: "unat (x AND 0xFFF) = unat x mod 4096" for x :: u32
    unfolding mask take_bit_eq_mask [symmetric] by (simp add: take_bit_eq_mod unat_mod)
  show r: "unat ((va AND 0xFFF) + of_nat i) = unat va mod 4096 + i"
    using assms m [of va] i unat_add_u32 [of "va AND 0xFFF" "of_nat i"] by simp
  have "(unat va + i) mod 4096 = unat va mod 4096 + i"
    unfolding split using assms by simp
  then show "(va + of_nat i) AND 0xFFF = (va AND 0xFFF) + of_nat i"
    by (intro word_unat_eq_iff [THEN iffD2]) (simp only: m u r)
qed

lemma PDX_PTX_same_page:
  assumes "unat va mod 4096 + i < 4096"
  shows "PDX (va + of_nat i) = PDX va" "PTX (va + of_nat i) = PTX va"
proof -
  have "drop_bit 22 x = drop_bit 10 (drop_bit 12 x)" for x :: u32 by simp
  then show "PDX (va + of_nat i) = PDX va" "PTX (va + of_nat i) = PTX va"
    by (simp_all only: PDX_def PTX_def same_page(2) [OF assms])
qed

lemma ublock_page:
  assumes "translate m pd True va \<noteq> None" "unat va mod 4096 + n \<le> 4096"
    and d: "d = P2V (PTE_ADDR (load32 m (pte_at m pd va)))"
    and apart: "\<forall>i < 4. \<not> in_block d 4096 (pde_at pd va + of_nat i) \<and>
      \<not> in_block d 4096 (pte_at m pd va + of_nat i)"
  shows "ublock m pd va n"
proof -
  have same: "unat va mod 4096 + i < 4096" if "i < n" for i using assms(2) that by simp
  have at: "pde_at pd (va + of_nat i) = pde_at pd va" "pte_at m pd (va + of_nat i) = pte_at m pd va"
    if "i < n" for i
    using PDX_PTX_same_page [OF same [OF that]] by (simp_all add: pde_at_def pte_at_def)
  have tr: "translate m pd True (va + of_nat i) = Some (d + ((va AND 0xFFF) + of_nat i))" if "i < n" for i
    using assms(1) same_page(3) [OF same [OF that]]
    by (auto simp: translate_def Let_def at [OF that] d split: if_splits)
  then have a: "uaddr m pd va i = d + ((va AND 0xFFF) + of_nat i)" if "i < n" for i
    using that by (simp add: uaddr_def)
  have in_d: "in_block d 4096 (uaddr m pd va i)" if "i < n" for i
    using same_page(4) [OF same [OF that]] same [OF that] by (simp add: a [OF that] in_block_def)
  have "uaddr m pd va i \<notin> walk_reads m pd (va + of_nat j)" if "i < n" "j < n" for i j
    using apart in_d [OF that(1)] by (auto simp: walk_reads_def at [OF that(2)])
  moreover have "i = j" if "i < n" "j < n" "uaddr m pd va i = uaddr m pd va j" for i j
  proof -
    have "unat ((va AND 0xFFF) + of_nat i) = unat ((va AND 0xFFF) + of_nat j)"
      using that(3) by (simp add: a that(1,2))
    then show ?thesis using same_page(4) [OF same] that(1,2) by simp
  qed
  ultimately show ?thesis using tr by (auto simp: ublock_def)
qed

end
