(* ===== verification/Signals.thy ===== *)
theory Signals
  imports Mmu
begin

unbundle bit_operations_syntax

text \<open>
  Signals and the alarm (proc.c, first part): registering a handler, sending, choosing the
  signal to deliver on the way back to user mode, building the handler's frame on the user
  stack, and \<open>sigreturn\<close>, which restores the interrupted context from it.
\<close>

section \<open>The trap frame in memory\<close>

definition tf_bytes :: "trapframe \<Rightarrow> u8 list" where
  "tf_bytes t =
     bytes32 (tf_edi t) @ bytes32 (tf_esi t) @ bytes32 (tf_ebp t) @ bytes32 (tf_oesp t) @
     bytes32 (tf_ebx t) @ bytes32 (tf_edx t) @ bytes32 (tf_ecx t) @ bytes32 (tf_eax t) @
     bytes16 (tf_gs t) @ bytes16 (tf_padding1 t) @ bytes16 (tf_fs t) @ bytes16 (tf_padding2 t) @
     bytes16 (tf_es t) @ bytes16 (tf_padding3 t) @ bytes16 (tf_ds t) @ bytes16 (tf_padding4 t) @
     bytes32 (tf_trapno t) @ bytes32 (tf_err t) @ bytes32 (tf_eip t) @
     bytes16 (tf_cs t) @ bytes16 (tf_padding5 t) @ bytes32 (tf_eflags t) @ bytes32 (tf_esp t) @
     bytes16 (tf_ss t) @ bytes16 (tf_padding6 t)"

definition bytes_tf :: "u8 list \<Rightarrow> trapframe" where
  "bytes_tf bs = \<lparr>tf_edi = word32 bs, tf_esi = word32 (drop 4 bs), tf_ebp = word32 (drop 8 bs),
     tf_oesp = word32 (drop 12 bs), tf_ebx = word32 (drop 16 bs), tf_edx = word32 (drop 20 bs),
     tf_ecx = word32 (drop 24 bs), tf_eax = word32 (drop 28 bs), tf_gs = word16 (drop 32 bs),
     tf_padding1 = word16 (drop 34 bs), tf_fs = word16 (drop 36 bs),
     tf_padding2 = word16 (drop 38 bs), tf_es = word16 (drop 40 bs),
     tf_padding3 = word16 (drop 42 bs), tf_ds = word16 (drop 44 bs),
     tf_padding4 = word16 (drop 46 bs), tf_trapno = word32 (drop 48 bs),
     tf_err = word32 (drop 52 bs), tf_eip = word32 (drop 56 bs), tf_cs = word16 (drop 60 bs),
     tf_padding5 = word16 (drop 62 bs), tf_eflags = word32 (drop 64 bs),
     tf_esp = word32 (drop 68 bs), tf_ss = word16 (drop 72 bs),
     tf_padding6 = word16 (drop 74 bs)\<rparr>"

lemma length_tf_bytes [simp]: "length (tf_bytes t) = 76"
  by (simp add: tf_bytes_def)

lemma bytes_tf_bytes [simp]: "bytes_tf (tf_bytes t) = t"
  by (simp add: bytes_tf_def tf_bytes_def)

text \<open>Overwriting the \<open>esp\<close> field of a frame in memory.\<close>

lemma tf_bytes_esp:
  "take 68 (tf_bytes t) @ bytes32 v @ drop 72 (tf_bytes t) = tf_bytes (t\<lparr>tf_esp := v\<rparr>)"
  by (simp add: tf_bytes_def)

section \<open>Operations\<close>

definition upd_tf :: "nat \<Rightarrow> (trapframe \<Rightarrow> trapframe) \<Rightarrow> kst \<Rightarrow> kst" where
  "upd_tf p f s = upd_proc p (\<lambda>q. q\<lparr>tf := f (tf q)\<rparr>) s"

definition alarm :: "int \<Rightarrow> kst \<Rightarrow> int kres" where
  "alarm tickTime s = with_proc s (\<lambda>p.
     let sigBit = push_bit 14 1
     in if tickTime = 0 then Ok 0 (upd_proc p (\<lambda>q. q\<lparr>pending := pending q AND NOT sigBit\<rparr>) s)
        else Ok 0 (upd_proc p (\<lambda>q. q\<lparr>pending := pending q OR sigBit,
               alarmEnd := ticks s + of_int tickTime\<rparr>) s))"

definition defaultHandler :: "int \<Rightarrow> kst \<Rightarrow> unit kres" where
  "defaultHandler signum s = with_proc s (\<lambda>p.
     Ok () (s\<lparr>console := Signal_accepted signum (pid (ptable s ! p)) # console s\<rparr>))"

definition initHandlers :: "nat \<Rightarrow> kst \<Rightarrow> kst" where
  "initHandlers p s =
     upd_proc p (\<lambda>q. q\<lparr>signals := replicate NUMSIG (sym_defaultHandler (syms s))\<rparr>) s"

definition signal :: "int \<Rightarrow> u32 \<Rightarrow> kst \<Rightarrow> u32 kres" where
  "signal signum handler s =
     (if signum < 0 \<or> signum > 31 then Ok (- 1) s
      else with_proc s (\<lambda>p.
        let oldHandler = signals (ptable s ! p) ! nat signum
        in Ok oldHandler (upd_proc p (\<lambda>q. q\<lparr>signals := (signals q)[nat signum := handler]\<rparr>) s)))"

text \<open>After the search loop of \<open>sigsend\<close> the pointer is one past the table when no process has
  the pid, and not null; the code then writes through it.\<close>

definition sigsend :: "int \<Rightarrow> int \<Rightarrow> kst \<Rightarrow> int kres" where
  "sigsend pd signum s =
     (if signum < 0 \<or> signum > 31 then Ok (- 1) s
      else bnd (with_lock L_ptable (\<lambda>s. (find_idx (\<lambda>q. pid q = pd) (ptable s), s)) s) (\<lambda>i s.
        case i of
          None \<Rightarrow> Fault ''write to ptable.proc[NPROC]''
        | Some i \<Rightarrow>
            let s = upd_proc i (\<lambda>q. q\<lparr>pending := pending q OR push_bit (nat signum) 1\<rparr>) s;
                s = (if signum = 14 then upd_proc i (\<lambda>q. q\<lparr>alarmEnd := 0\<rparr>) s else s)
            in Ok 0 s))"

text \<open>The scan of \<open>getLitSignal\<close> over the signals \<open>i\<close>, \<open>i + 1\<close>, ..., \<open>n\<close> of them.\<close>

fun lit_scan :: "u32 \<Rightarrow> u32 \<Rightarrow> u32 \<Rightarrow> nat \<Rightarrow> nat \<Rightarrow> nat option" where
  "lit_scan pend aend tk i 0 = None"
| "lit_scan pend aend tk i (Suc n) =
     (if pend AND push_bit i 1 \<noteq> 0 then
        (if i = 14 \<and> aend > tk then lit_scan pend aend tk (Suc i) n else Some i)
      else lit_scan pend aend tk (Suc i) n)"

definition getLitSignal :: "kst \<Rightarrow> int kres" where
  "getLitSignal s = with_proc s (\<lambda>p.
     let q = ptable s ! p
     in case lit_scan (pending q) (alarmEnd q) (ticks s) 0 NUMSIG of
          None \<Rightarrow> Ok (- 1) s
        | Some i \<Rightarrow> Ok (int i) (upd_proc p (\<lambda>q. q\<lparr>pending := pending q AND NOT (push_bit i 1)\<rparr>) s))"

abbreviation uesp :: "nat \<Rightarrow> kst \<Rightarrow> u32" where
  "uesp p s \<equiv> tf_esp (tf (ptable s ! p))"

definition add_esp :: "nat \<Rightarrow> u32 \<Rightarrow> kst \<Rightarrow> kst" where
  "add_esp p d s = upd_tf p (\<lambda>t. t\<lparr>tf_esp := tf_esp t + d\<rparr>) s"

text \<open>The second half of \<open>handleSignal\<close>: the frame of a user handler. The code between the two
  labels of umsigret.S, the saved trap frame, the argument and the return address go on the user
  stack.\<close>

definition deliver :: "nat \<Rightarrow> int \<Rightarrow> u32 \<Rightarrow> kst \<Rightarrow> unit kres" where
  "deliver p lit handler s =
     (let origESP = uesp p s;
          code = sym_sigreturn (syms s);
          s = add_esp p (- of_nat (length code)) s
      in seq (uwrite (uesp p s) code s) (\<lambda>s.
      let funcAddr = uesp p s;
          s = add_esp p (- 76) s
      in seq (uwrite (uesp p s) (tf_bytes (tf (ptable s ! p))) s) (\<lambda>s.
         seq (uwrite (uesp p s + 68) (bytes32 origESP) s) (\<lambda>s.
      let s = add_esp p (- 4) s
      in seq (uwrite (uesp p s) (bytes32 (of_int lit)) s) (\<lambda>s.
      let s = add_esp p (- 4) s
      in seq (uwrite (uesp p s) (bytes32 funcAddr) s) (\<lambda>s.
         Ok () (upd_tf p (\<lambda>t. t\<lparr>tf_eip := handler\<rparr>) s)))))))"

definition handleSignal :: "trapframe \<Rightarrow> kst \<Rightarrow> unit kres" where
  "handleSignal f s =
     (case curproc s of
        None \<Rightarrow> Ok () s
      | Some p \<Rightarrow>
          if tf_cs f AND 3 = 0 then Ok () s
          else bnd (getLitSignal s) (\<lambda>litSignal s.
            if litSignal = - 1 then Ok () s
            else let handler = signals (ptable s ! p) ! nat litSignal
                 in if handler = sym_defaultHandler (syms s) then defaultHandler litSignal s
                    else deliver p litSignal handler s))"

definition sigreturn :: "kst \<Rightarrow> int kres" where
  "sigreturn s = with_proc s (\<lambda>p.
     let s = add_esp p 4 s
     in bnd (uread (uesp p s) 76 s) (\<lambda>bs s. Ok 0 (upd_tf p (\<lambda>_. bytes_tf bs) s)))"

section \<open>Choosing a signal\<close>

text \<open>A signal can be delivered when its bit is set, except for an alarm that is not yet due.\<close>

definition deliverable :: "proc \<Rightarrow> u32 \<Rightarrow> nat \<Rightarrow> bool" where
  "deliverable q tk i \<longleftrightarrow> i < NUMSIG \<and> bit (pending q) i \<and> \<not> (i = 14 \<and> tk < alarmEnd q)"

lemma all_ge_split: "(\<forall>k. i \<le> k \<longrightarrow> P k) \<longleftrightarrow> P i \<and> (\<forall>k. Suc i \<le> k \<longrightarrow> P k)"
  by (metis Suc_leD Suc_le_eq le_less)

lemma lit_scan_step:
  "lit_scan pend aend tk i (Suc n) =
     (if bit pend i \<and> \<not> (i = 14 \<and> tk < aend) then Some i else lit_scan pend aend tk (Suc i) n)"
  by (simp add: and_exp_eq_0_iff_not_bit)

lemma lit_scan_None:
  "lit_scan pend aend tk i n = None \<longleftrightarrow>
     (\<forall>j. i \<le> j \<longrightarrow> j < i + n \<longrightarrow> bit pend j \<longrightarrow> j = 14 \<and> tk < aend)"
proof (induction n arbitrary: i)
  case 0
  then show ?case by auto
next
  case (Suc n)
  show ?case unfolding lit_scan_step by (subst all_ge_split) (auto simp: Suc.IH)
qed

lemma lit_scan_Some:
  "lit_scan pend aend tk i n = Some j \<Longrightarrow>
     i \<le> j \<and> j < i + n \<and> bit pend j \<and> \<not> (j = 14 \<and> tk < aend) \<and>
     (\<forall>k. i \<le> k \<longrightarrow> k < j \<longrightarrow> bit pend k \<longrightarrow> k = 14 \<and> tk < aend)"
proof (induction n arbitrary: i)
  case 0
  then show ?case by simp
next
  case (Suc n)
  show ?case
  proof (cases "bit pend i \<and> \<not> (i = 14 \<and> tk < aend)")
    case True
    then show ?thesis using Suc.prems unfolding lit_scan_step by auto
  next
    case False
    then have "lit_scan pend aend tk (Suc i) n = Some j"
      using Suc.prems unfolding lit_scan_step by (auto split: if_splits)
    then show ?thesis using Suc.IH [of "Suc i"] False by (subst all_ge_split) auto
  qed
qed

interpretation ss: locked_op L_ptable "\<lambda>s. (find_idx (\<lambda>q. pid q = pd) (ptable s), s)"
  by unfold_locales simp_all

section \<open>The handler's frame\<close>

text \<open>The states between the stores of \<open>deliver\<close>: memory \<open>m\<close> and the user stack pointer lowered
  by \<open>d\<close>.\<close>

definition lowered :: "nat \<Rightarrow> kst \<Rightarrow> memory \<Rightarrow> u32 \<Rightarrow> kst" where
  "lowered p s m d = upd_tf p (\<lambda>t. t\<lparr>tf_esp := tf_esp t - d\<rparr>) (s\<lparr>mem := m\<rparr>)"

lemma lowered_simps:
  assumes "p < length (ptable s)"
  shows "uesp p (lowered p s m d) = uesp p s - d"
    "tf (ptable (lowered p s m d) ! p) = (tf (ptable s ! p))\<lparr>tf_esp := uesp p s - d\<rparr>"
    "add_esp p (- c) (lowered p s m d) = lowered p s m (d + c)"
    "add_esp p (- c) s = lowered p s (mem s) c"
  using assms by (simp_all add: lowered_def add_esp_def upd_tf_def upd_proc_def algebra_simps)

lemma lowered_frame [simp]:
  "mem (lowered p s m d) = m" "cpus (lowered p s m d) = cpus s" "mycpu (lowered p s m d) = mycpu s"
  "syms (lowered p s m d) = syms s" "length (ptable (lowered p s m d)) = length (ptable s)"
  "(lowered p s m d)\<lparr>mem := m'\<rparr> = lowered p s m' d"
  by (simp_all add: lowered_def upd_tf_def upd_proc_def)

lemma uwrite_lowered:
  assumes "ublock m (cur_pgdir s) va n" "a = va + of_nat k" "k + length bs \<le> n"
  shows "\<exists>m'. uwrite a bs (lowered p s m d) = Ok () (lowered p s m' d) \<and> ublock m' (cur_pgdir s) va n \<and>
    ubytes m' (cur_pgdir s) va n =
      take k (ubytes m (cur_pgdir s) va n) @ bs @ drop (k + length bs) (ubytes m (cur_pgdir s) va n)"
proof -
  obtain m' where "ustore m (cur_pgdir s) a bs = Some m'" "ublock m' (cur_pgdir s) va n"
    "ubytes m' (cur_pgdir s) va n =
      take k (ubytes m (cur_pgdir s) va n) @ bs @ drop (k + length bs) (ubytes m (cur_pgdir s) va n)"
    using ustore_block [OF assms(1,3)] unfolding assms(2) by (elim exE conjE)
  then show ?thesis by (intro exI [of _ m']) (simp add: uwrite_def)
qed

text \<open>With a mapped and writable stack, the stack picture of a delivered signal: return address,
  signal number, the interrupted frame, and the code that calls \<open>sigreturn\<close>.\<close>

lemma deliver_frame:
  assumes p: "p < length (ptable s)" and len: "length (sym_sigreturn (syms s)) = 8"
    and blk: "ublock (mem s) (cur_pgdir s) (uesp p s - 92) 92"
  shows "\<exists>m. deliver p lit handler s =
      Ok () (upd_tf p (\<lambda>t. t\<lparr>tf_eip := handler\<rparr>) (lowered p s m 92)) \<and>
    ublock m (cur_pgdir s) (uesp p s - 92) 92 \<and>
    ubytes m (cur_pgdir s) (uesp p s - 92) 92 =
      bytes32 (uesp p s - 8) @ bytes32 (of_int lit) @ tf_bytes (tf (ptable s ! p)) @ sym_sigreturn (syms s)"
proof -
  let ?pd = "cur_pgdir s" and ?esp = "uesp p s" and ?code = "sym_sigreturn (syms s)"
  let ?va = "?esp - 92" and ?t = "tf (ptable s ! p)"
  let ?B = "\<lambda>m. ubytes m ?pd ?va 92" and ?st = "lowered p s"
  obtain m1 where m1: "uwrite (?esp - 8) ?code (?st (mem s) 8) = Ok () (?st m1 8)"
    "ublock m1 ?pd ?va 92" "?B m1 = take 84 (?B (mem s)) @ ?code"
    using uwrite_lowered [OF blk, of "?esp - 8" 84 ?code p 8] len by auto
  obtain m2 where m2: "uwrite (?esp - 84) (tf_bytes (?t\<lparr>tf_esp := ?esp - 84\<rparr>)) (?st m1 84) = Ok () (?st m2 84)"
    "ublock m2 ?pd ?va 92" "?B m2 = take 8 (?B m1) @ tf_bytes (?t\<lparr>tf_esp := ?esp - 84\<rparr>) @ drop 84 (?B m1)"
    using uwrite_lowered [OF m1(2), of "?esp - 84" 8 "tf_bytes (?t\<lparr>tf_esp := ?esp - 84\<rparr>)" p 84] by auto
  obtain m3 where m3: "uwrite (?esp - 16) (bytes32 ?esp) (?st m2 84) = Ok () (?st m3 84)"
    "ublock m3 ?pd ?va 92" "?B m3 = take 76 (?B m2) @ bytes32 ?esp @ drop 80 (?B m2)"
    using uwrite_lowered [OF m2(2), of "?esp - 16" 76 "bytes32 ?esp" p 84] by auto
  obtain m4 where m4: "uwrite (?esp - 88) (bytes32 (of_int lit)) (?st m3 88) = Ok () (?st m4 88)"
    "ublock m4 ?pd ?va 92" "?B m4 = take 4 (?B m3) @ bytes32 (of_int lit) @ drop 8 (?B m3)"
    using uwrite_lowered [OF m3(2), of "?esp - 88" 4 "bytes32 (of_int lit)" p 88] by auto
  obtain m5 where m5: "uwrite (?esp - 92) (bytes32 (?esp - 8)) (?st m4 92) = Ok () (?st m5 92)"
    "ublock m5 ?pd ?va 92" "?B m5 = bytes32 (?esp - 8) @ drop 4 (?B m4)"
    using uwrite_lowered [OF m4(2), of "?esp - 92" 0 "bytes32 (?esp - 8)" p 92] by auto
  have "?B m3 = take 8 (?B m1) @ tf_bytes ?t @ drop 84 (?B m1)"
    using tf_bytes_esp [of "?t\<lparr>tf_esp := ?esp - 84\<rparr>" ?esp] unfolding m3(3) m2(3) by simp
  then have "?B m5 = bytes32 (?esp - 8) @ bytes32 (of_int lit) @ tf_bytes ?t @ ?code"
    unfolding m5(3) m4(3) by (simp add: m1(3))
  moreover have "deliver p lit handler s = Ok () (upd_tf p (\<lambda>t. t\<lparr>tf_eip := handler\<rparr>) (?st m5 92))"
    using m1(1) m2(1) m3(1) m4(1) m5(1) len by (simp add: deliver_def Let_def lowered_simps [OF p])
  ultimately show ?thesis using m5(2) by blast
qed

text \<open>\<open>sigreturn\<close>, entered with the stack pointer just above the return address, reads the frame
  back.\<close>

lemma sigreturn_frame:
  assumes "curproc u = Some p" "p < length (ptable u)" "ublock (mem u) (cur_pgdir u) va n"
    and "uesp p u + 4 = va + of_nat k" "k + 76 \<le> n"
    and "take 76 (drop k (ubytes (mem u) (cur_pgdir u) va n)) = tf_bytes t"
  shows "sigreturn u = Ok 0 (upd_tf p (\<lambda>_. t) u)"
proof -
  have "uesp p (add_esp p 4 u) = va + of_nat k"
    using assms(2,4) by (simp add: add_esp_def upd_tf_def upd_proc_def)
  moreover have "uload (mem u) (cur_pgdir u) (va + of_nat k) 76 = Some (tf_bytes t)"
    using uload_block [OF assms(3,5)] assms(6) by simp
  ultimately show ?thesis
    using assms(1,2) by (simp add: sigreturn_def with_proc_def uread_def Let_def add_esp_def upd_tf_def upd_proc_def)
qed

lemma getLitSignal_None:
  assumes "curproc s = Some p" "\<forall>i. \<not> deliverable (ptable s ! p) (ticks s) i"
  shows "getLitSignal s = Ok (- 1) s"
proof -
  have "lit_scan (pending (ptable s ! p)) (alarmEnd (ptable s ! p)) (ticks s) 0 NUMSIG = None"
    using assms(2) by (auto simp: lit_scan_None deliverable_def)
  then show ?thesis using assms(1) by (simp add: getLitSignal_def with_proc_def)
qed

lemma getLitSignal_Some:
  assumes "curproc s = Some p" "deliverable (ptable s ! p) (ticks s) i"
    "\<forall>k < i. \<not> deliverable (ptable s ! p) (ticks s) k"
  shows "getLitSignal s = Ok (int i) (upd_proc p (\<lambda>q. q\<lparr>pending := pending q AND NOT (push_bit i 1)\<rparr>) s)"
proof -
  let ?scan = "lit_scan (pending (ptable s ! p)) (alarmEnd (ptable s ! p)) (ticks s) 0 NUMSIG"
  obtain j where j: "?scan = Some j"
    using assms(2) by (cases ?scan) (auto simp: lit_scan_None deliverable_def)
  note sc = lit_scan_Some [OF j]
  have "j = i"
  proof (rule linorder_cases [of j i])
    assume "j < i"
    then show ?thesis using assms(3) sc by (auto simp: deliverable_def)
  next
    assume "i < j"
    then show ?thesis using assms(2) sc by (auto simp: deliverable_def)
  qed
  then show ?thesis using assms(1) j by (simp add: getLitSignal_def with_proc_def)
qed

lemma bit_and_not_exp: "bit ((x :: u32) AND NOT (push_bit i 1)) k \<longleftrightarrow> bit x k \<and> k \<noteq> i"
  by (auto simp: bit_and_iff bit_not_iff bit_exp_iff possible_bit_def dest: bit_imp_le_length)

lemma bit_or_exp: "i < 32 \<Longrightarrow> bit ((x :: u32) OR push_bit i 1) k \<longleftrightarrow> bit x k \<or> k = i"
  by (auto simp: bit_or_iff bit_exp_iff possible_bit_def)

section \<open>Properties\<close>

text \<open>C15: \<open>getLitSignal\<close> picks the lowest-numbered signal that is pending, where an alarm
  (signal 14) whose tick has not come does not count and does not hide later signals; it clears
  exactly the bit of the signal it returns, and returns \<open>-1\<close> without any change when there is
  none.\<close>

theorem getLitSignal_lowest:
  assumes "curproc s = Some p" and "p < length (ptable s)"
  shows "(\<exists>i t. getLitSignal s = Ok (int i) t \<and> deliverable (ptable s ! p) (ticks s) i \<and>
       (\<forall>k < i. \<not> deliverable (ptable s ! p) (ticks s) k) \<and>
       (\<forall>k. bit (pending (ptable t ! p)) k \<longleftrightarrow> bit (pending (ptable s ! p)) k \<and> k \<noteq> i) \<and>
       (\<forall>r. r \<noteq> p \<longrightarrow> ptable t ! r = ptable s ! r)) \<or>
     (getLitSignal s = Ok (- 1) s \<and> (\<forall>i. \<not> deliverable (ptable s ! p) (ticks s) i))"
proof (cases "\<exists>i. deliverable (ptable s ! p) (ticks s) i")
  case True
  then obtain i where i: "deliverable (ptable s ! p) (ticks s) i"
    "\<forall>k < i. \<not> deliverable (ptable s ! p) (ticks s) k"
    using exists_least_iff [of "deliverable (ptable s ! p) (ticks s)"] by auto
  let ?t = "upd_proc p (\<lambda>q. q\<lparr>pending := pending q AND NOT (push_bit i 1)\<rparr>) s"
  have t: "pending (ptable ?t ! p) = pending (ptable s ! p) AND NOT (push_bit i 1)"
    "\<forall>r. r \<noteq> p \<longrightarrow> ptable ?t ! r = ptable s ! r"
    using assms(2) by (simp_all add: upd_proc_def del: push_bit_of_1)
  have "\<forall>k. bit (pending (ptable ?t ! p)) k \<longleftrightarrow> bit (pending (ptable s ! p)) k \<and> k \<noteq> i"
    unfolding t(1) bit_and_not_exp by simp
  then show ?thesis
    by (intro disjI1 exI [of _ i] exI [of _ ?t] conjI getLitSignal_Some assms(1) i t(2))
next
  case False
  then show ?thesis using getLitSignal_None [OF assms(1)] by blast
qed

text \<open>A process with pid 7 and signal 2 pending for a user handler, whose stack lies in a mapped
  page: page directory at physical address \<open>0x401000\<close>, page table at \<open>0x402000\<close>, page at
  \<open>0x403000\<close>, used at user address \<open>0x3000\<close>.\<close>

definition sig_proc :: proc where
  "sig_proc = proc0\<lparr>pstate := RUNNING, pid := 7, pending := 4, signals := (replicate NUMSIG 0)[2 := 0x500],
     tf := tf0\<lparr>tf_cs := 0x1b, tf_esp := 0x3f00, tf_eip := 0x100, tf_eax := 77\<rparr>\<rparr>"

definition sig_mem :: memory where
  "sig_mem = store32 (store32 (\<lambda>_. 0) 0x80401000 0x402007) 0x8040200c 0x403007"

definition sig_demo :: kst where
  "sig_demo = kst0\<lparr>mem := sig_mem, cpus := \<lambda>_. cpu0\<lparr>cr3 := 0x401000\<rparr>,
     ptable := (replicate NPROC proc0)[0 := sig_proc]\<rparr>"

lemma sig_demo_simps:
  "curproc sig_demo = Some 0" "length (ptable sig_demo) = NPROC" "ptable sig_demo ! 0 = sig_proc"
  "ticks sig_demo = 0" "mem sig_demo = sig_mem" "cur_pgdir sig_demo = 0x80401000"
  "syms sig_demo = syms kst0"
  by (simp_all add: sig_demo_def kst0_def cpu0_def P2V_def)

lemma sig_demo_deliverable: "deliverable sig_proc 0 k \<longleftrightarrow> k = 2"
proof -
  have "bit (4 :: u32) k \<longleftrightarrow> k = 2" using bit_exp_iff [of 2 k, where 'a = u32] by auto
  then show ?thesis by (auto simp: deliverable_def sig_proc_def)
qed

lemma sig_demo_stack: "ublock sig_mem 0x80401000 (0x3f00 - 92) 92"
proof (rule ublock_page)
  have at: "pde_at 0x80401000 0x3ea4 = 0x80401000" "pte_at sig_mem 0x80401000 0x3ea4 = 0x8040200c"
    "load32 sig_mem 0x8040200c = 0x403007" "translate sig_mem 0x80401000 True 0x3ea4 = Some 0x80403ea4"
    by code_simp+
  show "translate sig_mem 0x80401000 True (0x3f00 - 92) \<noteq> None" by (simp add: at)
  show "\<forall>i<4. \<not> in_block 0x80403000 4096 (pde_at 0x80401000 (0x3f00 - 92) + word_of_nat i) \<and>
      \<not> in_block 0x80403000 4096 (pte_at sig_mem 0x80401000 (0x3f00 - 92) + word_of_nat i)"
  proof (intro allI impI conjI)
    fix i :: nat assume "i < 4"
    then show "\<not> in_block 0x80403000 4096 (pde_at 0x80401000 (0x3f00 - 92) + of_nat i)"
      using page_disjoint [of "0x80403000" "0x80401000" i] by (simp add: at)
    show "\<not> in_block 0x80403000 4096 (pte_at sig_mem 0x80401000 (0x3f00 - 92) + of_nat i)"
      using page_disjoint [of "0x80403000" "0x80402000" "12 + i"] \<open>i < 4\<close> by (simp add: at)
  qed
  show "0x80403000 = P2V (PTE_ADDR (load32 sig_mem (pte_at sig_mem 0x80401000 (0x3f00 - 92))))"
    by (simp add: at) code_simp
qed simp

theorem getLitSignal_lowest_witness:
  "\<exists>t. getLitSignal sig_demo = Ok 2 t \<and> pending (ptable t ! 0) = 0"
proof -
  have d: "deliverable (ptable sig_demo ! 0) (ticks sig_demo) i \<longleftrightarrow> i = 2" for i
    by (simp add: sig_demo_simps sig_demo_deliverable)
  obtain t where t: "getLitSignal sig_demo = Ok 2 t"
    "\<forall>k. bit (pending (ptable t ! 0)) k \<longleftrightarrow> bit (pending sig_proc) k \<and> k \<noteq> 2"
    using getLitSignal_lowest [of sig_demo 0] d by (auto simp: sig_demo_simps)
  have "bit (4 :: u32) k \<longleftrightarrow> k = 2" for k using bit_exp_iff [of 2 k, where 'a = u32] by auto
  then have "pending (ptable t ! 0) = 0"
    using t(2) by (intro bit_word_eqI) (auto simp: sig_proc_def)
  then show ?thesis using t(1) by blast
qed

text \<open>C9: delivering a signal to a user handler and returning from it restores the interrupted
  context. When the user stack below \<open>esp\<close> is mapped, writable and not part of the page
  tables, \<open>handleSignal\<close> makes the process continue at its handler with the return address,
  the signal number, the saved trap frame and the return code on its stack; and whenever
  \<open>sigreturn\<close> is entered from that return code with the saved frame still in place, the trap
  frame becomes the interrupted one again, bit for bit.\<close>

theorem signal_roundtrip:
  assumes "curproc s = Some p" and "p < length (ptable s)" and "tf_cs f AND 3 \<noteq> 0"
    and "deliverable (ptable s ! p) (ticks s) i"
    and "\<forall>k < i. \<not> deliverable (ptable s ! p) (ticks s) k"
    and "signals (ptable s ! p) ! i \<noteq> sym_defaultHandler (syms s)"
    and "length (sym_sigreturn (syms s)) = 8"
    and "ublock (mem s) (cur_pgdir s) (uesp p s - 92) 92"
  shows "\<exists>t. handleSignal f s = Ok () t \<and>
    tf_eip (tf (ptable t ! p)) = signals (ptable s ! p) ! i \<and> uesp p t = uesp p s - 92 \<and>
    ubytes (mem t) (cur_pgdir t) (uesp p t) 92 = bytes32 (uesp p s - 8) @ bytes32 (of_nat i) @
      tf_bytes (tf (ptable s ! p)) @ sym_sigreturn (syms s) \<and>
    (\<forall>u. curproc u = Some p \<longrightarrow> p < length (ptable u) \<longrightarrow> uesp p u = uesp p t + 4 \<longrightarrow>
       ublock (mem u) (cur_pgdir u) (uesp p t) 92 \<longrightarrow>
       take 76 (drop 8 (ubytes (mem u) (cur_pgdir u) (uesp p t) 92)) =
         take 76 (drop 8 (ubytes (mem t) (cur_pgdir t) (uesp p t) 92)) \<longrightarrow>
       (\<exists>v. sigreturn u = Ok 0 v \<and> tf (ptable v ! p) = tf (ptable s ! p)))"
proof -
  let ?s = "upd_proc p (\<lambda>q. q\<lparr>pending := pending q AND NOT (push_bit i 1)\<rparr>) s"
  have q: "tf (ptable ?s ! p) = tf (ptable s ! p)" "signals (ptable ?s ! p) = signals (ptable s ! p)"
    "mem ?s = mem s" "cpus ?s = cpus s" "mycpu ?s = mycpu s" "syms ?s = syms s"
    "length (ptable ?s) = length (ptable s)"
    using assms(2) by (simp_all add: upd_proc_def)
  obtain m where m: "deliver p (int i) (signals (ptable s ! p) ! i) ?s =
      Ok () (upd_tf p (\<lambda>t. t\<lparr>tf_eip := signals (ptable s ! p) ! i\<rparr>) (lowered p ?s m 92))"
    "ubytes m (cur_pgdir s) (uesp p s - 92) 92 = bytes32 (uesp p s - 8) @ bytes32 (of_nat i) @
      tf_bytes (tf (ptable s ! p)) @ sym_sigreturn (syms s)"
    using deliver_frame [of p ?s "int i" "signals (ptable s ! p) ! i"] assms(2,7,8) unfolding q by auto
  let ?t = "upd_tf p (\<lambda>t. t\<lparr>tf_eip := signals (ptable s ! p) ! i\<rparr>) (lowered p ?s m 92)"
  have t: "tf (ptable ?t ! p) = (tf (ptable s ! p))\<lparr>tf_esp := uesp p s - 92, tf_eip := signals (ptable s ! p) ! i\<rparr>"
    "mem ?t = m" "cur_pgdir ?t = cur_pgdir s"
    using assms(2) by (simp_all add: lowered_def upd_tf_def upd_proc_def)
  then have B: "ubytes (mem ?t) (cur_pgdir ?t) (uesp p ?t) 92 = bytes32 (uesp p s - 8) @ bytes32 (of_nat i) @
      tf_bytes (tf (ptable s ! p)) @ sym_sigreturn (syms s)"
    using m(2) by simp
  have hs: "handleSignal f s = Ok () ?t"
    using assms(1,3,6) getLitSignal_Some [OF assms(1,4,5)] m(1) q(2,6) by (simp add: handleSignal_def)
  have rt: "\<exists>v. sigreturn u = Ok 0 v \<and> tf (ptable v ! p) = tf (ptable s ! p)"
    if u: "curproc u = Some p" "p < length (ptable u)" "uesp p u = uesp p ?t + 4"
      "ublock (mem u) (cur_pgdir u) (uesp p ?t) 92"
      "take 76 (drop 8 (ubytes (mem u) (cur_pgdir u) (uesp p ?t) 92)) =
         take 76 (drop 8 (ubytes (mem ?t) (cur_pgdir ?t) (uesp p ?t) 92))" for u
  proof -
    have "take 76 (drop 8 (ubytes (mem u) (cur_pgdir u) (uesp p ?t) 92)) = tf_bytes (tf (ptable s ! p))"
      unfolding u(5) B by simp
    then have "sigreturn u = Ok 0 (upd_tf p (\<lambda>_. tf (ptable s ! p)) u)"
      using u(3) by (intro sigreturn_frame [OF u(1,2,4), of 8]) (simp_all add: t)
    then show ?thesis using u(2) by (simp add: upd_tf_def upd_proc_def)
  qed
  have ei: "tf_eip (tf (ptable ?t ! p)) = signals (ptable s ! p) ! i" "uesp p ?t = uesp p s - 92"
    using t(1) by simp_all
  show ?thesis by (rule exI [of _ ?t], intro conjI allI impI) (fact hs ei B | rule rt, assumption+)+
qed

theorem signal_roundtrip_witness:
  "deliverable (ptable sig_demo ! 0) (ticks sig_demo) 2 \<and>
   ublock (mem sig_demo) (cur_pgdir sig_demo) (uesp 0 sig_demo - 92) 92 \<and>
   (\<exists>t. handleSignal (tf sig_proc) sig_demo = Ok () t \<and> tf_eip (tf (ptable t ! 0)) = 0x500 \<and>
      uesp 0 t = 0x3ea4)"
proof -
  have d: "deliverable (ptable sig_demo ! 0) (ticks sig_demo) i \<longleftrightarrow> i = 2" for i
    by (simp add: sig_demo_simps sig_demo_deliverable)
  have b: "ublock (mem sig_demo) (cur_pgdir sig_demo) (uesp 0 sig_demo - 92) 92"
    using sig_demo_stack by (simp add: sig_demo_simps sig_proc_def)
  have "(0x1b :: u16) AND 3 \<noteq> 0" by code_simp
  then show ?thesis
    using signal_roundtrip [of sig_demo 0 "tf sig_proc" 2] d b
    by (auto simp: sig_demo_simps sig_proc_def kst0_def)
qed

text \<open>C16: the alarm. After \<open>alarm(n)\<close> with \<open>n > 0\<close> at a tick count that does not wrap, the alarm
  signal becomes deliverable exactly from \<open>n\<close> ticks later on; \<open>alarm(0)\<close> cancels a pending
  alarm; and no other signal's pending bit is touched.\<close>

theorem alarm_due:
  assumes "curproc s = Some p" and "p < length (ptable s)"
  shows "\<exists>t. alarm n s = Ok 0 t \<and>
    (n = 0 \<longrightarrow> (\<forall>tk. \<not> deliverable (ptable t ! p) tk 14)) \<and>
    (0 < n \<longrightarrow> uint (ticks s) + n < 2 ^ 32 \<longrightarrow>
       (\<forall>tk. deliverable (ptable t ! p) tk 14 \<longleftrightarrow> uint (ticks s) + n \<le> uint tk)) \<and>
    (\<forall>k. k \<noteq> 14 \<longrightarrow> bit (pending (ptable t ! p)) k = bit (pending (ptable s ! p)) k)"
proof (cases "n = 0")
  case True
  define t where "t = upd_proc p (\<lambda>q. q\<lparr>pending := pending q AND NOT (push_bit 14 1)\<rparr>) s"
  have "pending (ptable t ! p) = pending (ptable s ! p) AND NOT (push_bit 14 1)"
    using assms(2) by (simp add: t_def upd_proc_def)
  then have "bit (pending (ptable t ! p)) k \<longleftrightarrow> bit (pending (ptable s ! p)) k \<and> k \<noteq> 14" for k
    by (simp only: bit_and_not_exp)
  moreover have "alarm n s = Ok 0 t" using True assms(1) by (simp add: alarm_def with_proc_def t_def)
  ultimately show ?thesis using True by (intro exI [of _ t]) (simp add: deliverable_def)
next
  case False
  define t where
    "t = upd_proc p (\<lambda>q. q\<lparr>pending := pending q OR push_bit 14 1, alarmEnd := ticks s + of_int n\<rparr>) s"
  have t: "pending (ptable t ! p) = pending (ptable s ! p) OR push_bit 14 1"
    "alarmEnd (ptable t ! p) = ticks s + of_int n"
    using assms(2) by (simp_all add: t_def upd_proc_def)
  have b: "bit (pending (ptable t ! p)) k \<longleftrightarrow> bit (pending (ptable s ! p)) k \<or> k = 14" for k
    unfolding t(1) using bit_or_exp [of 14 "pending (ptable s ! p)" k] by (simp only:)
  have "deliverable (ptable t ! p) tk 14 \<longleftrightarrow> uint (ticks s) + n \<le> uint tk"
    if n: "0 < n" "uint (ticks s) + n < 2 ^ 32" for tk
  proof -
    have "uint (ticks s + of_int n) = (uint (ticks s) + n) mod 2 ^ 32"
      by (simp add: uint_word_ariths take_bit_eq_mod unsigned_of_int mod_simps)
    also have "\<dots> = uint (ticks s) + n" using n uint_ge_0 [of "ticks s"] by simp
    finally have "uint (ticks s + of_int n) = uint (ticks s) + n" .
    then show ?thesis by (simp add: deliverable_def b t(2) word_less_def not_less)
  qed
  moreover have "alarm n s = Ok 0 t" using False assms(1) by (simp add: alarm_def with_proc_def t_def)
  ultimately show ?thesis using False b by (intro exI [of _ t]) simp
qed

theorem alarm_due_witness:
  "\<exists>t. alarm 5 sig_demo = Ok 0 t \<and> deliverable (ptable t ! 0) 5 14 \<and> \<not> deliverable (ptable t ! 0) 4 14"
  using alarm_due [of sig_demo 0 5] by (auto simp: sig_demo_simps)

text \<open>C28: \<open>sigsend\<close>. An out-of-range signal number is refused. Otherwise the signal becomes
  pending in the first process with the pid and in no other, and for signal 14 at once
  deliverable. When no process has the pid the code runs past the end of the process
  table: the check of the pointer against null never succeeds.\<close>

theorem sigsend_spec:
  assumes "lock_free L_ptable s" and "cpu_ok s"
  shows "(signum < 0 \<or> 31 < signum \<longrightarrow> sigsend pd signum s = Ok (- 1) s) \<and>
    (0 \<le> signum \<and> signum \<le> 31 \<longrightarrow>
      (case find_idx (\<lambda>q. pid q = pd) (ptable s) of
         None \<Rightarrow> sigsend pd signum s = Fault ''write to ptable.proc[NPROC]''
       | Some i \<Rightarrow> \<exists>t. sigsend pd signum s = Ok 0 t \<and>
           (\<forall>k. bit (pending (ptable t ! i)) k \<longleftrightarrow> bit (pending (ptable s ! i)) k \<or> int k = signum) \<and>
           alarmEnd (ptable t ! i) = (if signum = 14 then 0 else alarmEnd (ptable s ! i)) \<and>
           (\<forall>j. j \<noteq> i \<longrightarrow> ptable t ! j = ptable s ! j)))"
proof -
  let ?f = "\<lambda>s. (find_idx (\<lambda>q. pid q = pd) (ptable s), s)"
  have run: "with_lock L_ptable ?f s = Ok (find_idx (\<lambda>q. pid q = pd) (ptable s)) (leave L_ptable (enter L_ptable s))"
    using ss.runs [OF assms, of pd] by simp
  show ?thesis
  proof (cases "find_idx (\<lambda>q. pid q = pd) (ptable s)")
    case None
    show ?thesis using run by (simp add: sigsend_def None)
  next
    case (Some i)
    have i: "i < length (ptable s)" by (rule find_idx_bound [OF Some])
    have b: "bit (x OR push_bit (nat signum) (1 :: u32)) k \<longleftrightarrow> bit x k \<or> int k = signum"
      if "0 \<le> signum" "signum \<le> 31" for x :: u32 and k
      using that bit_or_exp [of "nat signum" x k] by auto
    show ?thesis using run i b by (auto simp: sigsend_def Some upd_proc_def simp del: push_bit_of_1)
  qed
qed

theorem sigsend_spec_witness:
  "lock_free L_ptable sig_demo \<and> cpu_ok sig_demo \<and>
   sigsend 8 3 sig_demo = Fault ''write to ptable.proc[NPROC]'' \<and>
   (\<exists>t. sigsend 7 3 sig_demo = Ok 0 t \<and> bit (pending (ptable t ! 0)) 3)"
proof -
  have ok: "lock_free L_ptable sig_demo" "cpu_ok sig_demo"
    by (simp_all add: sig_demo_def kst0_def spin0_def cpu0_def lock_free_def cpu_ok_def)
  have none: "find_idx (\<lambda>q. pid q = 8) (ptable sig_demo) = None"
    by (auto simp: sig_demo_def sig_proc_def proc0_def dest!: set_update_subset_insert [THEN subsetD])
  have some: "find_idx (\<lambda>q. pid q = 7) (ptable sig_demo) = Some 0"
    by (simp add: sig_demo_def find_idx_Some sig_proc_def nth_list_update)
  show ?thesis
    using ok sigsend_spec [OF ok, of 3 8] sigsend_spec [OF ok, of 3 7] none some by auto
qed

end
