(* ===== verification/Umalloc.thy ===== *)
theory Umalloc
  imports Prelude
begin

text \<open>
  The user-level allocator (umalloc.c). Headers are kept in a store indexed by address: a header
  occupies 8 bytes, so \<open>p + 1\<close> on header pointers is \<open>p + 8\<close> here. The free list is circular
  and passes through the static header \<open>base\<close>; a search in it that never ends is \<open>None\<close>.
\<close>

section \<open>Operations\<close>

text \<open>\<open>grant b n\<close> is the kernel's answer to a request to move the end of the process's memory
  from \<open>b\<close> to \<open>b + n\<close>.\<close>

record heap =
  hptr :: "u32 \<Rightarrow> u32"
  hsize :: "u32 \<Rightarrow> u32"
  hbase :: u32
  freep :: u32
  brk :: u32
  grant :: "u32 \<Rightarrow> u32 \<Rightarrow> bool"

definition set_ptr :: "u32 \<Rightarrow> u32 \<Rightarrow> heap \<Rightarrow> heap" where
  "set_ptr p v h = h\<lparr>hptr := (hptr h)(p := v)\<rparr>"

definition set_size :: "u32 \<Rightarrow> u32 \<Rightarrow> heap \<Rightarrow> heap" where
  "set_size p v h = h\<lparr>hsize := (hsize h)(p := v)\<rparr>"

partial_function (option) free_find :: "(u32 \<Rightarrow> u32) \<Rightarrow> u32 \<Rightarrow> u32 \<Rightarrow> u32 option" where
  "free_find f bp p =
     (if bp > p \<and> bp < f p then Some p
      else if p \<ge> f p \<and> (bp > p \<or> bp < f p) then Some p
      else free_find f bp (f p))"

definition ufree :: "u32 \<Rightarrow> heap \<Rightarrow> heap option" where
  "ufree ap h =
     (let bp = ap - 8
      in case free_find (hptr h) bp (freep h) of
           None \<Rightarrow> None
         | Some p \<Rightarrow>
             let h = (if bp + 8 * hsize h bp = hptr h p
                      then let h = set_size bp (hsize h bp + hsize h (hptr h p)) h
                           in set_ptr bp (hptr h (hptr h p)) h
                      else set_ptr bp (hptr h p) h);
                 h = (if p + 8 * hsize h p = bp
                      then let h = set_size p (hsize h p + hsize h bp) h
                           in set_ptr p (hptr h bp) h
                      else set_ptr p bp h)
             in Some (h\<lparr>freep := p\<rparr>))"

text \<open>The system call: the argument is an \<open>int\<close>, so a large request moves the break down.\<close>

definition sbrk :: "u32 \<Rightarrow> heap \<Rightarrow> u32 \<times> heap" where
  "sbrk n h = (if grant h (brk h) n then (brk h, h\<lparr>brk := brk h + n\<rparr>) else (- 1, h))"

definition morecore :: "u32 \<Rightarrow> heap \<Rightarrow> (u32 \<times> heap) option" where
  "morecore nu h =
     (let nu = (if nu < 4096 then 4096 else nu)
      in case sbrk (nu * 8) h of
           (p, h) \<Rightarrow>
             if p = - 1 then Some (0, h)
             else map_option (\<lambda>h. (freep h, h)) (ufree (p + 8) (set_size p nu h)))"

text \<open>What the loop does when it has found a block \<open>p\<close> that is large enough.\<close>

definition take_block :: "u32 \<Rightarrow> u32 \<Rightarrow> u32 \<Rightarrow> heap \<Rightarrow> u32 \<times> heap" where
  "take_block nunits prevp p h =
     (case (if hsize h p = nunits then (p, set_ptr prevp (hptr h p) h)
            else let h = set_size p (hsize h p - nunits) h;
                     q = p + 8 * hsize h p
                 in (q, set_size q nunits h)) of
        (p, h) \<Rightarrow> (p + 8, h\<lparr>freep := prevp\<rparr>))"

partial_function (option) malloc_loop :: "u32 \<Rightarrow> u32 \<Rightarrow> u32 \<Rightarrow> heap \<Rightarrow> (u32 \<times> heap) option" where
  "malloc_loop nunits prevp p h =
     (if hsize h p \<ge> nunits then Some (take_block nunits prevp p h)
      else if p = freep h then
        Option.bind (morecore nunits h) (\<lambda>(q, h).
          if q = 0 then Some (0, h) else malloc_loop nunits q (hptr h q) h)
      else malloc_loop nunits p (hptr h p) h)"

definition malloc :: "u32 \<Rightarrow> heap \<Rightarrow> (u32 \<times> heap) option" where
  "malloc nbytes h =
     (let nunits = (nbytes + 8 - 1) div 8 + 1;
          h = (if freep h = 0
               then set_size (hbase h) 0 ((set_ptr (hbase h) (hbase h) h)\<lparr>freep := hbase h\<rparr>)
               else h)
      in malloc_loop nunits (freep h) (hptr h (freep h)) h)"

end
