(* ===== verification/Uthread.thy ===== *)
theory Uthread
  imports Signals Umalloc
begin

text \<open>
  The user-level thread library (uthread.c, uthread.h): the thread table, the scheduler that
  runs as the handler of \<open>SIGALRM\<close>, creation, sleeping, joining and exit of threads, and the
  binary semaphores.

  The state is the library's global variables together with what the library sees of the
  kernel: the process's memory, its heap, the readings of \<open>uptime\<close>, and whether \<open>SIGALRM\<close> is
  armed or raised. A raised signal is delivered when the system call that raised it returns, so
  that no instruction of the thread runs in between.
\<close>

section \<open>State\<close>

abbreviation MAX_UTHREADS :: nat where "MAX_UTHREADS \<equiv> 64"
abbreviation MAX_BSEM :: nat where "MAX_BSEM \<equiv> 128"
abbreviation SIGALRM :: int where "SIGALRM \<equiv> 14"
abbreviation UTHREAD_QUANTA :: int where "UTHREAD_QUANTA \<equiv> 5"
abbreviation STACKSZ :: u32 where "STACKSZ \<equiv> 4096"

datatype thread_state = T_RUNNING | T_READY | T_SLEEPING | T_BLOCKED | T_TERMINATED

text \<open>\<open>struct threadtrapframe\<close> has the fields and the layout of the kernel's \<open>struct trapframe\<close>.\<close>

record thread =
  tid :: int
  tstack :: u32
  tstate :: thread_state
  ttf :: trapframe
  indexInThreadtable :: nat
  wakeUpTime :: int
  blockedOnSemaphore :: int
  joinOnTid :: u32

datatype sigalrm = Disarmed | Armed int | Raised

record uts =
  threadTable :: "thread list"
  nexttid :: int
  ct :: "nat option"
  threadSystemOn :: int
  semaphores :: "int list"
  uheap :: heap
  umem :: memory
  uptimes :: "nat \<Rightarrow> int"
  nuptime :: nat
  alrm :: sigalrm
  handler :: u32
  uout :: "string list"
  addr_uthread_exit :: u32
  addr_alarmHandler :: u32

type_synonym 'a ures = "('a, uts) outcome"

text \<open>Wrap-around of the signed \<open>int\<close>.\<close>

definition s32 :: "int \<Rightarrow> int" where
  "s32 x = sint (of_int x :: u32)"

definition upd_thread :: "nat \<Rightarrow> (thread \<Rightarrow> thread) \<Rightarrow> uts \<Rightarrow> uts" where
  "upd_thread i f s = s\<lparr>threadTable := (threadTable s)[i := f (threadTable s ! i)]\<rparr>"

definition with_ct :: "uts \<Rightarrow> (nat \<Rightarrow> 'a ures) \<Rightarrow> 'a ures" where
  "with_ct s f = (case ct s of None \<Rightarrow> Fault ''ct is null'' | Some c \<Rightarrow> f c)"

section \<open>System calls the library makes\<close>

definition uptime :: "uts \<Rightarrow> int \<times> uts" where
  "uptime s = (uptimes s (nuptime s), s\<lparr>nuptime := Suc (nuptime s)\<rparr>)"

definition sigsend_self :: "uts \<Rightarrow> uts" where
  "sigsend_self s = s\<lparr>alrm := Raised\<rparr>"

definition ualarm :: "int \<Rightarrow> uts \<Rightarrow> uts" where
  "ualarm n s = s\<lparr>alrm := (if n = 0 then Disarmed else Armed n)\<rparr>"

section \<open>Threads\<close>

definition printError :: "uts \<Rightarrow> uts" where
  "printError s = s\<lparr>uout := ''Thread System Uninitialized'' # uout s\<rparr>"

definition initThreadTable :: "uts \<Rightarrow> uts" where
  "initThreadTable s =
     s\<lparr>threadTable := map (\<lambda>t. t\<lparr>tstate := T_TERMINATED, blockedOnSemaphore := - 1, joinOnTid := - 1\<rparr>)
         (threadTable s)\<rparr>"

text \<open>The loop body of \<open>chooseNextThread\<close> before the test for \<open>READY\<close>; \<open>uptime\<close> is called for
  sleeping threads only.\<close>

definition wake_due :: "nat \<Rightarrow> uts \<Rightarrow> uts" where
  "wake_due i s =
     (if tstate (threadTable s ! i) = T_SLEEPING
      then case uptime s of (now, s) \<Rightarrow>
             if wakeUpTime (threadTable s ! i) \<le> now then upd_thread i (\<lambda>t. t\<lparr>tstate := T_READY\<rparr>) s else s
      else s)"

fun choose_scan :: "nat \<Rightarrow> nat \<Rightarrow> nat \<Rightarrow> uts \<Rightarrow> nat option \<times> uts" where
  "choose_scan startLoc i 0 s = (None, s)"
| "choose_scan startLoc i (Suc n) s =
     (let currLoc = (startLoc + i) mod MAX_UTHREADS;
          s = wake_due currLoc s
      in if tstate (threadTable s ! currLoc) = T_READY then (Some currLoc, s)
         else choose_scan startLoc (Suc i) n s)"

text \<open>The result \<open>-1\<close> is \<open>None\<close>.\<close>

definition chooseNextThread :: "nat \<Rightarrow> uts \<Rightarrow> nat option \<times> uts" where
  "chooseNextThread c s =
     (let startLoc = indexInThreadtable (threadTable s ! c)
      in case choose_scan startLoc 1 MAX_UTHREADS s of
           (Some i, s) \<Rightarrow> (Some i, s)
         | (None, s) \<Rightarrow> (if tstate (threadTable s ! c) = T_RUNNING then Some startLoc else None, s))"

definition getThreadCount :: "uts \<Rightarrow> nat" where
  "getThreadCount s = length (filter (\<lambda>t. tstate t \<noteq> T_TERMINATED) (threadTable s))"

definition uthread_sleep :: "int \<Rightarrow> uts \<Rightarrow> int ures" where
  "uthread_sleep n s =
     (if threadSystemOn s = 0 then Ok (- 1) (printError s)
      else with_ct s (\<lambda>c. case uptime s of (now, s) \<Rightarrow>
        Ok 0 (sigsend_self (upd_thread c (\<lambda>t. t\<lparr>wakeUpTime := s32 (n + now), tstate := T_SLEEPING\<rparr>) s))))"

definition uthread_join :: "int \<Rightarrow> uts \<Rightarrow> unit ures" where
  "uthread_join td s =
     (if threadSystemOn s = 0 then Ok () (printError s)
      else case find_idx (\<lambda>t. td = tid t) (threadTable s) of
        None \<Rightarrow> Ok () s
      | Some i \<Rightarrow>
          if tstate (threadTable s ! i) = T_TERMINATED then Ok () s
          else with_ct s (\<lambda>c.
            Ok () (sigsend_self (upd_thread c
              (\<lambda>t. t\<lparr>joinOnTid := of_int (tid (threadTable s ! i)), tstate := T_BLOCKED\<rparr>) s))))"

definition free_stack :: "nat \<Rightarrow> uts \<Rightarrow> unit ures" where
  "free_stack c s =
     (if tid (threadTable s ! c) \<noteq> 0
      then case ufree (tstack (threadTable s ! c)) (uheap s) of
             None \<Rightarrow> Stuck
           | Some h \<Rightarrow> Ok () (s\<lparr>uheap := h\<rparr>)
      else Ok () s)"

definition release_joiners :: "u32 \<Rightarrow> uts \<Rightarrow> uts" where
  "release_joiners td s =
     s\<lparr>threadTable := map (\<lambda>t. if joinOnTid t = td then t\<lparr>joinOnTid := - 1, tstate := T_READY\<rparr> else t)
         (threadTable s)\<rparr>"

definition uthread_exit :: "uts \<Rightarrow> unit ures" where
  "uthread_exit s =
     (if threadSystemOn s = 0 then Ok () (printError s)
      else with_ct s (\<lambda>c.
        if getThreadCount s = 1 then seq (free_stack c s) Exited
        else seq (free_stack c (release_joiners (of_int (tid (threadTable s ! c))) s)) (\<lambda>s.
          Ok () (sigsend_self (upd_thread c (\<lambda>t. t\<lparr>tstate := T_TERMINATED\<rparr>) s)))))"

text \<open>The busy wait of \<open>uthread_schedule\<close>.\<close>

partial_function (option) choose_loop :: "nat \<Rightarrow> uts \<Rightarrow> (nat \<times> uts) option" where
  "choose_loop c s =
     (case chooseNextThread c s of
        (None, s) \<Rightarrow> choose_loop c s
      | (Some i, s) \<Rightarrow> Some (i, s))"

text \<open>\<open>fp\<close> is \<open>ebp + 12\<close>, the address of the trap frame that the kernel saved on the user stack.\<close>

definition uthread_schedule :: "u32 \<Rightarrow> uts \<Rightarrow> unit ures" where
  "uthread_schedule fp s = with_ct s (\<lambda>c.
     let s = upd_thread c (\<lambda>t. t\<lparr>ttf := bytes_tf (load_bytes (umem s) fp 76)\<rparr>) s;
         s = (if tstate (threadTable s ! c) = T_RUNNING
              then upd_thread c (\<lambda>t. t\<lparr>tstate := T_READY\<rparr>) s else s)
     in case choose_loop c s of
          None \<Rightarrow> Stuck
        | Some (nextThread, s) \<Rightarrow>
            let s = s\<lparr>ct := Some nextThread,
                      umem := store_bytes (umem s) fp (tf_bytes (ttf (threadTable s ! nextThread)))\<rparr>;
                s = upd_thread nextThread (\<lambda>t. t\<lparr>tstate := T_RUNNING\<rparr>) s
            in Ok () (ualarm UTHREAD_QUANTA s))"

definition alarmHandler :: "u32 \<Rightarrow> int \<Rightarrow> uts \<Rightarrow> unit ures" where
  "alarmHandler fp sigNum s = uthread_schedule fp s"

definition getNextSpot :: "uts \<Rightarrow> nat option" where
  "getNextSpot s = find_idx (\<lambda>t. tstate t = T_TERMINATED) (threadTable s)"

definition uthread_create :: "u32 \<Rightarrow> u32 \<Rightarrow> uts \<Rightarrow> int ures" where
  "uthread_create threadEntry arg s =
     (if threadSystemOn s = 0 then Ok (- 1) (printError s)
      else case getNextSpot s of
        None \<Rightarrow> Ok (- 1) s
      | Some ttableLoc \<Rightarrow>
          let s = upd_thread ttableLoc (\<lambda>t. t\<lparr>tid := nexttid s, joinOnTid := - 1\<rparr>) s;
              s = s\<lparr>nexttid := s32 (nexttid s + 1)\<rparr>
          in (case malloc STACKSZ (uheap s) of
               None \<Rightarrow> Stuck
             | Some (stack, h) \<Rightarrow> with_ct (s\<lparr>uheap := h\<rparr>) (\<lambda>c.
                 let s = s\<lparr>uheap := h\<rparr>;
                     s = upd_thread ttableLoc (\<lambda>t. t\<lparr>tstack := stack,
                           ttf := (ttf (threadTable s ! c))\<lparr>tf_esp := stack + STACKSZ - 8,
                                    tf_ebp := stack + STACKSZ, tf_eip := threadEntry\<rparr>,
                           indexInThreadtable := ttableLoc\<rparr>) s;
                     s = s\<lparr>umem := store32 (umem s) (stack + STACKSZ - 4) arg\<rparr>;
                     s = s\<lparr>umem := store32 (umem s) (stack + STACKSZ - 8) (addr_uthread_exit s)\<rparr>
                 in Ok 0 (upd_thread ttableLoc (\<lambda>t. t\<lparr>tstate := T_READY\<rparr>) s))))"

definition uthread_init :: "uts \<Rightarrow> int ures" where
  "uthread_init s =
     (if threadSystemOn s \<noteq> 0 then Ok (- 1) s
      else
        let s = initThreadTable (s\<lparr>threadSystemOn := 1\<rparr>);
            s = upd_thread 0 (\<lambda>t. t\<lparr>tid := nexttid s\<rparr>) s;
            s = s\<lparr>nexttid := s32 (nexttid s + 1)\<rparr>;
            s = upd_thread 0 (\<lambda>t. t\<lparr>indexInThreadtable := 0, tstate := T_RUNNING, joinOnTid := - 1\<rparr>) s;
            s = s\<lparr>ct := Some 0, handler := addr_alarmHandler s\<rparr>
        in Ok 0 (sigsend_self s))"

definition uthread_self :: "uts \<Rightarrow> int ures" where
  "uthread_self s = with_ct s (\<lambda>c. Ok (tid (threadTable s ! c)) s)"

section \<open>Binary semaphores\<close>

definition bsem_alloc :: "uts \<Rightarrow> int \<times> uts" where
  "bsem_alloc s =
     (case find_idx (\<lambda>v. v = - 1) (semaphores s) of
        None \<Rightarrow> (- 1, s)
      | Some i \<Rightarrow> (int i, s\<lparr>semaphores := (semaphores s)[i := 1]\<rparr>))"

text \<open>An access \<open>semaphores[k]\<close>.\<close>

definition with_sem :: "int \<Rightarrow> uts \<Rightarrow> (nat \<Rightarrow> 'a ures) \<Rightarrow> 'a ures" where
  "with_sem k s f =
     (if 0 \<le> k \<and> nat k < length (semaphores s) then f (nat k) else Fault ''semaphores[semNum]'')"

definition bsem_free :: "int \<Rightarrow> uts \<Rightarrow> unit ures" where
  "bsem_free semNum s =
     (let s = s\<lparr>threadTable := map (\<lambda>t. if blockedOnSemaphore t = semNum
            then t\<lparr>blockedOnSemaphore := - 1, tstate := T_READY\<rparr> else t) (threadTable s)\<rparr>
      in with_sem semNum s (\<lambda>k. Ok () (s\<lparr>semaphores := (semaphores s)[k := - 1]\<rparr>)))"

text \<open>The part of \<open>bsem_down\<close> and of \<open>bsem_up\<close> after \<open>alarm(0)\<close> has stopped the scheduler.\<close>

definition bsem_down_body :: "nat \<Rightarrow> uts \<Rightarrow> unit ures" where
  "bsem_down_body k s =
     (let s = ualarm 0 s
      in if semaphores s ! k = 0
         then with_ct s (\<lambda>c. Ok () (sigsend_self
                (upd_thread c (\<lambda>t. t\<lparr>blockedOnSemaphore := int k, tstate := T_BLOCKED\<rparr>) s)))
         else Ok () (ualarm UTHREAD_QUANTA (s\<lparr>semaphores := (semaphores s)[k := 0]\<rparr>)))"

definition bsem_down :: "int \<Rightarrow> uts \<Rightarrow> unit ures" where
  "bsem_down semNum s = with_sem semNum s (\<lambda>k.
     if semaphores s ! k = - 1 then Ok () s else bsem_down_body k s)"

definition bsem_up_body :: "nat \<Rightarrow> uts \<Rightarrow> uts" where
  "bsem_up_body k s =
     (let s = ualarm 0 s;
          s = (case find_idx (\<lambda>t. blockedOnSemaphore t = int k) (threadTable s) of
                 Some i \<Rightarrow> upd_thread i (\<lambda>t. t\<lparr>blockedOnSemaphore := - 1, tstate := T_READY\<rparr>) s
               | None \<Rightarrow> s\<lparr>semaphores := (semaphores s)[k := 1]\<rparr>)
      in ualarm UTHREAD_QUANTA s)"

definition bsem_up :: "int \<Rightarrow> uts \<Rightarrow> unit ures" where
  "bsem_up semNum s = with_sem semNum s (\<lambda>k.
     if semaphores s ! k = - 1 then Ok () s else Ok () (bsem_up_body k s))"

section \<open>Choosing the next thread\<close>

lemmas ut_defs = upd_thread_def uptime_def sigsend_self_def ualarm_def printError_def

lemma wake_due_frame [simp]:
  "length (threadTable (wake_due i s)) = length (threadTable s)" "ct (wake_due i s) = ct s"
  "semaphores (wake_due i s) = semaphores s" "umem (wake_due i s) = umem s"
  "threadSystemOn (wake_due i s) = threadSystemOn s" "alrm (wake_due i s) = alrm s"
  "j \<noteq> i \<Longrightarrow> threadTable (wake_due i s) ! j = threadTable s ! j"
  by (simp_all add: wake_due_def uptime_def upd_thread_def)

text \<open>The scheduler changes threads from sleeping to ready only.\<close>

definition woken :: "thread \<Rightarrow> thread \<Rightarrow> bool" where
  "woken t t' \<longleftrightarrow> t' = t \<or> tstate t = T_SLEEPING \<and> t' = t\<lparr>tstate := T_READY\<rparr>"

lemma woken_trans: "woken t u \<Longrightarrow> woken u v \<Longrightarrow> woken t v"
  by (auto simp: woken_def)

lemma woken_fields:
  assumes "woken t t'"
  shows "tid t' = tid t" "ttf t' = ttf t" "indexInThreadtable t' = indexInThreadtable t"
    "blockedOnSemaphore t' = blockedOnSemaphore t" "joinOnTid t' = joinOnTid t" "tstack t' = tstack t"
    "tstate t \<noteq> T_SLEEPING \<Longrightarrow> t' = t" "tstate t = T_READY \<Longrightarrow> tstate t' = T_READY"
  using assms by (auto simp: woken_def)

lemma wake_due_woken: "i < length (threadTable s) \<Longrightarrow> woken (threadTable s ! j) (threadTable (wake_due i s) ! j)"
  by (cases "j = i") (auto simp: woken_def wake_due_def uptime_def upd_thread_def)

definition same_but_woken :: "uts \<Rightarrow> uts \<Rightarrow> bool" where
  "same_but_woken s t \<longleftrightarrow> length (threadTable t) = length (threadTable s) \<and> ct t = ct s \<and>
     semaphores t = semaphores s \<and> umem t = umem s \<and> threadSystemOn t = threadSystemOn s \<and>
     alrm t = alrm s \<and> (\<forall>j. woken (threadTable s ! j) (threadTable t ! j))"

lemma same_but_woken_refl: "same_but_woken s s"
  by (simp add: same_but_woken_def woken_def)

lemma same_but_woken_trans: "same_but_woken s t \<Longrightarrow> same_but_woken t u \<Longrightarrow> same_but_woken s u"
  unfolding same_but_woken_def using woken_trans by metis

lemma wake_due_same: "i < length (threadTable s) \<Longrightarrow> same_but_woken s (wake_due i s)"
  by (simp add: same_but_woken_def wake_due_woken)

text \<open>The scan stops at the first ready thread in cyclic order, and finds one if there is one.\<close>

lemma choose_scan_spec:
  assumes "length (threadTable s) = MAX_UTHREADS"
  shows "case choose_scan start i n s of
      (Some j, t) \<Rightarrow> same_but_woken s t \<and> tstate (threadTable t ! j) = T_READY \<and>
        (\<exists>k. i \<le> k \<and> k < i + n \<and> j = (start + k) mod MAX_UTHREADS \<and>
          (\<forall>l. i \<le> l \<longrightarrow> l < k \<longrightarrow> tstate (threadTable s ! ((start + l) mod MAX_UTHREADS)) \<noteq> T_READY))
    | (None, t) \<Rightarrow> same_but_woken s t \<and>
        (\<forall>l. i \<le> l \<longrightarrow> l < i + n \<longrightarrow> tstate (threadTable s ! ((start + l) mod MAX_UTHREADS)) \<noteq> T_READY)"
  using assms
proof (induction n arbitrary: i s)
  case 0
  then show ?case by (simp add: same_but_woken_refl)
next
  case (Suc n)
  let ?c = "(start + i) mod MAX_UTHREADS" and ?s = "wake_due ((start + i) mod MAX_UTHREADS) s"
  have w: "same_but_woken s ?s" using Suc.prems by (intro wake_due_same) simp
  show ?case
  proof (cases "tstate (threadTable ?s ! ?c) = T_READY")
    case True
    then have "choose_scan start i (Suc n) s = (Some ?c, ?s)" by (simp add: Let_def)
    then show ?thesis using True w by (auto intro!: exI [of _ i])
  next
    case False
    then have eq: "choose_scan start i (Suc n) s = choose_scan start (Suc i) n ?s" by (simp add: Let_def)
    have not: "tstate (threadTable s ! ?c) \<noteq> T_READY"
      using False w woken_fields(8) unfolding same_but_woken_def by metis
    have bwd: "tstate (threadTable s ! l) \<noteq> T_READY" if "tstate (threadTable ?s ! l) \<noteq> T_READY" for l
      using that w woken_fields(8) unfolding same_but_woken_def by metis
    have IH: "case choose_scan start (Suc i) n ?s of
      (Some j, t) \<Rightarrow> same_but_woken ?s t \<and> tstate (threadTable t ! j) = T_READY \<and>
        (\<exists>k. Suc i \<le> k \<and> k < Suc i + n \<and> j = (start + k) mod MAX_UTHREADS \<and>
          (\<forall>l. Suc i \<le> l \<longrightarrow> l < k \<longrightarrow> tstate (threadTable ?s ! ((start + l) mod MAX_UTHREADS)) \<noteq> T_READY))
    | (None, t) \<Rightarrow> same_but_woken ?s t \<and>
        (\<forall>l. Suc i \<le> l \<longrightarrow> l < Suc i + n \<longrightarrow> tstate (threadTable ?s ! ((start + l) mod MAX_UTHREADS)) \<noteq> T_READY)"
      by (rule Suc.IH) (simp add: Suc.prems)
    show ?thesis
    proof (cases "choose_scan start (Suc i) n ?s")
      case (Pair r t)
      have t: "same_but_woken s t" using IH w Pair same_but_woken_trans by (auto split: option.splits)
      show ?thesis
      proof (cases r)
        case None
        then show ?thesis using IH Pair eq t not bwd by (auto simp: all_ge_split [of i])
      next
        case (Some j)
        then obtain k where k: "Suc i \<le> k" "k < Suc i + n" "j = (start + k) mod MAX_UTHREADS"
          "\<forall>l. Suc i \<le> l \<longrightarrow> l < k \<longrightarrow> tstate (threadTable s ! ((start + l) mod MAX_UTHREADS)) \<noteq> T_READY"
          using IH Pair bwd by auto
        have "\<forall>l. i \<le> l \<longrightarrow> l < k \<longrightarrow> tstate (threadTable s ! ((start + l) mod MAX_UTHREADS)) \<noteq> T_READY"
          by (subst all_ge_split) (use k not in auto)
        then show ?thesis using IH Pair eq t k Some by (auto intro!: exI [of _ k])
      qed
    qed
  qed
qed

section \<open>Switching\<close>

text \<open>How many slots after \<open>c\<close> the slot \<open>j\<close> comes in cyclic order; \<open>c\<close> itself comes last.\<close>

definition cdist :: "nat \<Rightarrow> nat \<Rightarrow> nat" where
  "cdist c j = (if c < j then j - c else j + MAX_UTHREADS - c)"

lemma cdist_bounds: "c < MAX_UTHREADS \<Longrightarrow> j < MAX_UTHREADS \<Longrightarrow> 1 \<le> cdist c j \<and> cdist c j \<le> MAX_UTHREADS"
  by (auto simp: cdist_def)

lemma mod_cdist:
  assumes "c < MAX_UTHREADS" "1 \<le> k" "k \<le> MAX_UTHREADS"
  shows "(c + k) mod MAX_UTHREADS = (if c + k < MAX_UTHREADS then c + k else c + k - MAX_UTHREADS)"
  using assms by (simp add: le_mod_geq)

lemma cdist_mod:
  assumes "c < MAX_UTHREADS" "1 \<le> k" "k \<le> MAX_UTHREADS"
  shows "cdist c ((c + k) mod MAX_UTHREADS) = k"
  using assms by (auto simp: mod_cdist cdist_def)

lemma mod_of_cdist: "c < MAX_UTHREADS \<Longrightarrow> j < MAX_UTHREADS \<Longrightarrow> (c + cdist c j) mod MAX_UTHREADS = j"
  using cdist_bounds [of c j] by (auto simp: mod_cdist cdist_def)

text \<open>Passing a slot on the way to \<open>j\<close> brings \<open>j\<close> closer.\<close>

lemma cdist_closer:
  assumes "c < MAX_UTHREADS" "i < MAX_UTHREADS" "j < MAX_UTHREADS" "cdist c i < cdist c j"
  shows "cdist i j = cdist c j - cdist c i"
  using assms by (auto simp: cdist_def split: if_splits)

text \<open>The two halves of \<open>uthread_schedule\<close> around the choice.\<close>

definition frame_at :: "u32 \<Rightarrow> uts \<Rightarrow> trapframe" where
  "frame_at fp s = bytes_tf (load_bytes (umem s) fp 76)"

definition saved :: "u32 \<Rightarrow> nat \<Rightarrow> uts \<Rightarrow> uts" where
  "saved fp c s = upd_thread c (\<lambda>t. t\<lparr>ttf := frame_at fp s,
     tstate := (if tstate t = T_RUNNING then T_READY else tstate t)\<rparr>) s"

definition switched :: "u32 \<Rightarrow> nat \<Rightarrow> uts \<Rightarrow> uts" where
  "switched fp i s = s\<lparr>ct := Some i, umem := store_bytes (umem s) fp (tf_bytes (ttf (threadTable s ! i))),
     threadTable := (threadTable s)[i := (threadTable s ! i)\<lparr>tstate := T_RUNNING\<rparr>],
     alrm := Armed UTHREAD_QUANTA\<rparr>"

lemma schedule_split:
  assumes "ct s = Some c" "c < length (threadTable s)"
  shows "uthread_schedule fp s =
    (case choose_loop c (saved fp c s) of None \<Rightarrow> Stuck | Some (i, t) \<Rightarrow> Ok () (switched fp i t))"
proof -
  have "(let s = upd_thread c (\<lambda>t. t\<lparr>ttf := bytes_tf (load_bytes (umem s) fp 76)\<rparr>) s
      in if tstate (threadTable s ! c) = T_RUNNING
         then upd_thread c (\<lambda>t. t\<lparr>tstate := T_READY\<rparr>) s else s) = saved fp c s"
    using assms(2) by (simp add: saved_def frame_at_def upd_thread_def Let_def)
  then show ?thesis using assms(1)
    by (simp add: uthread_schedule_def with_ct_def Let_def switched_def upd_thread_def ualarm_def
        split: option.split)
qed

lemma choose_ready:
  assumes "length (threadTable s) = MAX_UTHREADS" "c < MAX_UTHREADS"
    "indexInThreadtable (threadTable s ! c) = c" "j < MAX_UTHREADS" "tstate (threadTable s ! j) = T_READY"
  shows "\<exists>i t. choose_loop c s = Some (i, t) \<and> same_but_woken s t \<and> i < MAX_UTHREADS \<and>
    tstate (threadTable t ! i) = T_READY \<and> cdist c i \<le> cdist c j"
proof -
  note d = cdist_bounds [OF assms(2,4)] and m = mod_of_cdist [OF assms(2,4)]
  note spec = choose_scan_spec [OF assms(1), where start = c and i = 1 and n = MAX_UTHREADS]
  obtain r t where rt: "choose_scan c 1 MAX_UTHREADS s = (r, t)" by fastforce
  have "r \<noteq> None"
  proof
    assume "r = None"
    then have "tstate (threadTable s ! ((c + cdist c j) mod MAX_UTHREADS)) \<noteq> T_READY"
      using spec d unfolding rt by auto
    then show False using assms(5) m by simp
  qed
  then obtain i where r: "r = Some i" by auto
  then obtain k where k: "1 \<le> k" "k < 1 + MAX_UTHREADS" "i = (c + k) mod MAX_UTHREADS"
    "\<forall>l. 1 \<le> l \<longrightarrow> l < k \<longrightarrow> tstate (threadTable s ! ((c + l) mod MAX_UTHREADS)) \<noteq> T_READY"
    and t: "same_but_woken s t" "tstate (threadTable t ! i) = T_READY"
    using spec unfolding rt by auto
  have "cdist c i = k" using k(1-3) assms(2) by (simp add: cdist_mod)
  moreover have "k \<le> cdist c j" using k(4) d m assms(5) by (metis not_le)
  moreover have "i < MAX_UTHREADS" using k(3) by simp
  moreover have "choose_loop c s = Some (i, t)"
    using rt r assms(3) by (subst choose_loop.simps) (simp add: chooseNextThread_def)
  ultimately show ?thesis using t by auto
qed

lemma schedule_ready:
  assumes "length (threadTable s) = MAX_UTHREADS" "ct s = Some c" "c < MAX_UTHREADS"
    "indexInThreadtable (threadTable s ! c) = c" "j < MAX_UTHREADS"
    "tstate (threadTable s ! j) = T_READY \<or> j = c \<and> tstate (threadTable s ! c) = T_RUNNING"
  shows "\<exists>i t. uthread_schedule fp s = Ok () (switched fp i t) \<and> same_but_woken (saved fp c s) t \<and>
    i < MAX_UTHREADS \<and> tstate (threadTable t ! i) = T_READY \<and> cdist c i \<le> cdist c j"
proof -
  have "length (threadTable (saved fp c s)) = MAX_UTHREADS"
    "indexInThreadtable (threadTable (saved fp c s) ! c) = c"
    "tstate (threadTable (saved fp c s) ! j) = T_READY"
    using assms by (auto simp: saved_def upd_thread_def nth_list_update)
  from choose_ready [OF this(1) assms(3) this(2) assms(5) this(3)]
  obtain i t where "choose_loop c (saved fp c s) = Some (i, t)" "same_but_woken (saved fp c s) t"
    "i < MAX_UTHREADS" "tstate (threadTable t ! i) = T_READY" "cdist c i \<le> cdist c j"
    by (elim exE conjE)
  then show ?thesis using schedule_split [OF assms(2), of fp] assms(1,3)
    by (intro exI [of _ i] exI [of _ t]) simp
qed

text \<open>What the scheduler needs of the table, and that it keeps it.\<close>

definition sched_ok :: "uts \<Rightarrow> bool" where
  "sched_ok s \<longleftrightarrow> length (threadTable s) = MAX_UTHREADS \<and>
     (\<exists>c < MAX_UTHREADS. ct s = Some c \<and> indexInThreadtable (threadTable s ! c) = c) \<and>
     (\<forall>i < MAX_UTHREADS. tstate (threadTable s ! i) \<noteq> T_TERMINATED \<longrightarrow>
        indexInThreadtable (threadTable s ! i) = i)"

lemma woken_terminated: "woken t t' \<Longrightarrow> tstate t' = T_TERMINATED \<longleftrightarrow> tstate t = T_TERMINATED"
  by (auto simp: woken_def)

lemma sched_ok_switched:
  assumes "sched_ok s" "ct s = Some c" "same_but_woken (saved fp c s) t" "i < MAX_UTHREADS"
    "tstate (threadTable t ! i) = T_READY"
  shows "sched_ok (switched fp i t)"
proof -
  have len: "length (threadTable t) = MAX_UTHREADS"
    using assms(1,3) by (simp add: sched_ok_def same_but_woken_def saved_def upd_thread_def)
  have idx: "indexInThreadtable (threadTable t ! k) = k"
    if "k < MAX_UTHREADS" "tstate (threadTable t ! k) \<noteq> T_TERMINATED" for k
  proof -
    have w: "woken (threadTable (saved fp c s) ! k) (threadTable t ! k)"
      using assms(3) by (simp add: same_but_woken_def)
    have "tstate (threadTable s ! k) \<noteq> T_TERMINATED"
      using that woken_terminated [OF w] assms(1)
      by (cases "k = c") (auto simp: saved_def upd_thread_def sched_ok_def split: if_splits)
    then have "indexInThreadtable (threadTable s ! k) = k" using assms(1) that(1) by (simp add: sched_ok_def)
    then show ?thesis using woken_fields(3) [OF w] assms(1) that(1)
      by (cases "k = c") (auto simp: saved_def upd_thread_def sched_ok_def)
  qed
  then show ?thesis using len assms(4,5) by (auto simp: sched_ok_def switched_def nth_list_update)
qed

text \<open>A run of the library: the current thread does something for its quantum, then the alarm
  switches; \<open>n\<close> times.\<close>

fun turns :: "u32 \<Rightarrow> (uts \<Rightarrow> uts) \<Rightarrow> nat \<Rightarrow> uts \<Rightarrow> unit ures" where
  "turns fp run 0 s = Ok () s"
| "turns fp run (Suc n) s = seq (uthread_schedule fp (run s)) (turns fp run n)"

text \<open>The contexts of the threads: the running thread's is the frame on the stack, the others'
  are in the table.\<close>

definition context_of :: "u32 \<Rightarrow> uts \<Rightarrow> nat \<Rightarrow> trapframe" where
  "context_of fp s k = (if ct s = Some k then frame_at fp s else ttf (threadTable s ! k))"

lemma context_of_switched:
  assumes "ct s = Some c" "c < length (threadTable s)" "same_but_woken (saved fp c s) t"
    "i < length (threadTable t)"
  shows "context_of fp (switched fp i t) k = context_of fp s k"
proof -
  have w: "woken (threadTable (saved fp c s) ! k) (threadTable t ! k)" for k
    using assms(3) by (simp add: same_but_woken_def)
  have tt: "ttf (threadTable t ! k) = context_of fp s k" for k
    using woken_fields(2) [OF w] assms(1,2)
    by (cases "k = c") (simp_all add: context_of_def saved_def upd_thread_def)
  have "frame_at fp (switched fp i t) = ttf (threadTable t ! i)"
    by (simp add: frame_at_def switched_def load_store_bytes)
  then show ?thesis using tt assms(4)
    by (cases "k = i") (simp_all add: context_of_def [of fp "switched fp i t"], simp_all add: switched_def)
qed

section \<open>Properties of the scheduler\<close>

text \<open>A table with the main thread running and one more thread, in slot 5, ready.\<close>

definition thread0 :: thread where
  "thread0 = \<lparr>tid = 0, tstack = 0, tstate = T_TERMINATED, ttf = tf0, indexInThreadtable = 0,
     wakeUpTime = 0, blockedOnSemaphore = - 1, joinOnTid = - 1\<rparr>"

definition uts0 :: uts where
  "uts0 = \<lparr>threadTable = map (\<lambda>i. thread0\<lparr>indexInThreadtable := i, tid := int i,
       tstate := (if i = 0 then T_RUNNING else if i = 5 then T_READY else T_TERMINATED)\<rparr>) [0..<MAX_UTHREADS],
     nexttid = 6, ct = Some 0, threadSystemOn = 1, semaphores = replicate MAX_BSEM (- 1),
     uheap = \<lparr>hptr = \<lambda>_. 0, hsize = \<lambda>_. 0, hbase = 0x2000, freep = 0, brk = 0x4000, grant = \<lambda>_ _. True\<rparr>,
     umem = \<lambda>_. 0, uptimes = \<lambda>n. int n, nuptime = 0, alrm = Armed 5, handler = 0, uout = [],
     addr_uthread_exit = 0x400, addr_alarmHandler = 0x500\<rparr>"

lemma uts0_table:
  "i < MAX_UTHREADS \<Longrightarrow> threadTable uts0 ! i = thread0\<lparr>indexInThreadtable := i, tid := int i,
     tstate := (if i = 0 then T_RUNNING else if i = 5 then T_READY else T_TERMINATED)\<rparr>"
  "length (threadTable uts0) = MAX_UTHREADS" "ct uts0 = Some 0" "alrm uts0 = Armed 5"
  "semaphores uts0 = replicate MAX_BSEM (- 1)"
  by (simp_all add: uts0_def del: upt_rec_numeral)

lemma sched_ok_uts0: "sched_ok uts0"
  by (auto simp: sched_ok_def uts0_table)



text \<open>C30: round robin. A ready thread runs after at most as many switches as its distance from
  the current thread in the table, whatever the threads in between do in their quanta, as
  long as they leave it ready.\<close>

theorem uthread_round_robin:
  assumes "sched_ok s" and "ct s = Some c" and "j < MAX_UTHREADS"
    and "tstate (threadTable s ! j) = T_READY"
    and "\<And>s. sched_ok s \<Longrightarrow> tstate (threadTable s ! j) = T_READY \<Longrightarrow>
      sched_ok (run s) \<and> ct (run s) = ct s \<and> tstate (threadTable (run s) ! j) = T_READY"
  shows "\<exists>n t. n \<le> cdist c j \<and> turns fp run n s = Ok () t \<and> ct t = Some j \<and>
    tstate (threadTable t ! j) = T_RUNNING"
  using assms(1,2,4)
proof (induction "cdist c j" arbitrary: c s rule: less_induct)
  case less
  have r: "sched_ok (run s)" "ct (run s) = Some c" "tstate (threadTable (run s) ! j) = T_READY"
    using assms(5) [OF less.prems(1,3)] less.prems(2) by simp_all
  have s: "length (threadTable (run s)) = MAX_UTHREADS" "c < MAX_UTHREADS"
    "indexInThreadtable (threadTable (run s) ! c) = c"
    using r(1,2) by (auto simp: sched_ok_def)
  obtain i t where t: "uthread_schedule fp (run s) = Ok () (switched fp i t)"
    "same_but_woken (saved fp c (run s)) t" "i < MAX_UTHREADS" "tstate (threadTable t ! i) = T_READY"
    "cdist c i \<le> cdist c j"
    using schedule_ready [OF s(1) r(2) s(2,3) assms(3) disjI1 [OF r(3)], of fp] by (elim exE conjE)
  have len: "length (threadTable t) = MAX_UTHREADS"
    using t(2) s(1) by (simp add: same_but_woken_def saved_def upd_thread_def)
  show ?case
  proof (cases "i = j")
    case True
    then show ?thesis using t(1,3) len cdist_bounds [OF s(2) assms(3)]
      by (intro exI [of _ 1] exI [of _ "switched fp i t"]) (simp add: switched_def)
  next
    case False
    then have "cdist c i < cdist c j"
      using t(5) mod_of_cdist [OF s(2) t(3)] mod_of_cdist [OF s(2) assms(3)] by (cases "cdist c i = cdist c j") auto
    then have d: "cdist i j < cdist c j" "cdist i j = cdist c j - cdist c i"
      using cdist_closer [OF s(2) t(3) assms(3)] cdist_bounds [OF s(2) t(3)] by simp_all
    have "tstate (threadTable (saved fp c (run s)) ! j) = T_READY"
      using r(3) s by (cases "j = c") (simp_all add: saved_def upd_thread_def)
    moreover have "woken (threadTable (saved fp c (run s)) ! j) (threadTable t ! j)"
      using t(2) by (simp add: same_but_woken_def)
    ultimately have "tstate (threadTable (switched fp i t) ! j) = T_READY"
      using False by (simp add: switched_def woken_fields(8))
    then obtain n u where u: "n \<le> cdist i j" "turns fp run n (switched fp i t) = Ok () u" "ct u = Some j"
      "tstate (threadTable u ! j) = T_RUNNING"
      using less.hyps [OF d(1) sched_ok_switched [OF r(1,2) t(2-4)]] by (auto simp: switched_def)
    then show ?thesis using t(1) d(1) by (intro exI [of _ "Suc n"] exI [of _ u]) simp
  qed
qed

theorem uthread_round_robin_witness:
  "sched_ok uts0 \<and> (\<exists>n t. n \<le> 5 \<and> turns 0x3000 id n uts0 = Ok () t \<and> ct t = Some 5)"
  using uthread_round_robin [OF sched_ok_uts0 uts0_table(3), of 5 id "0x3000"] sched_ok_uts0
  by (auto simp: uts0_table cdist_def)

end
