(* ===== verification/Usemaphore.thy ===== *)
theory Usemaphore
  imports Uthread
begin

text \<open>
  Counting semaphores (usemaphore.c), built from two binary semaphores of uthread.c. The
  interface between the two, \<open>bsem_lib\<close>, says what \<open>bsem_down\<close> and \<open>bsem_up\<close> do to the value of a
  binary semaphore and to the set of threads that wait for it; the correctness of \<open>down\<close>
  and \<open>up\<close> is proved from it for any interleaving of the threads.
\<close>

section \<open>Operations\<close>

record counting_semaphore =
  binSemNum1 :: int
  binSemNum2 :: int
  cvalue :: int

text \<open>The counting semaphores live in the heap; \<open>cs\<close> is the part of memory that holds them.\<close>

definition allocSem :: "int \<Rightarrow> (u32 \<Rightarrow> counting_semaphore) \<Rightarrow> uts \<Rightarrow> (u32 \<times> (u32 \<Rightarrow> counting_semaphore)) ures" where
  "allocSem enterVal cs s =
     (case malloc 12 (uheap s) of
        None \<Rightarrow> Stuck
      | Some (semPtr, h) \<Rightarrow>
          (case bsem_alloc (s\<lparr>uheap := h\<rparr>) of (n1, s) \<Rightarrow>
          (case bsem_alloc s of (n2, s) \<Rightarrow>
             if n1 = - 1 \<or> n2 = - 1 then Ok (0, cs) s
             else let c = (cs semPtr)\<lparr>binSemNum1 := n1, binSemNum2 := n2\<rparr>
                  in seq (if enterVal = 0 then bsem_down n2 s else Ok () s) (\<lambda>s.
                     Ok (semPtr, cs(semPtr := c\<lparr>cvalue := enterVal\<rparr>)) s))))"

definition freeSem :: "u32 \<Rightarrow> (u32 \<Rightarrow> counting_semaphore) \<Rightarrow> uts \<Rightarrow> unit ures" where
  "freeSem sem cs s =
     seq (bsem_free (binSemNum1 (cs sem)) s) (\<lambda>s.
     seq (bsem_free (binSemNum2 (cs sem)) s) (\<lambda>s.
     case ufree sem (uheap s) of None \<Rightarrow> Stuck | Some h \<Rightarrow> Ok () (s\<lparr>uheap := h\<rparr>)))"

text \<open>A thread inside \<open>down\<close> or \<open>up\<close> is at one of these statements. Each statement is a step, since
  the scheduler may switch threads between any two of them.\<close>

datatype cpc = Idle
  | D_S2 | D_S1 | D_dec | D_test | D_upS2 | D_upS1
  | U_S1 | U_inc | U_test | U_upS2 | U_upS1

text \<open>One statement of \<open>down\<close>, for the binary semaphore operations \<open>bd\<close> and \<open>bu\<close>. The result is
  the next statement and the counting semaphore.\<close>

fun down_step :: "(int \<Rightarrow> 's \<Rightarrow> (unit, 's) outcome) \<Rightarrow> (int \<Rightarrow> 's \<Rightarrow> (unit, 's) outcome) \<Rightarrow>
    cpc \<Rightarrow> counting_semaphore \<Rightarrow> 's \<Rightarrow> (cpc \<times> counting_semaphore, 's) outcome" where
  "down_step bd bu D_S2 sem s = seq (bd (binSemNum2 sem) s) (Ok (D_S1, sem))"
| "down_step bd bu D_S1 sem s = seq (bd (binSemNum1 sem) s) (Ok (D_dec, sem))"
| "down_step bd bu D_dec sem s =
     (if cvalue sem = - (2 ^ 31) then Fault ''overflow'' else Ok (D_test, sem\<lparr>cvalue := cvalue sem - 1\<rparr>) s)"
| "down_step bd bu D_test sem s = Ok (if cvalue sem > 0 then D_upS2 else D_upS1, sem) s"
| "down_step bd bu D_upS2 sem s = seq (bu (binSemNum2 sem) s) (Ok (D_upS1, sem))"
| "down_step bd bu D_upS1 sem s = seq (bu (binSemNum1 sem) s) (Ok (Idle, sem))"
| "down_step bd bu _ sem s = Fault ''not in down''"

fun up_step :: "(int \<Rightarrow> 's \<Rightarrow> (unit, 's) outcome) \<Rightarrow> (int \<Rightarrow> 's \<Rightarrow> (unit, 's) outcome) \<Rightarrow>
    cpc \<Rightarrow> counting_semaphore \<Rightarrow> 's \<Rightarrow> (cpc \<times> counting_semaphore, 's) outcome" where
  "up_step bd bu U_S1 sem s = seq (bd (binSemNum1 sem) s) (Ok (U_inc, sem))"
| "up_step bd bu U_inc sem s =
     (if cvalue sem = 2 ^ 31 - 1 then Fault ''overflow'' else Ok (U_test, sem\<lparr>cvalue := cvalue sem + 1\<rparr>) s)"
| "up_step bd bu U_test sem s = Ok (if cvalue sem = 1 then U_upS2 else U_upS1, sem) s"
| "up_step bd bu U_upS2 sem s = seq (bu (binSemNum2 sem) s) (Ok (U_upS1, sem))"
| "up_step bd bu U_upS1 sem s = seq (bu (binSemNum1 sem) s) (Ok (Idle, sem))"
| "up_step bd bu _ sem s = Fault ''not in up''"

section \<open>Threads that use one counting semaphore\<close>

text \<open>\<open>cur\<close> is the thread that may execute, if any; \<open>ndown\<close> and \<open>nup\<close> count the decrements and
  increments so far.\<close>

record 's csys =
  lib :: 's
  csem :: counting_semaphore
  pcof :: "nat \<Rightarrow> cpc"
  ndown :: nat
  nup :: nat

inductive csem_step :: "(int \<Rightarrow> 's \<Rightarrow> (unit, 's) outcome) \<Rightarrow> (int \<Rightarrow> 's \<Rightarrow> (unit, 's) outcome) \<Rightarrow>
    ('s \<Rightarrow> nat option) \<Rightarrow> ('s \<Rightarrow> 's \<Rightarrow> bool) \<Rightarrow> 's csys \<Rightarrow> 's csys \<Rightarrow> bool"
  for bd bu cur switch where
  call_down: "cur (lib m) = Some c \<Longrightarrow> pcof m c = Idle \<Longrightarrow>
    csem_step bd bu cur switch m (m\<lparr>pcof := (pcof m)(c := D_S2)\<rparr>)"
| call_up: "cur (lib m) = Some c \<Longrightarrow> pcof m c = Idle \<Longrightarrow>
    csem_step bd bu cur switch m (m\<lparr>pcof := (pcof m)(c := U_S1)\<rparr>)"
| in_down: "cur (lib m) = Some c \<Longrightarrow> down_step bd bu (pcof m c) (csem m) (lib m) = Ok (pc', sem') s' \<Longrightarrow>
    csem_step bd bu cur switch m (m\<lparr>lib := s', csem := sem', pcof := (pcof m)(c := pc'),
      ndown := ndown m + (if pcof m c = D_dec then 1 else 0)\<rparr>)"
| in_up: "cur (lib m) = Some c \<Longrightarrow> up_step bd bu (pcof m c) (csem m) (lib m) = Ok (pc', sem') s' \<Longrightarrow>
    csem_step bd bu cur switch m (m\<lparr>lib := s', csem := sem', pcof := (pcof m)(c := pc'),
      nup := nup m + (if pcof m c = U_inc then 1 else 0)\<rparr>)"
| switch_thread: "switch (lib m) s' \<Longrightarrow> csem_step bd bu cur switch m (m\<lparr>lib := s'\<rparr>)"

inductive csem_reach :: "(int \<Rightarrow> 's \<Rightarrow> (unit, 's) outcome) \<Rightarrow> (int \<Rightarrow> 's \<Rightarrow> (unit, 's) outcome) \<Rightarrow>
    ('s \<Rightarrow> nat option) \<Rightarrow> ('s \<Rightarrow> 's \<Rightarrow> bool) \<Rightarrow> 's csys \<Rightarrow> 's csys \<Rightarrow> bool"
  for bd bu cur switch m0 where
  start: "csem_reach bd bu cur switch m0 m0"
| step: "csem_reach bd bu cur switch m0 m \<Longrightarrow> csem_step bd bu cur switch m m' \<Longrightarrow>
    csem_reach bd bu cur switch m0 m'"

section \<open>The invariant\<close>

text \<open>\<open>o1\<close> is the thread that has passed \<open>bsem_down\<close> on the first binary semaphore and not yet
  released it, \<open>o2\<close> the thread that carries the permit of the second one. There is such a permit,
  in the semaphore or with a thread, exactly when the value is positive.\<close>

definition in_S1 :: "cpc \<Rightarrow> bool" where
  "in_S1 p \<longleftrightarrow> p \<in> {D_dec, D_test, D_upS2, D_upS1, U_inc, U_test, U_upS2, U_upS1}"

definition carries :: "cpc \<Rightarrow> bool \<Rightarrow> int \<Rightarrow> bool" where
  "carries p waiting v \<longleftrightarrow> p = D_S1 \<and> \<not> waiting \<or> p = D_dec \<or> p = D_upS2 \<or> p = U_upS2 \<or>
     p = D_test \<and> v > 0 \<or> p = U_test \<and> v = 1"

definition cpoint :: "int \<Rightarrow> int \<Rightarrow> nat option \<Rightarrow> nat option \<Rightarrow> int \<Rightarrow> nat \<Rightarrow> int \<Rightarrow> cpc \<Rightarrow> bool" where
  "cpoint b1 b2 o1 o2 v i w p \<longleftrightarrow>
     (w = - 1 \<or> w = b1 \<and> (p = D_dec \<or> p = U_inc) \<or> w = b2 \<and> p = D_S1) \<and>
     (in_S1 p \<and> w \<noteq> b1 \<longleftrightarrow> o1 = Some i) \<and>
     (carries p (w = b2) v \<longleftrightarrow> o2 = Some i) \<and>
     (o1 = None \<longrightarrow> w \<noteq> b1) \<and>
     (o2 = None \<and> v > 0 \<longrightarrow> w \<noteq> b2)"

definition cglobal :: "int \<Rightarrow> int \<Rightarrow> nat option \<Rightarrow> nat option \<Rightarrow> int \<Rightarrow> int \<Rightarrow> int \<Rightarrow> bool" where
  "cglobal b1 b2 o1 o2 v x1 x2 \<longleftrightarrow>
     b1 \<noteq> b2 \<and> b1 \<noteq> - 1 \<and> b2 \<noteq> - 1 \<and> 0 \<le> v \<and> x1 = (if o1 = None then 1 else 0) \<and>
     x2 = (if o2 = None \<and> v > 0 then 1 else 0) \<and> (v = 0 \<longrightarrow> o2 = None)"

definition cinv :: "int \<Rightarrow> int \<Rightarrow> nat option \<Rightarrow> nat option \<Rightarrow> (int \<Rightarrow> int) \<Rightarrow> (nat \<Rightarrow> int) \<Rightarrow>
    (nat \<Rightarrow> cpc) \<Rightarrow> int \<Rightarrow> bool" where
  "cinv b1 b2 o1 o2 bv wt pc v \<longleftrightarrow> cglobal b1 b2 o1 o2 v (bv b1) (bv b2) \<and>
     (\<forall>i. cpoint b1 b2 o1 o2 v i (wt i) (pc i))"

lemma cinvI:
  "cglobal b1 b2 o1 o2 v (bv b1) (bv b2) \<Longrightarrow> (\<And>i. cpoint b1 b2 o1 o2 v i (wt i) (pc i)) \<Longrightarrow>
    cinv b1 b2 o1 o2 bv wt pc v"
  by (simp add: cinv_def)

lemma cinvD:
  assumes "cinv b1 b2 o1 o2 bv wt pc v"
  shows "cglobal b1 b2 o1 o2 v (bv b1) (bv b2)" "cpoint b1 b2 o1 o2 v i (wt i) (pc i)"
  using assms by (simp_all add: cinv_def)

lemmas cinv_defs = cpoint_def cglobal_def in_S1_def carries_def

text \<open>How each statement of the running thread \<open>c\<close> changes the two owners. When \<open>bsem_up\<close> wakes a
  thread, the permit goes to it directly.\<close>

lemma cinv_call:
  assumes "cinv b1 b2 o1 o2 bv wt pc v" "pc c = Idle" "wt c = - 1" "p = D_S2 \<or> p = U_S1"
  shows "cinv b1 b2 o1 o2 bv wt (pc(c := p)) v"
proof (rule cinvI)
  show "cglobal b1 b2 o1 o2 v (bv b1) (bv b2)" by (rule cinvD [OF assms(1)])
  have "cpoint b1 b2 o1 o2 v c (wt c) p"
    using cinvD(2) [OF assms(1), of c] assms(2-4) by (auto simp: cinv_defs)
  then show "cpoint b1 b2 o1 o2 v i (wt i) ((pc(c := p)) i)" for i
    using cinvD(2) [OF assms(1), of i] by simp
qed

lemma cinv_down2:
  assumes "cinv b1 b2 o1 o2 bv wt pc v" "pc c = D_S2" "wt c = - 1"
  shows "bv b2 = 1 \<Longrightarrow> cinv b1 b2 o1 (Some c) (bv(b2 := 0)) wt (pc(c := D_S1)) v"
    "bv b2 = 0 \<Longrightarrow> cinv b1 b2 o1 o2 bv (wt(c := b2)) (pc(c := D_S1)) v"
proof -
  note g = cinvD(1) [OF assms(1)] and c = cinvD(2) [OF assms(1), of c]
  have b: "b1 \<noteq> b2" "b1 \<noteq> - 1" "b2 \<noteq> - 1" using g by (simp_all add: cglobal_def)
  show "cinv b1 b2 o1 (Some c) (bv(b2 := 0)) wt (pc(c := D_S1)) v" if "bv b2 = 1"
  proof (rule cinvI)
    have v: "o2 = None" "0 < v" using g that by (auto simp: cglobal_def split: if_splits)
    show "cglobal b1 b2 o1 (Some c) v ((bv(b2 := 0)) b1) ((bv(b2 := 0)) b2)"
      using g v by (auto simp: cglobal_def)
    have "cpoint b1 b2 o1 (Some c) v c (wt c) D_S1" using c b v assms(2,3) by (simp add: cinv_defs)
    moreover have "cpoint b1 b2 o1 (Some c) v i (wt i) (pc i)" if "i \<noteq> c" for i
      using cinvD(2) [OF assms(1), of i] v that by (auto simp: cpoint_def)
    ultimately show "cpoint b1 b2 o1 (Some c) v i (wt i) ((pc(c := D_S1)) i)" for i by simp
  qed
  show "cinv b1 b2 o1 o2 bv (wt(c := b2)) (pc(c := D_S1)) v" if "bv b2 = 0"
  proof (rule cinvI)
    have v: "o2 \<noteq> None \<or> \<not> 0 < v" using g that by (auto simp: cglobal_def split: if_splits)
    show "cglobal b1 b2 o1 o2 v (bv b1) (bv b2)" by (rule g)
    have "cpoint b1 b2 o1 o2 v c b2 D_S1" using c b v assms(2,3) by (auto simp: cinv_defs)
    then show "cpoint b1 b2 o1 o2 v i ((wt(c := b2)) i) ((pc(c := D_S1)) i)" for i
      using cinvD(2) [OF assms(1), of i] by simp
  qed
qed

lemma cinv_down1:
  assumes "cinv b1 b2 o1 o2 bv wt pc v" "wt c = - 1" "pc c = D_S1 \<and> p = D_dec \<or> pc c = U_S1 \<and> p = U_inc"
  shows "bv b1 = 1 \<Longrightarrow> cinv b1 b2 (Some c) o2 (bv(b1 := 0)) wt (pc(c := p)) v"
    "bv b1 = 0 \<Longrightarrow> cinv b1 b2 o1 o2 bv (wt(c := b1)) (pc(c := p)) v"
proof -
  note g = cinvD(1) [OF assms(1)] and c = cinvD(2) [OF assms(1), of c]
  have b: "b1 \<noteq> b2" "b1 \<noteq> - 1" "b2 \<noteq> - 1" using g by (simp_all add: cglobal_def)
  show "cinv b1 b2 (Some c) o2 (bv(b1 := 0)) wt (pc(c := p)) v" if "bv b1 = 1"
  proof (rule cinvI)
    have o: "o1 = None" using g that by (auto simp: cglobal_def split: if_splits)
    show "cglobal b1 b2 (Some c) o2 v ((bv(b1 := 0)) b1) ((bv(b1 := 0)) b2)"
      using g by (simp add: cglobal_def)
    have "cpoint b1 b2 (Some c) o2 v c (wt c) p"
      using c b o assms(2,3) by (elim disjE) (simp_all add: cinv_defs)
    moreover have "cpoint b1 b2 (Some c) o2 v i (wt i) (pc i)" if "i \<noteq> c" for i
      using cinvD(2) [OF assms(1), of i] o that by (auto simp: cpoint_def)
    ultimately show "cpoint b1 b2 (Some c) o2 v i (wt i) ((pc(c := p)) i)" for i by simp
  qed
  show "cinv b1 b2 o1 o2 bv (wt(c := b1)) (pc(c := p)) v" if "bv b1 = 0"
  proof (rule cinvI)
    have "\<not> in_S1 (pc c)" using assms(3) by (auto simp: in_S1_def)
    then have o: "o1 \<noteq> None" "o1 \<noteq> Some c"
      using g c that by (auto simp: cglobal_def cpoint_def simp del: not_None_eq split: if_splits)
    show "cglobal b1 b2 o1 o2 v (bv b1) (bv b2)" by (rule g)
    have "cpoint b1 b2 o1 o2 v c b1 p" using c b o assms(2,3) by (elim disjE) (simp_all add: cinv_defs)
    then show "cpoint b1 b2 o1 o2 v i ((wt(c := b1)) i) ((pc(c := p)) i)" for i
      using cinvD(2) [OF assms(1), of i] by simp
  qed
qed

text \<open>Between the tests of the value and the \<open>bsem_up\<close> calls no other thread is inside, so changing
  the value affects the running thread only.\<close>

lemma cpoint_value:
  assumes "cpoint b1 b2 (Some c) o2 v i w p" "i \<noteq> c" "o2 = Some c \<or> o2' = o2"
    "o2' = None \<or> o2' = Some c \<or> o2' = o2" "o2' = None \<and> v' > 0 \<longrightarrow> o2 = None \<and> v > 0"
    "b1 \<noteq> - 1"
  shows "cpoint b1 b2 (Some c) o2' v' i w p"
proof -
  have "p \<noteq> D_test" "p \<noteq> U_test" using assms(1,2,6) by (auto simp: cpoint_def in_S1_def)
  then have "carries p (w = b2) v' = carries p (w = b2) v" by (simp add: carries_def)
  then show ?thesis using assms by (auto simp: cpoint_def)
qed

lemma cinv_dec:
  assumes "cinv b1 b2 o1 o2 bv wt pc v" "wt c = - 1" "pc c = D_dec"
  shows "0 < v" "cinv b1 b2 o1 (if v = 1 then None else Some c) bv wt (pc(c := D_test)) (v - 1)"
proof -
  note g = cinvD(1) [OF assms(1)] and c = cinvD(2) [OF assms(1), of c]
  have b: "b1 \<noteq> b2" "b1 \<noteq> - 1" "b2 \<noteq> - 1" using g by (simp_all add: cglobal_def)
  have owner: "o1 = Some c" "o2 = Some c" using assms(2,3) c b by (simp_all add: cinv_defs)
  show v: "0 < v" using g owner by (cases "v = 0") (auto simp: cglobal_def)
  show "cinv b1 b2 o1 (if v = 1 then None else Some c) bv wt (pc(c := D_test)) (v - 1)"
  proof (rule cinvI)
    show "cglobal b1 b2 o1 (if v = 1 then None else Some c) (v - 1) (bv b1) (bv b2)"
      using g v owner by (auto simp: cglobal_def)
    show "cpoint b1 b2 o1 (if v = 1 then None else Some c) (v - 1) i (wt i) ((pc(c := D_test)) i)" for i
    proof (cases "i = c")
      case True
      then show ?thesis using c b v owner assms(2,3) by (simp add: cinv_defs)
    next
      case False
      then show ?thesis
        using cpoint_value [of b1 b2 c o2 v i "wt i" "pc i" "if v = 1 then None else Some c" "v - 1"]
          cinvD(2) [OF assms(1), of i] owner v b by simp
    qed
  qed
qed

lemma cinv_inc:
  assumes "cinv b1 b2 o1 o2 bv wt pc v" "wt c = - 1" "pc c = U_inc"
  shows "cinv b1 b2 o1 (if v = 0 then Some c else o2) bv wt (pc(c := U_test)) (v + 1)"
proof (rule cinvI)
  note g = cinvD(1) [OF assms(1)] and c = cinvD(2) [OF assms(1), of c]
  have b: "b1 \<noteq> b2" "b1 \<noteq> - 1" "b2 \<noteq> - 1" "0 \<le> v" using g by (simp_all add: cglobal_def)
  have owner: "o1 = Some c" "o2 \<noteq> Some c" using assms(2,3) c b by (simp_all add: cinv_defs)
  show "cglobal b1 b2 o1 (if v = 0 then Some c else o2) (v + 1) (bv b1) (bv b2)"
    using g by (auto simp: cglobal_def)
  show "cpoint b1 b2 o1 (if v = 0 then Some c else o2) (v + 1) i (wt i) ((pc(c := U_test)) i)" for i
  proof (cases "i = c")
    case True
    then show ?thesis using c b owner assms(2,3) by (auto simp: cinv_defs)
  next
    case False
    have n: "v = 0 \<Longrightarrow> o2 = None" using g by (simp add: cglobal_def)
    have "p \<noteq> D_test \<and> p \<noteq> U_test" if "cpoint b1 b2 o1 o2 v i (wt i) p" for p
      using that False owner b by (auto simp: cpoint_def in_S1_def)
    then have "pc i \<noteq> D_test" "pc i \<noteq> U_test" using cinvD(2) [OF assms(1), of i] by auto
    then have "carries (pc i) (wt i = b2) (v + 1) = carries (pc i) (wt i = b2) v" by (simp add: carries_def)
    then show ?thesis using cinvD(2) [OF assms(1), of i] False owner n b by (auto simp: cpoint_def)
  qed
qed

lemma cinv_test:
  assumes "cinv b1 b2 o1 o2 bv wt pc v" "wt c = - 1"
    "pc c = D_test \<and> p = (if v > 0 then D_upS2 else D_upS1) \<or>
     pc c = U_test \<and> p = (if v = 1 then U_upS2 else U_upS1)"
  shows "cinv b1 b2 o1 o2 bv wt (pc(c := p)) v"
proof (rule cinvI)
  note c = cinvD(2) [OF assms(1), of c]
  show "cglobal b1 b2 o1 o2 v (bv b1) (bv b2)" by (rule cinvD [OF assms(1)])
  have "cpoint b1 b2 o1 o2 v c (wt c) p"
    using c assms(2,3) by (elim disjE) (auto simp: cinv_defs split: if_splits)
  then show "cpoint b1 b2 o1 o2 v i (wt i) ((pc(c := p)) i)" for i
    using cinvD(2) [OF assms(1), of i] by simp
qed

lemma cinv_up2:
  assumes "cinv b1 b2 o1 o2 bv wt pc v" "wt c = - 1"
    "pc c = D_upS2 \<and> p = D_upS1 \<or> pc c = U_upS2 \<and> p = U_upS1"
  shows "\<forall>i. wt i \<noteq> b2 \<Longrightarrow> cinv b1 b2 o1 None (bv(b2 := 1)) wt (pc(c := p)) v"
    "wt j = b2 \<Longrightarrow> cinv b1 b2 o1 (Some j) bv (wt(j := - 1)) (pc(c := p)) v"
proof -
  note g = cinvD(1) [OF assms(1)] and c = cinvD(2) [OF assms(1), of c]
  have b: "b1 \<noteq> b2" "b1 \<noteq> - 1" "b2 \<noteq> - 1" using g by (simp_all add: cglobal_def)
  have owner: "o1 = Some c" "o2 = Some c" using assms(2,3) c b by (auto simp: cinv_defs)
  then have v: "0 < v" using g by (cases "v = 0") (auto simp: cglobal_def)
  have p: "in_S1 p" "\<not> carries p w v" for w using assms(3) by (auto simp: in_S1_def carries_def)
  show "cinv b1 b2 o1 None (bv(b2 := 1)) wt (pc(c := p)) v" if free: "\<forall>i. wt i \<noteq> b2"
  proof (rule cinvI)
    show "cglobal b1 b2 o1 None v ((bv(b2 := 1)) b1) ((bv(b2 := 1)) b2)"
      using g v by (simp add: cglobal_def)
    show "cpoint b1 b2 o1 None v i (wt i) ((pc(c := p)) i)" for i
      using cinvD(2) [OF assms(1), of i] owner v p b free assms(2) by (cases "i = c") (auto simp: cpoint_def)
  qed
  show "cinv b1 b2 o1 (Some j) bv (wt(j := - 1)) (pc(c := p)) v" if j: "wt j = b2"
  proof (rule cinvI)
    have cj: "j \<noteq> c" "pc j = D_S1" using cinvD(2) [OF assms(1), of j] j b assms(2) by (auto simp: cpoint_def)
    show "cglobal b1 b2 o1 (Some j) v (bv b1) (bv b2)" using g owner v by (simp add: cglobal_def)
    fix i consider "i = c" | "i = j" | "i \<noteq> c" "i \<noteq> j" by blast
    then show "cpoint b1 b2 o1 (Some j) v i ((wt(j := - 1)) i) ((pc(c := p)) i)"
    proof cases
      case 1
      then show ?thesis using owner p b cj assms(2) by (simp add: cpoint_def)
    next
      case 2
      then show ?thesis using owner b cj by (simp add: cinv_defs)
    next
      case 3
      then show ?thesis using cinvD(2) [OF assms(1), of i] owner v b by (simp add: cpoint_def)
    qed
  qed
qed

lemma cinv_up1:
  assumes "cinv b1 b2 o1 o2 bv wt pc v" "wt c = - 1" "pc c = D_upS1 \<or> pc c = U_upS1"
  shows "\<forall>i. wt i \<noteq> b1 \<Longrightarrow> cinv b1 b2 None o2 (bv(b1 := 1)) wt (pc(c := Idle)) v"
    "wt j = b1 \<Longrightarrow> cinv b1 b2 (Some j) o2 bv (wt(j := - 1)) (pc(c := Idle)) v"
proof -
  note g = cinvD(1) [OF assms(1)] and c = cinvD(2) [OF assms(1), of c]
  have b: "b1 \<noteq> b2" "b1 \<noteq> - 1" "b2 \<noteq> - 1" using g by (simp_all add: cglobal_def)
  have owner: "o1 = Some c" "o2 \<noteq> Some c" using assms(2,3) c b by (auto simp: cinv_defs)
  have p: "\<not> in_S1 Idle" "\<not> carries Idle w v" for w by (simp_all add: in_S1_def carries_def)
  show "cinv b1 b2 None o2 (bv(b1 := 1)) wt (pc(c := Idle)) v" if free: "\<forall>i. wt i \<noteq> b1"
  proof (rule cinvI)
    show "cglobal b1 b2 None o2 v ((bv(b1 := 1)) b1) ((bv(b1 := 1)) b2)"
      using g b by (simp add: cglobal_def)
    show "cpoint b1 b2 None o2 v i (wt i) ((pc(c := Idle)) i)" for i
      using cinvD(2) [OF assms(1), of i] owner p b free assms(2) by (cases "i = c") (auto simp: cpoint_def)
  qed
  show "cinv b1 b2 (Some j) o2 bv (wt(j := - 1)) (pc(c := Idle)) v" if j: "wt j = b1"
  proof (rule cinvI)
    have cj: "j \<noteq> c" "pc j = D_dec \<or> pc j = U_inc"
      using cinvD(2) [OF assms(1), of j] j b assms(2) by (auto simp: cpoint_def)
    show "cglobal b1 b2 (Some j) o2 v (bv b1) (bv b2)" using g owner by (simp add: cglobal_def)
    fix i consider "i = c" | "i = j" | "i \<noteq> c" "i \<noteq> j" by blast
    then show "cpoint b1 b2 (Some j) o2 v i ((wt(j := - 1)) i) ((pc(c := Idle)) i)"
    proof cases
      case 1
      then show ?thesis using owner p b cj(1) assms(2) c by (simp add: cpoint_def)
    next
      case 2
      then show ?thesis using owner b cj j cinvD(2) [OF assms(1), of j] by (auto simp: cinv_defs)
    next
      case 3
      then show ?thesis using cinvD(2) [OF assms(1), of i] owner b by (simp add: cpoint_def)
    qed
  qed
qed

definition csys_inv :: "('s \<Rightarrow> bool) \<Rightarrow> ('s \<Rightarrow> int \<Rightarrow> int) \<Rightarrow> ('s \<Rightarrow> nat \<Rightarrow> int) \<Rightarrow> int \<Rightarrow> 's csys \<Rightarrow> bool" where
  "csys_inv good bval waits v0 m \<longleftrightarrow> good (lib m) \<and>
     (\<exists>o1 o2. cinv (binSemNum1 (csem m)) (binSemNum2 (csem m)) o1 o2 (bval (lib m)) (waits (lib m))
        (pcof m) (cvalue (csem m))) \<and>
     cvalue (csem m) = v0 + int (nup m) - int (ndown m)"

section \<open>The interface of the binary semaphores\<close>

text \<open>What a client of the binary semaphores relies on. \<open>bval s k\<close> is the value of semaphore \<open>k\<close>,
  \<open>waits s i\<close> the semaphore that thread \<open>i\<close> waits for, or \<open>-1\<close>. A thread that cannot take the semaphore
  waits; raising a semaphore that is waited for lets one waiting thread go and leaves the value at
  0. Switching threads changes neither.\<close>

locale bsem_lib =
  fixes bd bu :: "int \<Rightarrow> 's \<Rightarrow> (unit, 's) outcome" and cur :: "'s \<Rightarrow> nat option"
    and switch :: "'s \<Rightarrow> 's \<Rightarrow> bool" and good :: "'s \<Rightarrow> bool"
    and bval :: "'s \<Rightarrow> int \<Rightarrow> int" and waits :: "'s \<Rightarrow> nat \<Rightarrow> int"
  assumes cur_runs: "good s \<Longrightarrow> cur s = Some c \<Longrightarrow> waits s c = - 1"
    and down_take: "good s \<Longrightarrow> cur s = Some c \<Longrightarrow> bval s k = 1 \<Longrightarrow>
      \<exists>t. bd k s = Ok () t \<and> good t \<and> bval t = (bval s)(k := 0) \<and> waits t = waits s"
    and down_wait: "good s \<Longrightarrow> cur s = Some c \<Longrightarrow> bval s k = 0 \<Longrightarrow>
      \<exists>t. bd k s = Ok () t \<and> good t \<and> bval t = bval s \<and> waits t = (waits s)(c := k)"
    and up_free: "good s \<Longrightarrow> cur s = Some c \<Longrightarrow> bval s k = 0 \<or> bval s k = 1 \<Longrightarrow> \<forall>i. waits s i \<noteq> k \<Longrightarrow>
      \<exists>t. bu k s = Ok () t \<and> good t \<and> bval t = (bval s)(k := 1) \<and> waits t = waits s"
    and up_wake: "good s \<Longrightarrow> cur s = Some c \<Longrightarrow> bval s k = 0 \<Longrightarrow> waits s j = k \<Longrightarrow>
      \<exists>t i. bu k s = Ok () t \<and> good t \<and> bval t = bval s \<and> waits s i = k \<and> waits t = (waits s)(i := - 1)"
    and switch_keeps: "good s \<Longrightarrow> switch s t \<Longrightarrow> good t \<and> bval t = bval s \<and> waits t = waits s"
begin

text \<open>The four kinds of calls, with the invariant before and after.\<close>

lemma inv_bd2:
  assumes "good s" "cur s = Some c" "cinv b1 b2 o1 o2 (bval s) (waits s) pc v" "pc c = D_S2" "bd b2 s = Ok () t"
  shows "good t \<and> (\<exists>o2'. cinv b1 b2 o1 o2' (bval t) (waits t) (pc(c := D_S1)) v)"
proof -
  have w: "waits s c = - 1" using assms(1,2) by (rule cur_runs)
  have "bval s b2 = 1 \<or> bval s b2 = 0" using cinvD(1) [OF assms(3)] by (simp add: cglobal_def)
  then show ?thesis
  proof
    assume b: "bval s b2 = 1"
    then show ?thesis using down_take [OF assms(1,2) b] cinv_down2(1) [OF assms(3,4) w b] assms(5) by auto
  next
    assume b: "bval s b2 = 0"
    then show ?thesis using down_wait [OF assms(1,2) b] cinv_down2(2) [OF assms(3,4) w b] assms(5) by auto
  qed
qed

lemma inv_bd1:
  assumes "good s" "cur s = Some c" "cinv b1 b2 o1 o2 (bval s) (waits s) pc v"
    "pc c = D_S1 \<and> p = D_dec \<or> pc c = U_S1 \<and> p = U_inc" "bd b1 s = Ok () t"
  shows "good t \<and> (\<exists>o1'. cinv b1 b2 o1' o2 (bval t) (waits t) (pc(c := p)) v)"
proof -
  have w: "waits s c = - 1" using assms(1,2) by (rule cur_runs)
  have "bval s b1 = 1 \<or> bval s b1 = 0" using cinvD(1) [OF assms(3)] by (simp add: cglobal_def)
  then show ?thesis
  proof
    assume b: "bval s b1 = 1"
    then show ?thesis using down_take [OF assms(1,2) b] cinv_down1(1) [OF assms(3) w assms(4) b] assms(5) by auto
  next
    assume b: "bval s b1 = 0"
    then show ?thesis using down_wait [OF assms(1,2) b] cinv_down1(2) [OF assms(3) w assms(4) b] assms(5) by auto
  qed
qed

lemma inv_bu2:
  assumes "good s" "cur s = Some c" "cinv b1 b2 o1 o2 (bval s) (waits s) pc v"
    "pc c = D_upS2 \<and> p = D_upS1 \<or> pc c = U_upS2 \<and> p = U_upS1" "bu b2 s = Ok () t"
  shows "good t \<and> (\<exists>o2'. cinv b1 b2 o1 o2' (bval t) (waits t) (pc(c := p)) v)"
proof -
  have w: "waits s c = - 1" using assms(1,2) by (rule cur_runs)
  have "o2 = Some c" using cinvD [OF assms(3)] assms(4) w by (auto simp: cpoint_def carries_def)
  then have b: "bval s b2 = 0" using cinvD(1) [OF assms(3)] by (simp add: cglobal_def)
  show ?thesis
  proof (cases "\<forall>i. waits s i \<noteq> b2")
    case True
    then show ?thesis
      using up_free [OF assms(1,2) disjI1 [OF b] True] cinv_up2(1) [OF assms(3) w assms(4) True] assms(5) by auto
  next
    case False
    then obtain j where "waits s j = b2" by auto
    from up_wake [OF assms(1,2) b this] obtain i where i: "good t" "bval t = bval s" "waits s i = b2"
      "waits t = (waits s)(i := - 1)" using assms(5) by auto
    then show ?thesis using cinv_up2(2) [OF assms(3) w assms(4) i(3)] by auto
  qed
qed

lemma inv_bu1:
  assumes "good s" "cur s = Some c" "cinv b1 b2 o1 o2 (bval s) (waits s) pc v"
    "pc c = D_upS1 \<or> pc c = U_upS1" "bu b1 s = Ok () t"
  shows "good t \<and> (\<exists>o1'. cinv b1 b2 o1' o2 (bval t) (waits t) (pc(c := Idle)) v)"
proof -
  have w: "waits s c = - 1" using assms(1,2) by (rule cur_runs)
  have "b1 \<noteq> - 1" using cinvD(1) [OF assms(3)] by (simp add: cglobal_def)
  then have "o1 = Some c" using cinvD(2) [OF assms(3), of c] assms(4) w by (auto simp: cpoint_def in_S1_def)
  then have b: "bval s b1 = 0" using cinvD(1) [OF assms(3)] by (simp add: cglobal_def)
  show ?thesis
  proof (cases "\<forall>i. waits s i \<noteq> b1")
    case True
    then show ?thesis
      using up_free [OF assms(1,2) disjI1 [OF b] True] cinv_up1(1) [OF assms(3) w assms(4) True] assms(5) by auto
  next
    case False
    then obtain j where "waits s j = b1" by auto
    from up_wake [OF assms(1,2) b this] obtain i where i: "good t" "bval t = bval s" "waits s i = b1"
      "waits t = (waits s)(i := - 1)" using assms(5) by auto
    then show ?thesis using cinv_up1(2) [OF assms(3) w assms(4) i(3)] by auto
  qed
qed

lemma down_step_inv:
  assumes "good s" "cur s = Some c" "cinv (binSemNum1 sem) (binSemNum2 sem) o1 o2 (bval s) (waits s) pc (cvalue sem)"
    "down_step bd bu (pc c) sem s = Ok (p, sem') t"
  shows "good t \<and> (\<exists>o1 o2. cinv (binSemNum1 sem') (binSemNum2 sem') o1 o2 (bval t) (waits t) (pc(c := p)) (cvalue sem')) \<and>
    cvalue sem' = cvalue sem - (if pc c = D_dec then 1 else 0)"
proof -
  have w: "waits s c = - 1" using assms(1,2) by (rule cur_runs)
  note inv = assms(3)
  show ?thesis
  proof (cases "pc c")
    case D_S2
    then show ?thesis using assms(4) inv_bd2 [OF assms(1,2) inv D_S2] by (fastforce simp: seq_eq_Ok)
  next
    case D_S1
    then show ?thesis using assms(4) inv_bd1 [OF assms(1,2) inv] by (fastforce simp: seq_eq_Ok)
  next
    case D_dec
    then show ?thesis using assms(1,4) cinv_dec(2) [OF inv w D_dec] by (fastforce split: if_splits)
  next
    case D_test
    then show ?thesis using assms(1,4) cinv_test [OF inv w, of p] by fastforce
  next
    case D_upS2
    then show ?thesis using assms(4) inv_bu2 [OF assms(1,2) inv] by (fastforce simp: seq_eq_Ok)
  next
    case D_upS1
    then show ?thesis using assms(4) inv_bu1 [OF assms(1,2) inv] by (fastforce simp: seq_eq_Ok)
  qed (use assms(4) in simp_all)
qed

lemma up_step_inv:
  assumes "good s" "cur s = Some c" "cinv (binSemNum1 sem) (binSemNum2 sem) o1 o2 (bval s) (waits s) pc (cvalue sem)"
    "up_step bd bu (pc c) sem s = Ok (p, sem') t"
  shows "good t \<and> (\<exists>o1 o2. cinv (binSemNum1 sem') (binSemNum2 sem') o1 o2 (bval t) (waits t) (pc(c := p)) (cvalue sem')) \<and>
    cvalue sem' = cvalue sem + (if pc c = U_inc then 1 else 0)"
proof -
  have w: "waits s c = - 1" using assms(1,2) by (rule cur_runs)
  note inv = assms(3)
  show ?thesis
  proof (cases "pc c")
    case U_S1
    then show ?thesis using assms(4) inv_bd1 [OF assms(1,2) inv] by (fastforce simp: seq_eq_Ok)
  next
    case U_inc
    then show ?thesis using assms(1,4) cinv_inc [OF inv w U_inc] by (fastforce split: if_splits)
  next
    case U_test
    then show ?thesis using assms(1,4) cinv_test [OF inv w, of p] by fastforce
  next
    case U_upS2
    then show ?thesis using assms(4) inv_bu2 [OF assms(1,2) inv] by (fastforce simp: seq_eq_Ok)
  next
    case U_upS1
    then show ?thesis using assms(4) inv_bu1 [OF assms(1,2) inv] by (fastforce simp: seq_eq_Ok)
  qed (use assms(4) in simp_all)
qed

lemma csem_step_inv:
  assumes "csem_step bd bu cur switch m m'" "csys_inv good bval waits v0 m"
  shows "csys_inv good bval waits v0 m'"
  using assms
proof (cases rule: csem_step.cases)
  case (call_down c)
  then show ?thesis using assms(2) cinv_call [where p = D_S2] cur_runs by (fastforce simp: csys_inv_def)
next
  case (call_up c)
  then show ?thesis using assms(2) cinv_call [where p = U_S1] cur_runs by (fastforce simp: csys_inv_def)
next
  case (in_down c p sem' t)
  obtain o1 o2 where inv: "good (lib m)" "cinv (binSemNum1 (csem m)) (binSemNum2 (csem m)) o1 o2
      (bval (lib m)) (waits (lib m)) (pcof m) (cvalue (csem m))"
    "cvalue (csem m) = v0 + int (nup m) - int (ndown m)"
    using assms(2) unfolding csys_inv_def by (elim conjE exE)
  show ?thesis using down_step_inv [OF inv(1) in_down(2) inv(2) in_down(3)] inv(3) in_down(1)
    by (fastforce simp: csys_inv_def)
next
  case (in_up c p sem' t)
  obtain o1 o2 where inv: "good (lib m)" "cinv (binSemNum1 (csem m)) (binSemNum2 (csem m)) o1 o2
      (bval (lib m)) (waits (lib m)) (pcof m) (cvalue (csem m))"
    "cvalue (csem m) = v0 + int (nup m) - int (ndown m)"
    using assms(2) unfolding csys_inv_def by (elim conjE exE)
  show ?thesis using up_step_inv [OF inv(1) in_up(2) inv(2) in_up(3)] inv(3) in_up(1)
    by (fastforce simp: csys_inv_def)
next
  case (switch_thread t)
  then show ?thesis using assms(2) switch_keeps [of "lib m" t] by (fastforce simp: csys_inv_def)
qed

lemma csem_reach_inv:
  "csem_reach bd bu cur switch m0 m \<Longrightarrow> csys_inv good bval waits v0 m0 \<Longrightarrow> csys_inv good bval waits v0 m"
  by (induction rule: csem_reach.induct) (auto intro: csem_step_inv)

text \<open>The guarantees: the value is never negative and counts the calls; a single thread is between
  the two operations on the first binary semaphore; and no thread stays asleep in \<open>down\<close> while the
  value is positive and no other call is under way.\<close>

lemma csem_guarantees:
  assumes "csem_reach bd bu cur switch m0 m" "csys_inv good bval waits v0 m0"
  shows "0 \<le> cvalue (csem m) \<and> cvalue (csem m) = v0 + int (nup m) - int (ndown m) \<and>
    (\<forall>i j. in_S1 (pcof m i) \<longrightarrow> in_S1 (pcof m j) \<longrightarrow> waits (lib m) i = - 1 \<longrightarrow> waits (lib m) j = - 1 \<longrightarrow> i = j) \<and>
    (0 < cvalue (csem m) \<longrightarrow>
      (\<forall>i. pcof m i = Idle \<or> waits (lib m) i = binSemNum2 (csem m)) \<longrightarrow> (\<forall>i. pcof m i = Idle))"
proof -
  obtain o1 o2 where inv: "cinv (binSemNum1 (csem m)) (binSemNum2 (csem m)) o1 o2
      (bval (lib m)) (waits (lib m)) (pcof m) (cvalue (csem m))"
    and count: "cvalue (csem m) = v0 + int (nup m) - int (ndown m)"
    using csem_reach_inv [OF assms] unfolding csys_inv_def by (elim conjE exE)
  note g = cinvD(1) [OF inv] and pt = cinvD(2) [OF inv]
  have ex: "i = j" if "in_S1 (pcof m i)" "in_S1 (pcof m j)" "waits (lib m) i = - 1" "waits (lib m) j = - 1" for i j
    using that pt [of i] pt [of j] g by (auto simp: cpoint_def cglobal_def)
  have "pcof m i = Idle" if v: "0 < cvalue (csem m)"
    and q: "\<forall>i. pcof m i = Idle \<or> waits (lib m) i = binSemNum2 (csem m)" for i
  proof -
    have "o2 = None"
    proof (cases o2)
      case (Some k)
      then have k: "carries (pcof m k) (waits (lib m) k = binSemNum2 (csem m)) (cvalue (csem m))"
        using pt [of k] by (simp add: cpoint_def)
      then have "waits (lib m) k = binSemNum2 (csem m)" using spec [OF q, of k] by (auto simp: carries_def)
      moreover from this have "pcof m k = D_S1" using pt [of k] g by (simp add: cpoint_def cglobal_def)
      ultimately show ?thesis using k by (simp add: carries_def)
    qed simp
    then have "waits (lib m) i \<noteq> binSemNum2 (csem m)" using pt [of i] v by (simp add: cpoint_def)
    then show ?thesis using spec [OF q, of i] by simp
  qed
  then show ?thesis using g ex count by (auto simp: cglobal_def)
qed

end

section \<open>The binary semaphores of uthread.c implement the interface\<close>

text \<open>Well-formed states of the library: the table is as the scheduler needs it, a thread that
  waits for a semaphore is blocked, and the thread in \<open>ct\<close> runs unless the alarm is about to
  switch it out.\<close>

definition bsem_value :: "uts \<Rightarrow> int \<Rightarrow> int" where
  "bsem_value s k = (if 0 \<le> k \<and> nat k < length (semaphores s) then semaphores s ! nat k else - 1)"

definition bsem_waits :: "uts \<Rightarrow> nat \<Rightarrow> int" where
  "bsem_waits s i = (if i < length (threadTable s) then blockedOnSemaphore (threadTable s ! i) else - 1)"

definition running :: "uts \<Rightarrow> nat option" where
  "running s = (case ct s of None \<Rightarrow> None
     | Some c \<Rightarrow> if alrm s \<noteq> Raised \<and> tstate (threadTable s ! c) = T_RUNNING then Some c else None)"

definition ut_good :: "uts \<Rightarrow> bool" where
  "ut_good s \<longleftrightarrow> sched_ok s \<and> length (semaphores s) = MAX_BSEM \<and>
     (\<forall>i < MAX_UTHREADS. blockedOnSemaphore (threadTable s ! i) \<noteq> - 1 \<longrightarrow> tstate (threadTable s ! i) = T_BLOCKED)"

text \<open>Thread switches: the alarm goes off, or the thread goes to sleep.\<close>

definition ut_switch :: "uts \<Rightarrow> uts \<Rightarrow> bool" where
  "ut_switch s t \<longleftrightarrow> (\<exists>fp. alrm s \<noteq> Disarmed \<and> uthread_schedule fp s = Ok () t) \<or>
     (\<exists>n. running s \<noteq> None \<and> uthread_sleep n s = Ok 0 t)"

lemma running_Some: "running s = Some c \<longleftrightarrow> ct s = Some c \<and> alrm s \<noteq> Raised \<and> tstate (threadTable s ! c) = T_RUNNING"
  by (auto simp: running_def split: option.splits)

lemma ut_goodD:
  assumes "ut_good s"
  shows "length (threadTable s) = MAX_UTHREADS" "length (semaphores s) = MAX_BSEM" "sched_ok s"
    "ct s = Some c \<Longrightarrow> c < MAX_UTHREADS"
    "i < MAX_UTHREADS \<Longrightarrow> blockedOnSemaphore (threadTable s ! i) \<noteq> - 1 \<Longrightarrow> tstate (threadTable s ! i) = T_BLOCKED"
  using assms by (auto simp: ut_good_def sched_ok_def)

text \<open>One thread changes its state and what it waits for; everything else stays.\<close>

lemma ut_good_upd:
  assumes "ut_good s" "i < MAX_UTHREADS" "threadTable t = (threadTable s)[i := f (threadTable s ! i)]"
    "ct t = ct s" "length (semaphores t) = MAX_BSEM"
    "indexInThreadtable (f (threadTable s ! i)) = indexInThreadtable (threadTable s ! i)"
    "tstate (threadTable s ! i) \<noteq> T_TERMINATED"
    "blockedOnSemaphore (f (threadTable s ! i)) \<noteq> - 1 \<longrightarrow> tstate (f (threadTable s ! i)) = T_BLOCKED"
  shows "ut_good t" "bsem_waits t = (bsem_waits s)(i := blockedOnSemaphore (f (threadTable s ! i)))"
proof -
  show "ut_good t" using assms by (auto simp: ut_good_def sched_ok_def nth_list_update)
  show "bsem_waits t = (bsem_waits s)(i := blockedOnSemaphore (f (threadTable s ! i)))"
    using assms(2,3) ut_goodD(1) [OF assms(1)] by (auto simp: bsem_waits_def fun_eq_iff nth_list_update)
qed

lemma bsem_value_upd:
  assumes "nat k < length (semaphores s)" "0 \<le> k" "semaphores t = (semaphores s)[nat k := v]"
  shows "bsem_value t = (bsem_value s)(k := v)"
  using assms by (auto simp: bsem_value_def fun_eq_iff nth_list_update nat_eq_iff)

lemma ut_down_take:
  assumes "ut_good s" "running s = Some c" "bsem_value s k = 1"
  shows "\<exists>t. bsem_down k s = Ok () t \<and> ut_good t \<and> bsem_value t = (bsem_value s)(k := 0) \<and> bsem_waits t = bsem_waits s"
proof -
  have k: "0 \<le> k" "nat k < length (semaphores s)" "semaphores s ! nat k = 1"
    using assms(3) by (auto simp: bsem_value_def split: if_splits)
  let ?t = "s\<lparr>semaphores := (semaphores s)[nat k := 0], alrm := Armed UTHREAD_QUANTA\<rparr>"
  have "bsem_down k s = Ok () ?t"
    using k by (simp add: bsem_down_def with_sem_def bsem_down_body_def ualarm_def)
  moreover have "bsem_value ?t = (bsem_value s)(k := 0)" using k by (intro bsem_value_upd) simp_all
  moreover have "bsem_waits ?t = bsem_waits s" by (simp add: bsem_waits_def fun_eq_iff)
  moreover have "ut_good ?t" using assms(1) by (simp add: ut_good_def sched_ok_def)
  ultimately show ?thesis by blast
qed

lemma ut_down_wait:
  assumes "ut_good s" "running s = Some c" "bsem_value s k = 0"
  shows "\<exists>t. bsem_down k s = Ok () t \<and> ut_good t \<and> bsem_value t = bsem_value s \<and> bsem_waits t = (bsem_waits s)(c := k)"
proof -
  have k: "0 \<le> k" "nat k < length (semaphores s)" "semaphores s ! nat k = 0"
    using assms(3) by (auto simp: bsem_value_def split: if_splits)
  have c: "ct s = Some c" "tstate (threadTable s ! c) = T_RUNNING" "c < MAX_UTHREADS"
    using assms(2) ut_goodD(4) [OF assms(1)] by (simp_all add: running_Some)
  let ?f = "\<lambda>t. t\<lparr>blockedOnSemaphore := k, tstate := T_BLOCKED\<rparr>"
  let ?t = "s\<lparr>threadTable := (threadTable s)[c := ?f (threadTable s ! c)], alrm := Raised\<rparr>"
  have "bsem_down k s = Ok () ?t"
    using k c by (simp add: bsem_down_def with_sem_def bsem_down_body_def with_ct_def ut_defs)
  moreover have "bsem_value ?t = bsem_value s" by (simp add: bsem_value_def fun_eq_iff)
  moreover have "ut_good ?t" "bsem_waits ?t = (bsem_waits s)(c := k)"
    using ut_good_upd [OF assms(1) c(3), of ?t ?f] c(2) ut_goodD(2) [OF assms(1)] by simp_all
  ultimately show ?thesis by blast
qed

lemma ut_up_free:
  assumes "ut_good s" "bsem_value s k = 0 \<or> bsem_value s k = 1" "\<forall>i. bsem_waits s i \<noteq> k"
  shows "\<exists>t. bsem_up k s = Ok () t \<and> ut_good t \<and> bsem_value t = (bsem_value s)(k := 1) \<and> bsem_waits t = bsem_waits s"
proof -
  have k: "0 \<le> k" "nat k < length (semaphores s)" "semaphores s ! nat k \<noteq> - 1"
    using assms(2) by (auto simp: bsem_value_def split: if_splits)
  have "blockedOnSemaphore (threadTable s ! i) \<noteq> k" if "i < length (threadTable s)" for i
    using spec [OF assms(3), of i] that by (simp add: bsem_waits_def)
  then have none: "find_idx (\<lambda>t. blockedOnSemaphore t = k) (threadTable s) = None"
    by (fastforce simp: in_set_conv_nth)
  let ?t = "s\<lparr>semaphores := (semaphores s)[nat k := 1], alrm := Armed UTHREAD_QUANTA\<rparr>"
  have "bsem_up k s = Ok () ?t"
    using k by (simp add: bsem_up_def with_sem_def bsem_up_body_def ualarm_def none Let_def)
  moreover have "bsem_value ?t = (bsem_value s)(k := 1)" using k by (intro bsem_value_upd) simp_all
  moreover have "bsem_waits ?t = bsem_waits s" by (simp add: bsem_waits_def fun_eq_iff)
  moreover have "ut_good ?t" using assms(1) by (simp add: ut_good_def sched_ok_def)
  ultimately show ?thesis by blast
qed

lemma ut_up_wake:
  assumes "ut_good s" "bsem_value s k = 0" "bsem_waits s j = k"
  shows "\<exists>t i. bsem_up k s = Ok () t \<and> ut_good t \<and> bsem_value t = bsem_value s \<and> bsem_waits s i = k \<and>
    bsem_waits t = (bsem_waits s)(i := - 1)"
proof -
  have k: "0 \<le> k" "nat k < length (semaphores s)" "semaphores s ! nat k = 0"
    using assms(2) by (auto simp: bsem_value_def split: if_splits)
  then have "j < length (threadTable s)" "blockedOnSemaphore (threadTable s ! j) = k"
    using assms(3) by (auto simp: bsem_waits_def split: if_splits)
  then obtain i where fi: "find_idx (\<lambda>t. blockedOnSemaphore t = k) (threadTable s) = Some i"
    using find_idx_ex [of j "threadTable s" "\<lambda>t. blockedOnSemaphore t = k"] by blast
  have i: "i < MAX_UTHREADS" "blockedOnSemaphore (threadTable s ! i) = k"
    using find_idx_bound [OF fi] find_idx_holds [OF fi] ut_goodD(1) [OF assms(1)] by simp_all
  then have "tstate (threadTable s ! i) = T_BLOCKED" using ut_goodD(5) [OF assms(1) i(1)] k(1) by simp
  let ?f = "\<lambda>t. t\<lparr>blockedOnSemaphore := - 1, tstate := T_READY\<rparr>"
  let ?t = "s\<lparr>threadTable := (threadTable s)[i := ?f (threadTable s ! i)], alrm := Armed UTHREAD_QUANTA\<rparr>"
  have "bsem_up k s = Ok () ?t"
    using k by (simp add: bsem_up_def with_sem_def bsem_up_body_def ualarm_def fi upd_thread_def Let_def)
  moreover have "bsem_value ?t = bsem_value s" by (simp add: bsem_value_def fun_eq_iff)
  moreover have "ut_good ?t" "bsem_waits ?t = (bsem_waits s)(i := - 1)"
    using ut_good_upd [OF assms(1) i(1), of ?t ?f] \<open>tstate (threadTable s ! i) = T_BLOCKED\<close>
      ut_goodD(2) [OF assms(1)] by simp_all
  moreover have "bsem_waits s i = k" using i ut_goodD(1) [OF assms(1)] by (simp add: bsem_waits_def)
  ultimately show ?thesis by blast
qed

text \<open>Whatever the scheduler does, also after waiting, only sleeping threads become ready, and
  the chosen thread is ready.\<close>

lemma same_not_running:
  assumes "same_but_woken s t" "tstate (threadTable s ! c) \<noteq> T_RUNNING"
  shows "tstate (threadTable t ! c) \<noteq> T_RUNNING"
proof -
  have "woken (threadTable s ! c) (threadTable t ! c)" using assms(1) by (simp add: same_but_woken_def)
  then show ?thesis using assms(2) by (auto simp: woken_def)
qed

lemma choose_once:
  assumes "length (threadTable s) = MAX_UTHREADS" "tstate (threadTable s ! c) \<noteq> T_RUNNING"
    "chooseNextThread c s = (r, t)"
  shows "same_but_woken s t" "r = Some i \<Longrightarrow> i < MAX_UTHREADS \<and> tstate (threadTable t ! i) = T_READY"
proof -
  obtain q u where q: "choose_scan (indexInThreadtable (threadTable s ! c)) 1 MAX_UTHREADS s = (q, u)" by fastforce
  note spec = choose_scan_spec [OF assms(1), where start = "indexInThreadtable (threadTable s ! c)"
      and i = 1 and n = MAX_UTHREADS, unfolded q]
  show same: "same_but_woken s t"
    using spec q assms(3) by (cases q) (auto simp: chooseNextThread_def)
  then have "tstate (threadTable t ! c) \<noteq> T_RUNNING" using assms(2) by (rule same_not_running)
  then show "r = Some i \<Longrightarrow> i < MAX_UTHREADS \<and> tstate (threadTable t ! i) = T_READY"
    using spec q assms(3) by (cases q) (auto simp: chooseNextThread_def)
qed

lemma choose_loop_woken:
  assumes "choose_loop c s = Some y"
  shows "length (threadTable s) = MAX_UTHREADS \<longrightarrow> tstate (threadTable s ! c) \<noteq> T_RUNNING \<longrightarrow>
     same_but_woken s (snd y) \<and> fst y < MAX_UTHREADS \<and> tstate (threadTable (snd y) ! fst y) = T_READY"
proof (rule choose_loop.raw_induct [of "\<lambda>c s y. length (threadTable s) = MAX_UTHREADS \<longrightarrow>
     tstate (threadTable s ! c) \<noteq> T_RUNNING \<longrightarrow>
     same_but_woken s (snd y) \<and> fst y < MAX_UTHREADS \<and> tstate (threadTable (snd y) ! fst y) = T_READY", OF _ assms],
     intro impI)
  fix f c s y
  assume IH: "\<And>c s y. f c s = Some y \<Longrightarrow> length (threadTable s) = MAX_UTHREADS \<longrightarrow>
      tstate (threadTable s ! c) \<noteq> T_RUNNING \<longrightarrow>
      same_but_woken s (snd y) \<and> fst y < MAX_UTHREADS \<and> tstate (threadTable (snd y) ! fst y) = T_READY"
    and body: "(case chooseNextThread c s of (None, s) \<Rightarrow> f c s | (Some i, s) \<Rightarrow> Some (i, s)) = Some y"
    and s: "length (threadTable s) = MAX_UTHREADS" "tstate (threadTable s ! c) \<noteq> T_RUNNING"
  obtain r t where rt: "chooseNextThread c s = (r, t)" by fastforce
  note once = choose_once [OF s rt]
  show "same_but_woken s (snd y) \<and> fst y < MAX_UTHREADS \<and> tstate (threadTable (snd y) ! fst y) = T_READY"
  proof (cases r)
    case None
    have "length (threadTable t) = MAX_UTHREADS" using once(1) s(1) by (simp add: same_but_woken_def)
    then show ?thesis using None body rt IH [of c t y] same_not_running [OF once(1) s(2)]
        same_but_woken_trans [OF once(1)] by auto
  next
    case (Some i)
    then show ?thesis using once body rt by auto
  qed
qed

lemma ut_schedule_keeps:
  assumes "ut_good s" "uthread_schedule fp s = Ok () t"
  shows "ut_good t \<and> bsem_value t = bsem_value s \<and> bsem_waits t = bsem_waits s"
proof -
  note len = ut_goodD(1) [OF assms(1)]
  obtain c where c: "ct s = Some c" "c < MAX_UTHREADS"
    using ut_goodD(3) [OF assms(1)] by (auto simp: sched_ok_def)
  obtain i u where u: "choose_loop c (saved fp c s) = Some (i, u)" "t = switched fp i u"
    using assms(2) schedule_split [OF c(1), of fp] c(2) len by (auto split: option.splits)
  have "length (threadTable (saved fp c s)) = MAX_UTHREADS" "tstate (threadTable (saved fp c s) ! c) \<noteq> T_RUNNING"
    using len c(2) by (simp_all add: saved_def upd_thread_def)
  then have w: "same_but_woken (saved fp c s) u" "i < MAX_UTHREADS" "tstate (threadTable u ! i) = T_READY"
    using choose_loop_woken [OF u(1)] by simp_all
  have pt: "blockedOnSemaphore (threadTable u ! k) = blockedOnSemaphore (threadTable s ! k)" for k
  proof -
    have "woken (threadTable (saved fp c s) ! k) (threadTable u ! k)" using w(1) by (simp add: same_but_woken_def)
    then show ?thesis using woken_fields(4) c(2) len
      by (cases "k = c") (simp_all add: saved_def upd_thread_def)
  qed
  have lu: "length (threadTable u) = MAX_UTHREADS" "semaphores u = semaphores s"
    using w(1) len by (simp_all add: same_but_woken_def saved_def upd_thread_def)
  have waits: "bsem_waits t = bsem_waits s"
    using pt lu len w(2) by (auto simp: bsem_waits_def u(2) switched_def fun_eq_iff nth_list_update)
  have blocked: "tstate (threadTable u ! k) = T_BLOCKED"
    if "k < MAX_UTHREADS" "blockedOnSemaphore (threadTable u ! k) \<noteq> - 1" for k
  proof -
    have b: "tstate (threadTable s ! k) = T_BLOCKED" using ut_goodD(5) [OF assms(1) that(1)] that(2) pt by simp
    have "woken (threadTable (saved fp c s) ! k) (threadTable u ! k)" using w(1) by (simp add: same_but_woken_def)
    then show ?thesis using b c(2) len by (cases "k = c") (auto simp: woken_def saved_def upd_thread_def)
  qed
  have "sched_ok t"
    using sched_ok_switched [OF ut_goodD(3) [OF assms(1)] c(1) w] by (simp add: u(2))
  moreover have "blockedOnSemaphore (threadTable u ! i) = - 1" using blocked [OF w(2)] w(3) by auto
  ultimately have "ut_good t"
    using blocked w(2,3) lu ut_goodD(2) [OF assms(1)]
    by (auto simp: ut_good_def u(2) switched_def nth_list_update)
  then show ?thesis using waits lu by (simp add: bsem_value_def fun_eq_iff u(2) switched_def)
qed

lemma ut_sleep_keeps:
  assumes "ut_good s" "running s \<noteq> None" "uthread_sleep n s = Ok 0 t"
  shows "ut_good t \<and> bsem_value t = bsem_value s \<and> bsem_waits t = bsem_waits s"
proof -
  obtain c where "running s = Some c" using assms(2) by auto
  then have c: "ct s = Some c" "tstate (threadTable s ! c) = T_RUNNING" "c < MAX_UTHREADS"
    using ut_goodD(4) [OF assms(1)] by (simp_all add: running_Some)
  have b: "blockedOnSemaphore (threadTable s ! c) = - 1"
    using ut_goodD(5) [OF assms(1) c(3)] c(2) by auto
  let ?f = "\<lambda>t. t\<lparr>wakeUpTime := s32 (n + uptimes s (nuptime s)), tstate := T_SLEEPING\<rparr>"
  have t: "threadTable t = (threadTable s)[c := ?f (threadTable s ! c)]" "ct t = ct s" "semaphores t = semaphores s"
    using assms(3) c(1) by (auto simp: uthread_sleep_def with_ct_def ut_defs split: if_splits)
  have "ut_good t" "bsem_waits t = (bsem_waits s)(c := - 1)"
    using ut_good_upd [OF assms(1) c(3), of t ?f] t(1,2) c(2) b ut_goodD(2) [OF assms(1)] t(3) by simp_all
  moreover have "bsem_waits s c = - 1" using b c(3) ut_goodD(1) [OF assms(1)] by (simp add: bsem_waits_def)
  ultimately show ?thesis using t(3) by (auto simp: bsem_value_def fun_eq_iff)
qed

interpretation ut: bsem_lib bsem_down bsem_up running ut_switch ut_good bsem_value bsem_waits
proof unfold_locales
  fix s c assume s: "ut_good s" "running s = Some c"
  then show "bsem_waits s c = - 1"
    using ut_goodD(1,4,5) [OF s(1)] by (fastforce simp: running_Some bsem_waits_def)
next
  fix s t assume "ut_good s" "ut_switch s t"
  then show "ut_good t \<and> bsem_value t = bsem_value s \<and> bsem_waits t = bsem_waits s"
    unfolding ut_switch_def using ut_schedule_keeps ut_sleep_keeps by blast
qed (fact ut_down_take ut_down_wait | rule ut_up_free ut_up_wake, assumption+)+

section \<open>Properties\<close>

text \<open>The state right after \<open>allocSem\<close>: no thread is inside an operation or waits, the first binary
  semaphore is 1 and the second is 1 exactly for a positive value.\<close>

definition csem_fresh :: "int \<Rightarrow> uts csys \<Rightarrow> bool" where
  "csem_fresh v0 m \<longleftrightarrow> ut_good (lib m) \<and> 0 \<le> v0 \<and> cvalue (csem m) = v0 \<and> pcof m = (\<lambda>_. Idle) \<and>
     ndown m = 0 \<and> nup m = 0 \<and> bsem_waits (lib m) = (\<lambda>_. - 1) \<and>
     binSemNum1 (csem m) \<noteq> binSemNum2 (csem m) \<and>
     bsem_value (lib m) (binSemNum1 (csem m)) = 1 \<and>
     bsem_value (lib m) (binSemNum2 (csem m)) = (if v0 = 0 then 0 else 1)"

lemma csem_fresh_inv:
  assumes "csem_fresh v0 m"
  shows "csys_inv ut_good bsem_value bsem_waits v0 m"
proof -
  have "binSemNum1 (csem m) \<noteq> - 1" "binSemNum2 (csem m) \<noteq> - 1"
    using assms by (auto simp: csem_fresh_def bsem_value_def split: if_splits)
  then have "cinv (binSemNum1 (csem m)) (binSemNum2 (csem m)) None None (bsem_value (lib m))
      (bsem_waits (lib m)) (pcof m) (cvalue (csem m))"
    using assms by (auto simp: csem_fresh_def cinv_def cinv_defs)
  then show ?thesis using assms by (auto simp: csys_inv_def csem_fresh_def)
qed

text \<open>C10: the counting semaphore built from two binary semaphores is correct for every
  interleaving of its users, where the scheduler may switch threads between any two
  statements: its value never becomes negative, it is the initial value plus the \<open>up\<close>
  calls minus the \<open>down\<close> calls that took effect, at most one thread is between the two
  operations on the first binary semaphore, and no thread stays asleep in \<open>down\<close> while the
  value is positive and no other call is under way.\<close>

theorem counting_semaphore_correct:
  assumes "csem_fresh v0 m0" and "csem_reach bsem_down bsem_up running ut_switch m0 m"
  shows "0 \<le> cvalue (csem m) \<and> cvalue (csem m) = v0 + int (nup m) - int (ndown m) \<and>
    (\<forall>i j. in_S1 (pcof m i) \<longrightarrow> in_S1 (pcof m j) \<longrightarrow>
       bsem_waits (lib m) i = - 1 \<longrightarrow> bsem_waits (lib m) j = - 1 \<longrightarrow> i = j) \<and>
    (0 < cvalue (csem m) \<longrightarrow>
      (\<forall>i. pcof m i = Idle \<or> bsem_waits (lib m) i = binSemNum2 (csem m)) \<longrightarrow> (\<forall>i. pcof m i = Idle))"
  by (rule ut.csem_guarantees [OF assms(2) csem_fresh_inv [OF assms(1)]])

text \<open>One thread takes the first step of \<open>down\<close> on a semaphore of value 2.\<close>

definition csem_demo :: "uts csys" where
  "csem_demo = \<lparr>lib = uts0\<lparr>semaphores := (replicate MAX_BSEM (- 1))[0 := 1, 1 := 1]\<rparr>,
     csem = \<lparr>binSemNum1 = 0, binSemNum2 = 1, cvalue = 2\<rparr>, pcof = \<lambda>_. Idle, ndown = 0, nup = 0\<rparr>"

theorem counting_semaphore_correct_witness:
  "csem_fresh 2 csem_demo \<and>
   (\<exists>m. csem_reach bsem_down bsem_up running ut_switch csem_demo m \<and> pcof m 0 = D_S2 \<and> cvalue (csem m) = 2)"
proof -
  have t: "threadTable (lib csem_demo) = threadTable uts0" "ct (lib csem_demo) = Some 0"
    "alrm (lib csem_demo) = Armed 5"
    by (simp_all add: csem_demo_def uts0_table)
  have "ut_good (lib csem_demo)"
    using sched_ok_uts0 by (auto simp: ut_good_def sched_ok_def csem_demo_def uts0_table thread0_def)
  moreover have "bsem_waits (lib csem_demo) = (\<lambda>_. - 1)"
    by (auto simp: bsem_waits_def t uts0_table thread0_def fun_eq_iff)
  ultimately have fresh: "csem_fresh 2 csem_demo"
    by (simp add: csem_fresh_def csem_demo_def bsem_value_def uts0_def del: upt_rec_numeral)
  have "running (lib csem_demo) = Some 0" by (simp add: running_Some t uts0_table)
  then have "csem_reach bsem_down bsem_up running ut_switch csem_demo (csem_demo\<lparr>pcof := (pcof csem_demo)(0 := D_S2)\<rparr>)"
    by (intro csem_reach.step [OF csem_reach.start] call_down) (simp_all add: csem_demo_def)
  then show ?thesis
    using fresh counting_semaphore_correct [OF fresh, of "csem_demo\<lparr>pcof := (pcof csem_demo)(0 := D_S2)\<rparr>"]
    by (intro conjI exI [of _ "csem_demo\<lparr>pcof := (pcof csem_demo)(0 := D_S2)\<rparr>"]) (simp_all add: csem_demo_def)
qed

end
