(* ===== verification/Quiet.thy ===== *)
theory Quiet
  imports Signals
begin

text \<open>
  A process that runs in the kernel and holds no spin lock. The lock words, the interrupt
  state of the CPUs and the scheduling state of the processes change with every critical
  section and every wakeup, but nothing in the file system and the pipes depends on them:
  \<open>core\<close> is the state without them, and the behaviour of the routines that take locks for a
  moment is stated up to \<open>core\<close>.
\<close>

definition core :: "kst \<Rightarrow> kst" where
  "core s = s\<lparr>locks := \<lambda>_. spin0, cpus := \<lambda>_. cpu0, ptable := []\<rparr>"

text \<open>The running process is \<open>p\<close>, with pid \<open>pd\<close>.\<close>

definition quiet :: "nat \<Rightarrow> int \<Rightarrow> kst \<Rightarrow> bool" where
  "quiet p pd s \<longleftrightarrow> (\<forall>l. lock_free l s) \<and> ncli (thecpu s) = 0 \<and> curproc s = Some p \<and>
     p < length (ptable s) \<and> pid (ptable s ! p) = pd"

lemma core_sel:
  "mycpu (core s) = mycpu s"
  "slocks (core s) = slocks s"
  "argp (core s) = argp s"
  "mem (core s) = mem s"
  "freelist (core s) = freelist s"
  "use_lock (core s) = use_lock s"
  "kpgdir (core s) = kpgdir s"
  "nextpid (core s) = nextpid s"
  "initproc (core s) = initproc s"
  "first (core s) = first s"
  "ticks (core s) = ticks s"
  "pipes (core s) = pipes s"
  "ftable (core s) = ftable s"
  "icache (core s) = icache s"
  "bufs (core s) = bufs s"
  "klog (core s) = klog s"
  "sb (core s) = sb s"
  "disk (core s) = disk s"
  "disksize (core s) = disksize s"
  "idequeue (core s) = idequeue s"
  "havedisk1 (core s) = havedisk1 s"
  "dwrites (core s) = dwrites s"
  "switches (core s) = switches s"
  "console (core s) = console s"
  "syms (core s) = syms s"
  by (simp_all add: core_def)

lemma core_fields:
  assumes "core t = core s"
  shows "mycpu t = mycpu s" "slocks t = slocks s" "argp t = argp s" "mem t = mem s"
    "freelist t = freelist s" "use_lock t = use_lock s" "kpgdir t = kpgdir s"
    "nextpid t = nextpid s" "initproc t = initproc s" "first t = first s" "ticks t = ticks s"
    "pipes t = pipes s" "ftable t = ftable s" "icache t = icache s" "bufs t = bufs s"
    "klog t = klog s" "sb t = sb s" "disk t = disk s" "disksize t = disksize s"
    "idequeue t = idequeue s" "havedisk1 t = havedisk1 s" "dwrites t = dwrites s"
    "switches t = switches s" "console t = console s" "syms t = syms s"
  using arg_cong [OF assms, of mycpu]
    arg_cong [OF assms, of slocks]
    arg_cong [OF assms, of argp]
    arg_cong [OF assms, of mem]
    arg_cong [OF assms, of freelist]
    arg_cong [OF assms, of use_lock]
    arg_cong [OF assms, of kpgdir]
    arg_cong [OF assms, of nextpid]
    arg_cong [OF assms, of initproc]
    arg_cong [OF assms, of first]
    arg_cong [OF assms, of ticks]
    arg_cong [OF assms, of pipes]
    arg_cong [OF assms, of ftable]
    arg_cong [OF assms, of icache]
    arg_cong [OF assms, of bufs]
    arg_cong [OF assms, of klog]
    arg_cong [OF assms, of sb]
    arg_cong [OF assms, of disk]
    arg_cong [OF assms, of disksize]
    arg_cong [OF assms, of idequeue]
    arg_cong [OF assms, of havedisk1]
    arg_cong [OF assms, of dwrites]
    arg_cong [OF assms, of switches]
    arg_cong [OF assms, of console]
    arg_cong [OF assms, of syms]
  by (simp_all only: core_sel)

lemma core_lock [simp]:
  "core (upd_lock l f s) = core s" "core (upd_cpu g s) = core s" "core (upd_proc i h s) = core s"
  by (simp_all add: core_def upd_defs)

lemma core_cs [simp]: "core (enter l s) = core s" "core (leave l s) = core s" "core (wakeup1 c s) = core s"
  by (simp_all add: enter_def leave_def record_holder_def clear_holder_def free_word_def pushcli_def
      cli_def sti_def Let_def, simp add: core_def wakeup1_def)

lemma core_initlock [simp]: "core (initlock l nm s) = core s"
  by (simp add: initlock_def)

text \<open>A field update and \<open>core\<close> commute, so the effect of a routine can be read off a
  chain of updates.\<close>

lemma core_upd:
  "core (s\<lparr>slocks := a\<rparr>) = (core s)\<lparr>slocks := a\<rparr>" "core (s\<lparr>mem := b\<rparr>) = (core s)\<lparr>mem := b\<rparr>"
  "core (s\<lparr>pipes := c\<rparr>) = (core s)\<lparr>pipes := c\<rparr>" "core (s\<lparr>ftable := d\<rparr>) = (core s)\<lparr>ftable := d\<rparr>"
  "core (s\<lparr>icache := e\<rparr>) = (core s)\<lparr>icache := e\<rparr>" "core (s\<lparr>bufs := f\<rparr>) = (core s)\<lparr>bufs := f\<rparr>"
  "core (s\<lparr>klog := g\<rparr>) = (core s)\<lparr>klog := g\<rparr>" "core (s\<lparr>disk := h\<rparr>) = (core s)\<lparr>disk := h\<rparr>"
  "core (s\<lparr>dwrites := i\<rparr>) = (core s)\<lparr>dwrites := i\<rparr>" "core (s\<lparr>sb := j\<rparr>) = (core s)\<lparr>sb := j\<rparr>"
  by (simp_all add: core_def)

lemma quietD:
  assumes "quiet p pd s"
  shows "lock_free l s" "cpu_ok s" "curproc s = Some p" "p < length (ptable s)" "pid (ptable s ! p) = pd"
  using assms by (simp_all add: quiet_def cpu_ok_def)

lemma quiet_acquire: "quiet p pd s \<Longrightarrow> acquire l s = Ok () (enter l s)"
  by (rule acquire_Ok) (simp add: quiet_def)

text \<open>Leaving a critical section that was entered from a quiet state.\<close>

lemma quiet_leave:
  assumes "quiet p pd s" "locks t = locks (enter l s)" "cpus t = cpus (enter l s)" "mycpu t = mycpu s"
    "length (ptable t) = length (ptable s)" "pid (ptable t ! p) = pid (ptable s ! p)"
  shows "release l t = Ok () (leave l t)" "quiet p pd (leave l t)"
proof -
  have "in_cs l (enter l s)" using quietD(2) [OF assms(1)] by (rule in_cs_enter)
  then have "in_cs l t" by (simp add: in_cs_cong [OF assms(2,3)] assms(4))
  then show "release l t = Ok () (leave l t)" by (rule release_Ok)
  have "lock_free k (leave l t)" for k
  proof (cases "k = l")
    case False
    then show ?thesis using quietD(1) [OF assms(1), of k] assms(2) by (simp add: lock_free_def)
  qed simp
  moreover have "ncli (thecpu t) = 1" "curproc t = Some p"
    using assms(1,3,4) by (simp_all add: quiet_def)
  ultimately show "quiet p pd (leave l t)"
    using assms(1,5,6) by (simp add: quiet_def)
qed

lemma lock_free_wakeup1: "lock_free k (wakeup1 c s) = lock_free k s"
  by (simp add: lock_free_def)

text \<open>Waking inside a critical section.\<close>

lemma wakeup_nested:
  assumes "quiet p pd s" "locks t = locks (enter l s)" "cpus t = cpus (enter l s)" "mycpu t = mycpu s"
    "l \<noteq> L_ptable" "length (ptable t) = length (ptable s)" "pid (ptable t ! p) = pid (ptable s ! p)"
  shows "\<exists>u. wakeup c t = Ok () u \<and> release l u = Ok () (leave l u) \<and> quiet p pd (leave l u) \<and> core u = core t"
proof -
  have free: "lock_free L_ptable t"
    using quietD(1) [OF assms(1), of L_ptable] assms(2,5) by (simp add: lock_free_def)
  have "in_cs l (enter l s)" using quietD(2) [OF assms(1)] by (rule in_cs_enter)
  then have cs: "in_cs l t" by (simp add: in_cs_cong [OF assms(2,3)] assms(4))
  then have ok: "cpu_ok t" by (simp add: cpu_ok_def in_cs_def)
  let ?u = "leave L_ptable (wakeup1 c (enter L_ptable t))"
  have run: "wakeup c t = Ok () ?u" by (rule wakeup_eq [OF free ok])
  have ncli: "ncli (thecpu t) = 1" "curproc t = Some p" using assms(1,3,4) by (simp_all add: quiet_def)
  have "eflags (thecpu ?u) = eflags (thecpu t)"
    by (rule eflags_cs [OF ok]) simp_all
  then have cs': "in_cs l ?u"
    using cs assms(5) ncli by (simp add: in_cs_def holding_def)
  have "lock_free k (leave l ?u)" for k
  proof (cases "k = l")
    case False
    then have "lock_free k t"
      using quietD(1) [OF assms(1), of k] assms(2) by (simp add: lock_free_def)
    then show ?thesis using False by (cases "k = L_ptable") (simp_all add: lock_free_wakeup1)
  qed simp
  then have "quiet p pd (leave l ?u)"
    using assms(1,4,6,7) ncli by (simp add: quiet_def ptable_wakeup1)
  then show ?thesis using run release_Ok [OF cs'] by (intro exI [of _ ?u]) simp
qed

end
