(* ===== verification/Sleeplock.thy ===== *)
theory Sleeplock
  imports Quiet
begin

text \<open>
  Sleep locks (sleeplock.c): long-term locks whose waiters give up the CPU. The word
  \<open>locked\<close> is protected by the spin lock inside the sleep lock.
\<close>

definition initsleeplock :: "sleepid \<Rightarrow> string \<Rightarrow> kst \<Rightarrow> kst" where
  "initsleeplock lk nm s =
     (let s = initlock (L_sleep lk) ''sleep lock'' s;
          s = upd_slock lk (\<lambda>l. l\<lparr>slname := nm\<rparr>) s;
          s = upd_slock lk (\<lambda>l. l\<lparr>slocked := 0\<rparr>) s
      in upd_slock lk (\<lambda>l. l\<lparr>slpid := 0\<rparr>) s)"

text \<open>\<open>while (lk->locked) sleep(lk, &lk->lk);\<close>\<close>

definition await_unlocked :: "env \<Rightarrow> sleepid \<Rightarrow> kst \<Rightarrow> unit kres" where
  "await_unlocked E lk =
     loop (\<lambda>s. if slocked (slocks s lk) \<noteq> 0
               then seq (sleep E (Ch_sleep lk) (Some (L_sleep lk)) s) (Ok None)
               else Ok (Some ()) s)"

definition acquiresleep :: "env \<Rightarrow> sleepid \<Rightarrow> kst \<Rightarrow> unit kres" where
  "acquiresleep E lk s =
     seq (acquire (L_sleep lk) s) (\<lambda>s.
     seq (await_unlocked E lk s) (\<lambda>s.
       let s = upd_slock lk (\<lambda>l. l\<lparr>slocked := 1\<rparr>) s
       in with_proc s (\<lambda>p.
            release (L_sleep lk) (upd_slock lk (\<lambda>l. l\<lparr>slpid := pid (ptable s ! p)\<rparr>) s))))"

definition releasesleep :: "sleepid \<Rightarrow> kst \<Rightarrow> unit kres" where
  "releasesleep lk s =
     seq (acquire (L_sleep lk) s) (\<lambda>s.
       let s = upd_slock lk (\<lambda>l. l\<lparr>slocked := 0\<rparr>) s;
           s = upd_slock lk (\<lambda>l. l\<lparr>slpid := 0\<rparr>) s
       in seq (wakeup (Ch_sleep lk) s) (release (L_sleep lk)))"

definition holdingsleep :: "sleepid \<Rightarrow> kst \<Rightarrow> u32 kres" where
  "holdingsleep lk s =
     seq (acquire (L_sleep lk) s) (\<lambda>s.
       let r = slocked (slocks s lk)
       in seq (release (L_sleep lk) s) (Ok r))"

section \<open>Behaviour without contention\<close>

lemma core_upd_slock: "core (upd_slock lk f s) = upd_slock lk f (core s)"
  by (simp add: core_def upd_defs)

lemma slock_frame [simp]:
  "locks (upd_slock lk f s) = locks s" "cpus (upd_slock lk f s) = cpus s"
  "mycpu (upd_slock lk f s) = mycpu s" "ptable (upd_slock lk f s) = ptable s"
  "slocks (upd_slock lk f s) = (slocks s)(lk := f (slocks s lk))"
  "slocks (core s) = slocks s"
  by (simp_all add: upd_defs core_def)

lemma upd_slock_twice [simp]: "upd_slock lk f (upd_slock lk g s) = upd_slock lk (f \<circ> g) s"
  by (simp add: upd_defs)

text \<open>A free sleep lock is taken at once, whatever the other processes do.\<close>

lemma acquiresleep_free:
  assumes "quiet p pd s" "slocked (slocks s lk) = 0"
  obtains t where "acquiresleep E lk s = Ok () t" "quiet p pd t"
    "core t = core (upd_slock lk (\<lambda>l. l\<lparr>slocked := 1, slpid := pd\<rparr>) s)"
proof -
  let ?u = "upd_slock lk (\<lambda>l. l\<lparr>slocked := 1, slpid := pd\<rparr>) (enter (L_sleep lk) s)"
  have "acquire (L_sleep lk) s = Ok () (enter (L_sleep lk) s)"
    by (rule quiet_acquire [OF assms(1)])
  moreover have "await_unlocked E lk (enter (L_sleep lk) s) = Ok () (enter (L_sleep lk) s)"
    unfolding await_unlocked_def by (subst loop_unfold) (simp add: assms(2))
  moreover have "release (L_sleep lk) ?u = Ok () (leave (L_sleep lk) ?u)"
    and q: "quiet p pd (leave (L_sleep lk) ?u)"
    by (rule quiet_leave [OF assms(1)]; simp)+
  ultimately have "acquiresleep E lk s = Ok () (leave (L_sleep lk) ?u)"
    using quietD(3,5) [OF assms(1)] by (simp add: acquiresleep_def Let_def with_proc_def comp_def)
  then show ?thesis using q that by (simp add: core_upd_slock)
qed

lemma releasesleep_quiet:
  assumes "quiet p pd s"
  obtains t where "releasesleep lk s = Ok () t" "quiet p pd t"
    "core t = core (upd_slock lk (\<lambda>l. l\<lparr>slocked := 0, slpid := 0\<rparr>) s)"
proof -
  let ?u = "upd_slock lk (\<lambda>l. l\<lparr>slocked := 0, slpid := 0\<rparr>) (enter (L_sleep lk) s)"
  have "acquire (L_sleep lk) s = Ok () (enter (L_sleep lk) s)"
    by (rule quiet_acquire [OF assms(1)])
  moreover obtain v where "wakeup (Ch_sleep lk) ?u = Ok () v"
    "release (L_sleep lk) v = Ok () (leave (L_sleep lk) v)" "quiet p pd (leave (L_sleep lk) v)" "core v = core ?u"
    using wakeup_nested [OF assms(1), of ?u "L_sleep lk"] by fastforce
  ultimately show ?thesis
    using that [of "leave (L_sleep lk) v"] by (simp add: releasesleep_def Let_def comp_def core_upd_slock)
qed

lemma holdingsleep_quiet:
  assumes "quiet p pd s"
  obtains t where "holdingsleep lk s = Ok (slocked (slocks s lk)) t" "quiet p pd t" "core t = core s"
proof -
  have "acquire (L_sleep lk) s = Ok () (enter (L_sleep lk) s)"
    by (rule quiet_acquire [OF assms(1)])
  moreover have "release (L_sleep lk) (enter (L_sleep lk) s) = Ok () (leave (L_sleep lk) (enter (L_sleep lk) s))"
    "quiet p pd (leave (L_sleep lk) (enter (L_sleep lk) s))"
    by (rule quiet_leave [OF assms(1)]; simp)+
  ultimately show ?thesis using that by (simp add: holdingsleep_def Let_def)
qed

end
