(* ===== verification/Dll.thy ===== *)
theory Dll
  imports Prelude
begin

text \<open>
  Circular doubly linked lists with a list head, as bio.c keeps them: \<open>nx\<close> and \<open>pv\<close> give the
  successor and the predecessor of a node, \<open>h\<close> is the head, and \<open>dll nx pv h xs\<close> says that the
  nodes between head and head are \<open>xs\<close> in order.
\<close>

primrec chain :: "('n \<Rightarrow> 'n) \<Rightarrow> 'n \<Rightarrow> 'n list \<Rightarrow> 'n \<Rightarrow> bool" where
  "chain f a [] b = (f a = b)"
| "chain f a (x # xs) b = (f a = x \<and> chain f x xs b)"

definition dll :: "('n \<Rightarrow> 'n) \<Rightarrow> ('n \<Rightarrow> 'n) \<Rightarrow> 'n \<Rightarrow> 'n list \<Rightarrow> bool" where
  "dll nx pv h xs \<longleftrightarrow> chain nx h xs h \<and> chain pv h (rev xs) h \<and> distinct (h # xs)"

lemma chain_append [simp]: "chain f a (xs @ y # ys) b \<longleftrightarrow> chain f a xs y \<and> chain f y ys b"
  by (induction xs arbitrary: a) simp_all

lemma chain_cong: "(\<And>x. x \<in> set (a # xs) \<Longrightarrow> g x = f x) \<Longrightarrow> chain g a xs b = chain f a xs b"
  by (induction xs arbitrary: a) simp_all

lemma chain_upd [simp]: "y \<notin> set (a # xs) \<Longrightarrow> chain (f(y := z)) a xs b = chain f a xs b"
  by (rule chain_cong) auto

text \<open>The last node of a chain is the only one whose successor matters for where it ends.\<close>

lemma chain_redirect:
  assumes "chain f a xs b" "distinct (a # xs)"
  shows "chain (f(last (a # xs) := c)) a xs c"
  using assms
proof (induction xs arbitrary: a)
  case (Cons x xs)
  then have "last (a # x # xs) = last (x # xs)" "a \<noteq> last (x # xs)" by auto
  then show ?case using Cons by auto
qed simp

lemma chain_hd: "chain f a xs b \<Longrightarrow> f a = hd (xs @ [b])"
  by (cases xs) simp_all

lemma dll_ends:
  assumes "dll nx pv h (xs @ b # ys)"
  shows "nx b = hd (ys @ [h])" "pv b = last (h # xs)"
proof -
  have "chain nx b ys h" "chain pv b (rev xs) h" using assms by (simp_all add: dll_def)
  then show "nx b = hd (ys @ [h])" "pv b = last (h # xs)"
    by (auto dest!: chain_hd simp: hd_append last_rev hd_rev)
qed

text \<open>Taking a node out: \<open>b->next->prev = b->prev; b->prev->next = b->next\<close>.\<close>

lemma dll_unlink:
  assumes "dll nx pv h (xs @ b # ys)"
  shows "dll (nx(pv b := nx b)) (pv(nx b := pv b)) h (xs @ ys)"
proof -
  note ends = dll_ends [OF assms]
  have c: "chain nx h xs b" "chain nx b ys h" "chain pv h (rev ys) b" "chain pv b (rev xs) h"
    and d: "distinct (h # xs @ b # ys)"
    using assms by (simp_all add: dll_def)
  have l: "last (h # xs) \<in> set (h # xs)" "last (h # rev ys) \<in> set (h # rev ys)"
    by (rule last_in_set, simp)+
  have "chain (nx(pv b := nx b)) h (xs @ ys) h"
  proof (cases ys)
    case Nil
    then show ?thesis using chain_redirect [OF c(1), of h] d ends by simp
  next
    case (Cons y zs)
    have "chain (nx(pv b := nx b)) y zs h"
      using c(2) d l(1) unfolding Cons ends(2) by (subst chain_upd) auto
    then show ?thesis
      using chain_redirect [OF c(1), of y] d ends(1) by (simp add: Cons ends(2))
  qed
  moreover have "chain (pv(nx b := pv b)) h (rev (xs @ ys)) h"
  proof (cases "rev xs")
    case Nil
    then have "last (h # rev ys) = nx b" "pv b = h" using ends d by (auto simp: hd_append last_rev)
    then show ?thesis using chain_redirect [OF c(3), of h] d Nil by simp
  next
    case (Cons y zs)
    then have pb: "pv b = y" using c(4) by simp
    have nb: "nx b = last (h # rev ys)" using ends(1) by (cases ys) (simp_all add: last_rev)
    have y: "set (y # zs) = set xs" using arg_cong [OF Cons, of set] by simp
    have "chain (pv(nx b := pv b)) y zs h"
      using c(4) d y l(2) unfolding Cons nb by (subst chain_upd) auto
    then show ?thesis
      using chain_redirect [OF c(3), of y] d nb pb Cons by simp
  qed
  ultimately show ?thesis using d by (simp add: dll_def)
qed

text \<open>Putting a node in front: \<open>b->next = h->next; b->prev = h; h->next->prev = b; h->next = b\<close>.\<close>

lemma dll_push:
  assumes "dll nx pv h xs" "b \<notin> set (h # xs)"
  shows "dll (nx(b := nx h, h := b)) (pv(b := h, nx h := b)) h (b # xs)"
proof (cases xs)
  case Nil
  then show ?thesis using assms by (simp add: dll_def)
next
  case (Cons x ys)
  have c: "chain nx h xs h" "chain pv h (rev ys) x" "pv x = h" and d: "distinct (h # xs)"
    using assms(1) by (simp_all add: dll_def Cons)
  have "nx h = x" using c(1) by (simp add: Cons)
  moreover have "chain (nx(b := x, h := b)) x ys h"
    using c(1) d assms(2) by (auto simp: Cons)
  moreover have "chain (pv(b := h, x := b)) h (rev ys) x"
    using c(2) d assms(2) by (auto simp: Cons)
  ultimately show ?thesis using assms d by (auto simp: dll_def Cons)
qed

end
