(* ===== verification/Bio.thy ===== *)
theory Bio
  imports Sleeplock Dll
begin

unbundle bit_operations_syntax

text \<open>
  The buffer cache (bio.c) over the memory disk (memide.c).

  Buffers are entries of \<open>bufs\<close>, linked by \<open>bnext\<close> and \<open>bprev\<close> in the order of use, entry
  \<open>NBUF\<close> being \<open>bcache.head\<close>. \<open>bcache_ok H s\<close> is the invariant of the cache when the running
  process holds the buffers \<open>H\<close>; \<open>block s n\<close> is what the cache and the disk together say is
  in block \<open>n\<close>. The operations are specified by what they do to \<open>block\<close>, to the disk and to the
  set \<open>pinned\<close> of blocks that must not leave the cache.
\<close>

section \<open>memide.c\<close>

definition ideinit :: "u32 \<Rightarrow> kst \<Rightarrow> kst" where
  "ideinit img_size s = s\<lparr>disksize := img_size div of_nat BSIZE\<rparr>"

definition ideintr :: "kst \<Rightarrow> kst" where
  "ideintr s = s"

definition iderw :: "nat \<Rightarrow> kst \<Rightarrow> unit kres" where
  "iderw b s =
     bnd (holdingsleep (BufLock b) s) (\<lambda>h s.
       if h = 0 then Panic ''iderw: buf not locked''
       else if bflags (bufs s ! b) AND (B_VALID OR B_DIRTY) = B_VALID then Panic ''iderw: nothing to do''
       else if bdev (bufs s ! b) \<noteq> 1 then Panic ''iderw: request not for disk 1''
       else if blockno (bufs s ! b) \<ge> disksize s then Panic ''iderw: block out of range''
       else let p = blockno (bufs s ! b);
                s = (if bflags (bufs s ! b) AND B_DIRTY \<noteq> 0
                     then let s = upd_buf b (\<lambda>b. b\<lparr>bflags := bflags b AND NOT B_DIRTY\<rparr>) s;
                              d = bdata (bufs s ! b)
                          in s\<lparr>disk := (disk s)(p := d), dwrites := dwrites s @ [(p, d)]\<rparr>
                     else upd_buf b (\<lambda>b. b\<lparr>bdata := disk s p\<rparr>) s)
            in Ok () (upd_buf b (\<lambda>b. b\<lparr>bflags := bflags b OR B_VALID\<rparr>) s))"

section \<open>bio.c\<close>

definition set_next :: "nat \<Rightarrow> nat \<Rightarrow> kst \<Rightarrow> kst" where
  "set_next b n s = upd_buf b (\<lambda>b. b\<lparr>bnext := n\<rparr>) s"

definition set_prev :: "nat \<Rightarrow> nat \<Rightarrow> kst \<Rightarrow> kst" where
  "set_prev b n s = upd_buf b (\<lambda>b. b\<lparr>bprev := n\<rparr>) s"

abbreviation bhead :: nat where "bhead \<equiv> NBUF"

abbreviation nextof :: "kst \<Rightarrow> nat \<Rightarrow> nat" where "nextof s b \<equiv> bnext (bufs s ! b)"
abbreviation prevof :: "kst \<Rightarrow> nat \<Rightarrow> nat" where "prevof s b \<equiv> bprev (bufs s ! b)"

definition binit_buf :: "nat \<Rightarrow> kst \<Rightarrow> kst" where
  "binit_buf b s =
     (let s = set_next b (nextof s bhead) s;
          s = set_prev b bhead s;
          s = initsleeplock (BufLock b) ''buffer'' s;
          s = set_prev (nextof s bhead) b s
      in set_next bhead b s)"

definition binit :: "kst \<Rightarrow> kst" where
  "binit s =
     (let s = initlock L_bcache ''bcache'' s;
          s = set_prev bhead bhead s;
          s = set_next bhead bhead s
      in fold binit_buf [0..<NBUF] s)"

text \<open>The two list walks \<open>for(b = head.next; b != &head; b = b->next)\<close> of \<open>bget\<close>, up to the first
  buffer that passes the test.\<close>

partial_function (option) walk :: "(nat \<Rightarrow> nat) \<Rightarrow> (nat \<Rightarrow> bool) \<Rightarrow> nat \<Rightarrow> nat option option" where
  "walk f P b = (if b = bhead then Some None else if P b then Some (Some b) else walk f P (f b))"

definition bget :: "env \<Rightarrow> u32 \<Rightarrow> u32 \<Rightarrow> kst \<Rightarrow> nat kres" where
  "bget E dev bno s =
     seq (acquire L_bcache s) (\<lambda>s.
       case walk (nextof s) (\<lambda>b. bdev (bufs s ! b) = dev \<and> blockno (bufs s ! b) = bno) (nextof s bhead) of
         None \<Rightarrow> Stuck
       | Some (Some b) \<Rightarrow>
           (let s = upd_buf b (\<lambda>b. b\<lparr>refcnt := refcnt b + 1\<rparr>) s
            in seq (release L_bcache s) (\<lambda>s. seq (acquiresleep E (BufLock b) s) (Ok b)))
       | Some None \<Rightarrow>
           (case walk (prevof s) (\<lambda>b. refcnt (bufs s ! b) = 0 \<and> bflags (bufs s ! b) AND B_DIRTY = 0)
                   (prevof s bhead) of
              None \<Rightarrow> Stuck
            | Some (Some b) \<Rightarrow>
                (let s = upd_buf b (\<lambda>b. b\<lparr>bdev := dev, blockno := bno, bflags := 0, refcnt := 1\<rparr>) s
                 in seq (release L_bcache s) (\<lambda>s. seq (acquiresleep E (BufLock b) s) (Ok b)))
            | Some None \<Rightarrow> Panic ''bget: no buffers''))"

definition bread :: "env \<Rightarrow> u32 \<Rightarrow> u32 \<Rightarrow> kst \<Rightarrow> nat kres" where
  "bread E dev bno s =
     bnd (bget E dev bno s) (\<lambda>b s.
       if bflags (bufs s ! b) AND B_VALID = 0 then seq (iderw b s) (Ok b) else Ok b s)"

definition bwrite :: "nat \<Rightarrow> kst \<Rightarrow> unit kres" where
  "bwrite b s =
     bnd (holdingsleep (BufLock b) s) (\<lambda>h s.
       if h = 0 then Panic ''bwrite''
       else iderw b (upd_buf b (\<lambda>b. b\<lparr>bflags := bflags b OR B_DIRTY\<rparr>) s))"

definition to_front :: "nat \<Rightarrow> kst \<Rightarrow> kst" where
  "to_front b s =
     (let s = set_prev (nextof s b) (prevof s b) s;
          s = set_next (prevof s b) (nextof s b) s;
          s = set_next b (nextof s bhead) s;
          s = set_prev b bhead s;
          s = set_prev (nextof s bhead) b s
      in set_next bhead b s)"

definition brelse :: "nat \<Rightarrow> kst \<Rightarrow> unit kres" where
  "brelse b s =
     bnd (holdingsleep (BufLock b) s) (\<lambda>h s.
       if h = 0 then Panic ''brelse''
       else seq (releasesleep (BufLock b) s) (\<lambda>s.
            seq (acquire L_bcache s) (\<lambda>s.
              let s = upd_buf b (\<lambda>b. b\<lparr>refcnt := refcnt b - 1\<rparr>) s;
                  s = (if refcnt (bufs s ! b) = 0 then to_front b s else s)
              in release L_bcache s)))"

text \<open>Code that holds a buffer writes its data through \<open>b->data\<close>.\<close>

definition set_data :: "nat \<Rightarrow> u8 list \<Rightarrow> kst \<Rightarrow> kst" where
  "set_data b d s = upd_buf b (\<lambda>b. b\<lparr>bdata := d\<rparr>) s"


section \<open>The invariant and the contents of a block\<close>

definition cached :: "kst \<Rightarrow> nat \<Rightarrow> u32 \<Rightarrow> bool" where
  "cached s i n \<longleftrightarrow> i < NBUF \<and> bdev (bufs s ! i) = 1 \<and> blockno (bufs s ! i) = n \<and> bflags (bufs s ! i) \<noteq> 0"

definition block :: "kst \<Rightarrow> u32 \<Rightarrow> u8 list" where
  "block s n =
     (case find_idx (\<lambda>b. bdev b = 1 \<and> blockno b = n \<and> bflags b \<noteq> 0) (take NBUF (bufs s)) of
        None \<Rightarrow> disk s n
      | Some i \<Rightarrow> bdata (bufs s ! i))"

definition pinned :: "kst \<Rightarrow> u32 set" where
  "pinned s = {n. \<exists>i. cached s i n \<and> bflags (bufs s ! i) = 6}"

text \<open>A buffer the process holds, and one that nobody holds.\<close>

definition buf_held :: "kst \<Rightarrow> nat \<Rightarrow> bool" where
  "buf_held s i \<longleftrightarrow> slocked (slocks s (BufLock i)) \<noteq> 0 \<and> refcnt (bufs s ! i) = 1 \<and>
     bdev (bufs s ! i) = 1 \<and> bflags (bufs s ! i) \<noteq> 0"

definition buf_free :: "kst \<Rightarrow> nat \<Rightarrow> bool" where
  "buf_free s i \<longleftrightarrow> slocked (slocks s (BufLock i)) = 0 \<and> refcnt (bufs s ! i) = 0 \<and>
     (bflags (bufs s ! i) = 2 \<longrightarrow> bdata (bufs s ! i) = disk s (blockno (bufs s ! i)))"

definition buf_ok :: "kst \<Rightarrow> nat \<Rightarrow> bool" where
  "buf_ok s i \<longleftrightarrow> length (bdata (bufs s ! i)) = BSIZE \<and> bflags (bufs s ! i) \<in> {0, 2, 6} \<and>
     (bflags (bufs s ! i) \<noteq> 0 \<longrightarrow> bdev (bufs s ! i) = 1)"

definition links_ok :: "kst \<Rightarrow> bool" where
  "links_ok s \<longleftrightarrow> (\<exists>L. dll (nextof s) (prevof s) bhead L \<and> set L = {..<NBUF})"

definition bcache_ok :: "nat set \<Rightarrow> kst \<Rightarrow> bool" where
  "bcache_ok H s \<longleftrightarrow> length (bufs s) = Suc NBUF \<and> H \<subseteq> {..<NBUF} \<and> links_ok s \<and>
     (\<forall>n. length (disk s n) = BSIZE) \<and>
     (\<forall>i<NBUF. buf_ok s i \<and> (if i \<in> H then buf_held s i else buf_free s i)) \<and>
     (\<forall>i<NBUF. \<forall>j<NBUF. bdev (bufs s ! i) = 1 \<longrightarrow> bdev (bufs s ! j) = 1 \<longrightarrow>
        blockno (bufs s ! i) = blockno (bufs s ! j) \<longrightarrow> i = j)"

text \<open>The state without what the cache alone uses.\<close>

definition above :: "kst \<Rightarrow> kst" where
  "above s = (core s)\<lparr>bufs := [], slocks := (\<lambda>k. case k of
     BufLock _ \<Rightarrow> \<lparr>slocked = 0, slname = [], slpid = 0\<rparr> | InodeLock i \<Rightarrow> slocks s (InodeLock i))\<rparr>"

lemma above_core:
  assumes "core t = core s"
  shows "above t = above s"
  by (simp add: above_def core_fields(2) [OF assms] assms)

lemma above_sel:
  "mycpu (above s) = mycpu s"
  "argp (above s) = argp s"
  "mem (above s) = mem s"
  "freelist (above s) = freelist s"
  "use_lock (above s) = use_lock s"
  "kpgdir (above s) = kpgdir s"
  "nextpid (above s) = nextpid s"
  "initproc (above s) = initproc s"
  "first (above s) = first s"
  "ticks (above s) = ticks s"
  "pipes (above s) = pipes s"
  "ftable (above s) = ftable s"
  "icache (above s) = icache s"
  "klog (above s) = klog s"
  "sb (above s) = sb s"
  "disk (above s) = disk s"
  "disksize (above s) = disksize s"
  "idequeue (above s) = idequeue s"
  "havedisk1 (above s) = havedisk1 s"
  "dwrites (above s) = dwrites s"
  "switches (above s) = switches s"
  "console (above s) = console s"
  "syms (above s) = syms s"
  by (simp_all add: above_def core_def)

lemma above_fields:
  assumes "above t = above s"
  shows "mycpu t = mycpu s" "argp t = argp s" "mem t = mem s"
    "freelist t = freelist s" "use_lock t = use_lock s" "kpgdir t = kpgdir s"
    "nextpid t = nextpid s" "initproc t = initproc s" "first t = first s" "ticks t = ticks s"
    "pipes t = pipes s" "ftable t = ftable s" "icache t = icache s"
    "klog t = klog s" "sb t = sb s" "disk t = disk s" "disksize t = disksize s"
    "idequeue t = idequeue s" "havedisk1 t = havedisk1 s" "dwrites t = dwrites s"
    "switches t = switches s" "console t = console s" "syms t = syms s"
  using arg_cong [OF assms, of mycpu]
    arg_cong [OF assms, of argp]
    arg_cong [OF assms, of mem]
    arg_cong [OF assms, of freelist]
    arg_cong [OF assms, of use_lock]
    arg_cong [OF assms, of kpgdir]
    arg_cong [OF assms, of nextpid]
    arg_cong [OF assms, of initproc]
    arg_cong [OF assms, of first]
    arg_cong [OF assms, of ticks]
    arg_cong [OF assms, of pipes]
    arg_cong [OF assms, of ftable]
    arg_cong [OF assms, of icache]
    arg_cong [OF assms, of klog]
    arg_cong [OF assms, of sb]
    arg_cong [OF assms, of disk]
    arg_cong [OF assms, of disksize]
    arg_cong [OF assms, of idequeue]
    arg_cong [OF assms, of havedisk1]
    arg_cong [OF assms, of dwrites]
    arg_cong [OF assms, of switches]
    arg_cong [OF assms, of console]
    arg_cong [OF assms, of syms]
  by (simp_all only: above_sel)

lemma bcache_core:
  assumes "core t = core s"
  shows "bcache_ok H t = bcache_ok H s" "block t = block s" "pinned t = pinned s" "cached t = cached s"
  by (simp_all add: bcache_ok_def links_ok_def buf_ok_def buf_held_def buf_free_def block_def pinned_def
      cached_def fun_eq_iff core_fields [OF assms] cong: option.case_cong)

lemma bcacheD:
  assumes "bcache_ok H s"
  shows "length (bufs s) = Suc NBUF" "H \<subseteq> {..<NBUF}" "links_ok s" "\<And>n. length (disk s n) = BSIZE"
    "\<And>i. i < NBUF \<Longrightarrow> buf_ok s i" "\<And>i. i \<in> H \<Longrightarrow> buf_held s i" "\<And>i. i < NBUF \<Longrightarrow> i \<notin> H \<Longrightarrow> buf_free s i"
    "\<And>i j. i < NBUF \<Longrightarrow> j < NBUF \<Longrightarrow> bdev (bufs s ! i) = 1 \<Longrightarrow> bdev (bufs s ! j) = 1 \<Longrightarrow>
        blockno (bufs s ! i) = blockno (bufs s ! j) \<Longrightarrow> i = j"
  using assms by (auto simp: bcache_ok_def split: if_splits)

lemma block_cached:
  assumes "bcache_ok H s" "cached s i n"
  shows "block s n = bdata (bufs s ! i)"
proof -
  let ?P = "\<lambda>b. bdev b = 1 \<and> blockno b = n \<and> bflags b \<noteq> 0"
  have len: "length (take NBUF (bufs s)) = NBUF" by (simp add: bcacheD(1) [OF assms(1)])
  have "?P (take NBUF (bufs s) ! i)" and i: "i < NBUF" using assms(2) by (auto simp: cached_def)
  then obtain j where j: "find_idx ?P (take NBUF (bufs s)) = Some j"
    using find_idx_ex [of i "take NBUF (bufs s)" ?P] by (auto simp only: len)
  have "j < NBUF" using find_idx_bound [OF j] len by simp
  moreover have "?P (bufs s ! j)" using find_idx_holds [OF j] \<open>j < NBUF\<close> by simp
  ultimately have "j = i" using assms(2) i by (auto simp: cached_def intro: bcacheD(8) [OF assms(1)])
  then show ?thesis using j by (simp add: block_def)
qed

lemma block_uncached:
  assumes "bcache_ok H s" "\<And>i. \<not> cached s i n"
  shows "block s n = disk s n"
proof -
  have none: "find_idx (\<lambda>b. bdev b = 1 \<and> blockno b = n \<and> bflags b \<noteq> 0) (take NBUF (bufs s)) = None"
    using assms(2) bcacheD(1) [OF assms(1)] by (auto simp: cached_def in_set_conv_nth)
  show ?thesis by (simp add: block_def none)
qed


section \<open>Updates of one buffer\<close>

lemma buf_frame [simp]:
  "locks (upd_buf b f s) = locks s" "cpus (upd_buf b f s) = cpus s" "mycpu (upd_buf b f s) = mycpu s"
  "ptable (upd_buf b f s) = ptable s" "slocks (upd_buf b f s) = slocks s" "disk (upd_buf b f s) = disk s"
  "disksize (upd_buf b f s) = disksize s" "dwrites (upd_buf b f s) = dwrites s"
  "bufs (upd_buf b f s) = (bufs s)[b := f (bufs s ! b)]"
  "bufs (upd_slock lk g s) = bufs s" "disk (upd_slock lk g s) = disk s"
  "disksize (upd_slock lk g s) = disksize s" "dwrites (upd_slock lk g s) = dwrites s"
  by (simp_all add: upd_defs)

lemma core_upd_buf: "core (upd_buf b f s) = upd_buf b f (core s)"
  by (simp add: core_def upd_defs)

lemma above_upd [simp]: "above (upd_buf b f s) = above s" "above (upd_slock (BufLock i) g s) = above s"
  by (auto simp: above_def core_def upd_defs fun_eq_iff split: sleepid.split)

lemma above_disk: "above (s\<lparr>disk := a, dwrites := w\<rparr>) = (above s)\<lparr>disk := a, dwrites := w\<rparr>"
  by (simp add: above_def core_def cong: sleepid.case_cong)

lemma core_congs:
  assumes "core t = core s"
  shows "core (upd_buf b f t) = core (upd_buf b f s)" "core (upd_slock lk g t) = core (upd_slock lk g s)"
  using assms by (simp_all add: core_upd_buf core_upd_slock)

lemma links_set [simp]:
  assumes "b < length (bufs s)"
  shows "nextof (set_next b n s) = (nextof s)(b := n)" "prevof (set_next b n s) = prevof s"
    "prevof (set_prev b n s) = (prevof s)(b := n)" "nextof (set_prev b n s) = nextof s"
  using assms by (auto simp: set_next_def set_prev_def nth_list_update fun_eq_iff)

lemma set_link_frame [simp]:
  "locks (set_next b n s) = locks s" "cpus (set_next b n s) = cpus s" "mycpu (set_next b n s) = mycpu s"
  "ptable (set_next b n s) = ptable s" "slocks (set_next b n s) = slocks s" "disk (set_next b n s) = disk s"
  "length (bufs (set_next b n s)) = length (bufs s)" "above (set_next b n s) = above s"
  "disksize (set_next b n s) = disksize s" "disksize (set_prev b n s) = disksize s"
  "locks (set_prev b n s) = locks s" "cpus (set_prev b n s) = cpus s" "mycpu (set_prev b n s) = mycpu s"
  "ptable (set_prev b n s) = ptable s" "slocks (set_prev b n s) = slocks s" "disk (set_prev b n s) = disk s"
  "length (bufs (set_prev b n s)) = length (bufs s)" "above (set_prev b n s) = above s"
  by (simp_all add: set_next_def set_prev_def)

lemma set_link_fields [simp]:
  "bflags (bufs (set_next b n s) ! i) = bflags (bufs s ! i)" "bdev (bufs (set_next b n s) ! i) = bdev (bufs s ! i)"
  "blockno (bufs (set_next b n s) ! i) = blockno (bufs s ! i)" "refcnt (bufs (set_next b n s) ! i) = refcnt (bufs s ! i)"
  "bdata (bufs (set_next b n s) ! i) = bdata (bufs s ! i)"
  "bflags (bufs (set_prev b n s) ! i) = bflags (bufs s ! i)" "bdev (bufs (set_prev b n s) ! i) = bdev (bufs s ! i)"
  "blockno (bufs (set_prev b n s) ! i) = blockno (bufs s ! i)" "refcnt (bufs (set_prev b n s) ! i) = refcnt (bufs s ! i)"
  "bdata (bufs (set_prev b n s) ! i) = bdata (bufs s ! i)"
  by (simp_all add: set_next_def set_prev_def nth_upd)

lemma set_link_at:
  "bnext (bufs (set_next b n s) ! i) = (if i = b \<and> b < length (bufs s) then n else bnext (bufs s ! i))"
  "bprev (bufs (set_next b n s) ! i) = bprev (bufs s ! i)"
  "bprev (bufs (set_prev b n s) ! i) = (if i = b \<and> b < length (bufs s) then n else bprev (bufs s ! i))"
  "bnext (bufs (set_prev b n s) ! i) = bnext (bufs s ! i)"
  by (auto simp: set_next_def set_prev_def nth_upd)

section \<open>Walking the list\<close>

lemma walk_find:
  assumes "chain f a xs bhead" "bhead \<notin> set xs"
  shows "walk f P (f a) = Some (List.find P xs)"
  using assms
proof (induction xs arbitrary: a)
  case Nil
  then show ?case by (subst walk.simps) simp
next
  case (Cons x xs)
  then show ?case by (subst walk.simps) auto
qed

text \<open>Both walks of \<open>bget\<close> end, and find a buffer that passes the test if there is one.\<close>

lemma walk_links:
  assumes "links_ok s"
  obtains L where "walk (nextof s) P (nextof s bhead) = Some (List.find P L)"
    "walk (prevof s) Q (prevof s bhead) = Some (List.find Q (rev L))" "set L = {..<NBUF}"
proof -
  obtain L where L: "dll (nextof s) (prevof s) bhead L" "set L = {..<NBUF}"
    using assms by (auto simp: links_ok_def)
  then have c: "chain (nextof s) bhead L bhead" "chain (prevof s) bhead (rev L) bhead" "bhead \<notin> set L"
    by (simp_all add: dll_def)
  have "walk (nextof s) P (nextof s bhead) = Some (List.find P L)"
    by (rule walk_find [OF c(1,3)])
  moreover have "walk (prevof s) Q (prevof s bhead) = Some (List.find Q (rev L))"
    by (rule walk_find [OF c(2)]) (simp add: c(3))
  ultimately show ?thesis using that L(2) by blast
qed


section \<open>What the operations do\<close>

lemma lock_buffer:
  assumes "quiet p pd s" "slocked (slocks s (BufLock b)) = 0"
  obtains t where "seq (release L_bcache (upd_buf b f (enter L_bcache s)))
      (\<lambda>s. seq (acquiresleep E (BufLock b) s) (Ok b)) = Ok b t" "quiet p pd t"
    "core t = core (upd_slock (BufLock b) (\<lambda>l. l\<lparr>slocked := 1, slpid := pd\<rparr>) (upd_buf b f s))"
proof -
  let ?u = "upd_buf b f (enter L_bcache s)"
  have r: "release L_bcache ?u = Ok () (leave L_bcache ?u)" and q: "quiet p pd (leave L_bcache ?u)"
    by (rule quiet_leave [OF assms(1)]; simp)+
  obtain t where "acquiresleep E (BufLock b) (leave L_bcache ?u) = Ok () t" "quiet p pd t"
    "core t = core (upd_slock (BufLock b) (\<lambda>l. l\<lparr>slocked := 1, slpid := pd\<rparr>) (leave L_bcache ?u))"
    by (rule acquiresleep_free [OF q, of "BufLock b" E]) (simp_all add: assms(2))
  then show ?thesis
    using that r by (simp add: core_upd_slock core_upd_buf)
qed

lemma iderw_read:
  assumes "quiet p pd s" "slocked (slocks s (BufLock b)) \<noteq> 0" "bflags (bufs s ! b) = 0"
    "bdev (bufs s ! b) = 1" "blockno (bufs s ! b) < disksize s" "b < length (bufs s)"
  obtains t where "iderw b s = Ok () t" "quiet p pd t"
    "core t = core (upd_buf b (\<lambda>x. x\<lparr>bdata := disk s (blockno x), bflags := 2\<rparr>) s)"
proof -
  obtain u where u: "holdingsleep (BufLock b) s = Ok (slocked (slocks s (BufLock b))) u" "quiet p pd u" "core u = core s"
    by (rule holdingsleep_quiet [OF assms(1)])
  let ?t = "upd_buf b (\<lambda>x. x\<lparr>bdata := disk s (blockno x), bflags := 2\<rparr>) u"
  have "iderw b s = Ok () ?t"
    using assms by (simp add: iderw_def u(1) core_fields [OF u(3)] Let_def upd_buf_def)
  moreover have "quiet p pd ?t" using u(2) by (simp add: quiet_def lock_free_def)
  ultimately show ?thesis using that core_congs(1) [OF u(3)] by blast
qed

lemma iderw_write:
  assumes "quiet p pd s" "slocked (slocks s (BufLock b)) \<noteq> 0" "bflags (bufs s ! b) = 6"
    "bdev (bufs s ! b) = 1" "blockno (bufs s ! b) = n" "n < disksize s" "b < length (bufs s)"
    "bdata (bufs s ! b) = d"
  obtains t where "iderw b s = Ok () t" "quiet p pd t"
    "core t = core (upd_buf b (\<lambda>x. x\<lparr>bflags := 2\<rparr>) (s\<lparr>disk := (disk s)(n := d), dwrites := dwrites s @ [(n, d)]\<rparr>))"
proof -
  obtain u where u: "holdingsleep (BufLock b) s = Ok (slocked (slocks s (BufLock b))) u" "quiet p pd u" "core u = core s"
    by (rule holdingsleep_quiet [OF assms(1)])
  let ?t = "upd_buf b (\<lambda>x. x\<lparr>bflags := 2\<rparr>) (u\<lparr>disk := (disk u)(n := d), dwrites := dwrites u @ [(n, d)]\<rparr>)"
  have "iderw b s = Ok () ?t"
    using assms by (simp add: iderw_def u(1) core_fields [OF u(3)] Let_def upd_buf_def)
  moreover have "quiet p pd ?t" using u(2) by (simp add: quiet_def lock_free_def)
  moreover have "core ?t = core (upd_buf b (\<lambda>x. x\<lparr>bflags := 2\<rparr>) (s\<lparr>disk := (disk s)(n := d), dwrites := dwrites s @ [(n, d)]\<rparr>))"
    by (rule core_congs(1)) (simp add: core_upd u(3) core_fields [OF u(3)])
  ultimately show ?thesis using that by blast
qed

text \<open>\<open>bread\<close> on a state where the cache has the block, or a buffer to recycle.\<close>

definition got :: "nat \<Rightarrow> u32 \<Rightarrow> int \<Rightarrow> kst \<Rightarrow> kst" where
  "got b n pd s =
     upd_slock (BufLock b) (\<lambda>l. l\<lparr>slocked := 1, slpid := pd\<rparr>)
       (upd_buf b (\<lambda>x. x\<lparr>bdev := 1, blockno := n, bflags := (if n \<in> pinned s then 6 else 2), refcnt := 1,
          bdata := block s n\<rparr>) s)"

definition room :: "nat set \<Rightarrow> kst \<Rightarrow> bool" where
  "room H s \<longleftrightarrow> (\<exists>i<NBUF. i \<notin> H \<and> bflags (bufs s ! i) \<noteq> 6)"


lemma upd_buf_cong: "f (bufs s ! b) = g (bufs s ! b) \<Longrightarrow> upd_buf b f s = upd_buf b g s"
  by (simp add: upd_buf_def)

lemma upd_buf_slock: "upd_buf b f (upd_slock lk g s) = upd_slock lk g (upd_buf b f s)"
  by (simp add: upd_defs)

lemma upd_buf_twice: "b < length (bufs s) \<Longrightarrow> upd_buf b f (upd_buf b g s) = upd_buf b (\<lambda>x. f (g x)) s"
  by (simp add: upd_defs)

abbreviation at :: "kst \<Rightarrow> nat \<Rightarrow> u32 \<Rightarrow> bool" where
  "at s i n \<equiv> bdev (bufs s ! i) = 1 \<and> blockno (bufs s ! i) = n"

lemma pinned_at:
  assumes "bcache_ok H s" "b < NBUF" "at s b n"
  shows "n \<in> pinned s \<longleftrightarrow> bflags (bufs s ! b) = 6"
proof
  assume "n \<in> pinned s"
  then obtain i where i: "cached s i n" "bflags (bufs s ! i) = 6" by (auto simp: pinned_def)
  then have "i = b" using bcacheD(8) [OF assms(1), of i b] assms(2,3) by (simp add: cached_def)
  then show "bflags (bufs s ! b) = 6" using i by simp
qed (use assms in \<open>auto simp: pinned_def cached_def\<close>)

lemma block_at:
  assumes "bcache_ok H s" "b < NBUF" "at s b n"
  shows "block s n = (if bflags (bufs s ! b) = 0 then disk s n else bdata (bufs s ! b))"
proof (cases "bflags (bufs s ! b) = 0")
  case True
  then have "\<not> cached s i n" for i
    using bcacheD(8) [OF assms(1) _ assms(2), of i] assms(2,3) by (auto simp: cached_def)
  then show ?thesis using block_uncached [OF assms(1)] True by simp
next
  case False
  then have "cached s b n" using assms by (simp add: cached_def)
  then show ?thesis using block_cached [OF assms(1)] False by simp
qed

lemma bread_locked:
  assumes "quiet p pd s" "bget E 1 n s = Ok b u" "quiet p pd u"
    "core u = core (upd_slock (BufLock b) (\<lambda>l. l\<lparr>slocked := 1, slpid := pd\<rparr>) (upd_buf b f s))"
    "b < length (bufs s)" "n < disksize s"
    and x: "f (bufs s ! b) = (bufs s ! b)\<lparr>bdev := 1, blockno := n, bflags := fl, refcnt := 1, bdata := d\<rparr>"
      "fl = 0 \<and> n \<notin> pinned s \<and> block s n = disk s n \<or> fl = (if n \<in> pinned s then 6 else 2) \<and> d = block s n"
  obtains t where "bread E 1 n s = Ok b t" "quiet p pd t" "core t = core (got b n pd s)"
proof -
  let ?lock = "upd_slock (BufLock b) (\<lambda>l. l\<lparr>slocked := 1, slpid := pd\<rparr>)"
  let ?v = "?lock (upd_buf b f s)"
  note cf = core_fields [OF assms(4)]
  have ub: "bufs u ! b = (bufs s ! b)\<lparr>bdev := 1, blockno := n, bflags := fl, refcnt := 1, bdata := d\<rparr>"
    using assms(5) x(1) by (simp add: cf)
  show ?thesis
  proof (cases "fl = 0")
    case True
    have "slocked (slocks u (BufLock b)) \<noteq> 0" "b < length (bufs u)" "n < disksize u"
      using assms(5,6) by (simp_all add: cf)
    then obtain t where t: "iderw b u = Ok () t" "quiet p pd t"
      "core t = core (upd_buf b (\<lambda>x. x\<lparr>bdata := disk u (blockno x), bflags := 2\<rparr>) u)"
      using iderw_read [OF assms(3), of b thesis] ub True by simp
    have "core t = core (upd_buf b (\<lambda>x. x\<lparr>bdata := disk s (blockno x), bflags := 2\<rparr>) ?v)"
      using t(3) core_congs(1) [OF assms(4)] by (simp add: cf(18))
    moreover have "upd_buf b (\<lambda>x. x\<lparr>bdata := disk s (blockno x), bflags := 2\<rparr>) ?v = got b n pd s"
      unfolding upd_buf_slock upd_buf_twice [OF assms(5)] got_def
      by (intro arg_cong [of _ _ ?lock] upd_buf_cong) (use x True in auto)
    ultimately show ?thesis
      using that [of t] t True by (simp add: bread_def assms(2) ub)
  next
    case False
    have "?v = got b n pd s"
      unfolding got_def by (intro arg_cong [of _ _ ?lock] upd_buf_cong) (use x False in \<open>auto split: if_splits\<close>)
    moreover have "fl AND B_VALID \<noteq> 0" using False x by (auto split: if_splits)
    ultimately show ?thesis
      using that [of u] assms by (simp add: bread_def ub)
  qed
qed


section \<open>Changing one buffer\<close>

text \<open>What the invariant knows of a buffer besides its links.\<close>

definition pay :: "buf \<Rightarrow> u32 \<times> u32 \<times> u32 \<times> u32 \<times> u8 list" where
  "pay b = (bflags b, bdev b, blockno b, refcnt b, bdata b)"

lemma payD:
  assumes "pay x = pay y"
  shows "bflags x = bflags y" "bdev x = bdev y" "blockno x = blockno y" "refcnt x = refcnt y" "bdata x = bdata y"
  using assms by (simp_all add: pay_def)

lemma bcache_change:
  assumes ok: "bcache_ok H s" and b: "b < NBUF"
    and shape: "length (bufs t) = Suc NBUF" "links_ok t" "H' \<subseteq> {..<NBUF}" "H' - {b} = H - {b}"
    and others: "\<And>i. i < NBUF \<Longrightarrow> i \<noteq> b \<Longrightarrow>
      pay (bufs t ! i) = pay (bufs s ! i) \<and> slocks t (BufLock i) = slocks s (BufLock i)"
    and disk: "\<And>m. length (disk t m) = BSIZE" "\<And>m. m \<noteq> blockno (bufs t ! b) \<Longrightarrow> disk t m = disk s m"
    and this_ok: "buf_ok t b" "if b \<in> H' then buf_held t b else buf_free t b"
    and one: "bdev (bufs t ! b) = 1" "\<And>i. i < NBUF \<Longrightarrow> i \<noteq> b \<Longrightarrow> \<not> at s i (blockno (bufs t ! b))"
  shows "bcache_ok H' t"
proof -
  have "buf_ok t i \<and> (if i \<in> H' then buf_held t i else buf_free t i)" if i: "i < NBUF" for i
  proof (cases "i = b")
    case True
    then show ?thesis using this_ok by simp
  next
    case False
    note same = payD [OF conjunct1 [OF others [OF i False]]] conjunct2 [OF others [OF i False]]
    have H: "i \<in> H' \<longleftrightarrow> i \<in> H" using shape(4) False by blast
    have 1: "buf_ok t i" using bcacheD(5) [OF ok i] by (simp add: buf_ok_def same)
    have 2: "buf_held t i" if "i \<in> H" using bcacheD(6) [OF ok that] by (simp add: buf_held_def same)
    have "buf_free t i" if "i \<notin> H"
    proof -
      have f: "buf_free s i" by (rule bcacheD(7) [OF ok i that])
      show ?thesis
      proof (cases "bflags (bufs s ! i) = 2")
        case True
        then have "bdev (bufs s ! i) = 1" using bcacheD(5) [OF ok i] by (auto simp: buf_ok_def)
        then have "disk t (blockno (bufs s ! i)) = disk s (blockno (bufs s ! i))"
          using one(2) [OF i False] by (intro disk(2)) auto
        then show ?thesis using f by (simp add: buf_free_def same)
      qed (use f in \<open>simp add: buf_free_def same\<close>)
    qed
    then show ?thesis using 1 2 H by simp
  qed
  moreover have "i = j" if "i < NBUF" "j < NBUF" "at t i n" "at t j n" for i j n
  proof -
    have "at s k n" if "k < NBUF" "k \<noteq> b" "at t k n" for k
      using payD [OF conjunct1 [OF others [OF that(1,2)]]] that(3) by simp
    then show ?thesis
      using that one(2) [of i] one(2) [of j] bcacheD(8) [OF ok that(1,2)] by (cases "i = b"; cases "j = b") auto
  qed
  ultimately show ?thesis using shape(1-3) disk(1) unfolding bcache_ok_def by metis
qed

lemma block_change:
  assumes ok: "bcache_ok H s" "bcache_ok H' t" and b: "b < NBUF"
    and others: "\<And>i. i < NBUF \<Longrightarrow> i \<noteq> b \<Longrightarrow> pay (bufs t ! i) = pay (bufs s ! i)"
    and new: "at t b n" "bflags (bufs t ! b) \<noteq> 0" "\<And>m. m \<noteq> n \<Longrightarrow> disk t m = disk s m"
    and old: "\<And>m. cached s b m \<Longrightarrow> m \<noteq> n \<Longrightarrow> bdata (bufs s ! b) = disk s m \<and> bflags (bufs s ! b) \<noteq> 6"
  shows "block t = (block s)(n := bdata (bufs t ! b))"
    "pinned t = (if bflags (bufs t ! b) = 6 then insert n (pinned s) else pinned s - {n})"
proof -
  have same: "cached t i m = cached s i m" "bflags (bufs t ! i) = bflags (bufs s ! i)"
    "bdata (bufs t ! i) = bdata (bufs s ! i)" if "i \<noteq> b" "i < NBUF" for i m
    using payD [OF others [OF that(2,1)]] by (simp_all add: cached_def)
  have cb: "cached t b m \<longleftrightarrow> m = n" for m using b new by (auto simp: cached_def)
  have lt: "i < NBUF" if "cached u i m" for u i m using that by (simp add: cached_def)
  have "block t m = block s m" if m: "m \<noteq> n" for m
  proof (cases "\<exists>i. cached t i m")
    case True
    then obtain i where i: "cached t i m" by blast
    then have "i \<noteq> b" using cb m by auto
    then show ?thesis
      using i block_cached [OF ok(2) i] block_cached [OF ok(1), of i m] same [of i] lt [OF i] by simp
  next
    case False
    have "block s m = disk s m"
    proof (cases "cached s b m")
      case True
      then show ?thesis using block_cached [OF ok(1) True] old [OF True m] by simp
    next
      case c: False
      have "\<not> cached s i m" for i using False c same(1) [of i m] lt [of s i m] by (cases "i = b") auto
      then show ?thesis by (rule block_uncached [OF ok(1)])
    qed
    then show ?thesis using block_uncached [OF ok(2), of m] False new(3) [OF m] by simp
  qed
  moreover have "block t n = bdata (bufs t ! b)" using block_cached [OF ok(2)] cb by simp
  ultimately show "block t = (block s)(n := bdata (bufs t ! b))" by auto
  have "m \<in> pinned t \<longleftrightarrow> m \<in> pinned s" if m: "m \<noteq> n" for m
  proof -
    have "cached t i m \<and> bflags (bufs t ! i) = 6 \<longleftrightarrow> cached s i m \<and> bflags (bufs s ! i) = 6" for i
      using same [of i] lt [of s i m] lt [of t i m] cb m old [of m] by (cases "i = b"; cases "i < NBUF") auto
    then show ?thesis by (simp add: pinned_def)
  qed
  moreover have "n \<in> pinned t \<longleftrightarrow> bflags (bufs t ! b) = 6"
    by (rule pinned_at [OF ok(2) b new(1)])
  ultimately have "m \<in> pinned t \<longleftrightarrow> (if m = n then bflags (bufs t ! b) = 6 else m \<in> pinned s)" for m
    by simp
  then show "pinned t = (if bflags (bufs t ! b) = 6 then insert n (pinned s) else pinned s - {n})"
    by (simp add: set_eq_iff)
qed


section \<open>The contract of the buffer cache\<close>

lemma links_ok_upd:
  assumes "links_ok s" "\<And>x. bnext (f x) = bnext x \<and> bprev (f x) = bprev x"
  shows "links_ok (upd_buf b f s)" "links_ok (upd_slock lk g s)" "links_ok (s\<lparr>disk := d, dwrites := w\<rparr>)"
proof -
  have "nextof (upd_buf b f s) = nextof s" "prevof (upd_buf b f s) = prevof s"
    using assms(2) by (auto simp: nth_upd fun_eq_iff)
  then show "links_ok (upd_buf b f s)" using assms(1) by (simp add: links_ok_def)
qed (use assms(1) in \<open>simp_all add: links_ok_def\<close>)

text \<open>Where \<open>bread\<close> may put block \<open>n\<close>: in the buffer that has it, or in a clean unused one when
  no buffer has it.\<close>

definition slot :: "nat set \<Rightarrow> kst \<Rightarrow> nat \<Rightarrow> u32 \<Rightarrow> bool" where
  "slot H s b n \<longleftrightarrow> b < NBUF \<and> b \<notin> H \<and>
     (at s b n \<or> bflags (bufs s ! b) \<noteq> 6 \<and> (\<forall>i<NBUF. \<not> at s i n))"

lemma got_ok:
  assumes ok: "bcache_ok H s" and sl: "slot H s b n"
  shows "bcache_ok (insert b H) (got b n pd s)" "block (got b n pd s) = block s"
    "pinned (got b n pd s) = pinned s" "above (got b n pd s) = above s"
    "at (got b n pd s) b n" "bdata (bufs (got b n pd s) ! b) = block s n"
    "bflags (bufs (got b n pd s) ! b) = (if n \<in> pinned s then 6 else 2)"
    "\<And>i. i \<noteq> b \<Longrightarrow> bufs (got b n pd s) ! i = bufs s ! i"
proof -
  let ?t = "got b n pd s"
  have b: "b < NBUF" "b \<notin> H" "b < length (bufs s)" using sl bcacheD(1) [OF ok] by (auto simp: slot_def)
  show 1: "at ?t b n" "bdata (bufs ?t ! b) = block s n" "bflags (bufs ?t ! b) = (if n \<in> pinned s then 6 else 2)"
    "\<And>i. i \<noteq> b \<Longrightarrow> bufs ?t ! i = bufs s ! i" "above ?t = above s"
    using b by (simp_all add: got_def)
  have 2: "refcnt (bufs ?t ! b) = 1" "disk ?t = disk s" "length (bufs ?t) = Suc NBUF"
    "slocks ?t = (slocks s)(BufLock b := (slocks s (BufLock b))\<lparr>slocked := 1, slpid := pd\<rparr>)"
    using b bcacheD(1) [OF ok] by (simp_all add: got_def)
  have len: "length (block s n) = BSIZE"
    using bcacheD(4,5) [OF ok] unfolding block_def by (auto simp: buf_ok_def find_idx_Some split: option.split)
  have free: "\<not> at s i n" if "i < NBUF" "i \<noteq> b" for i
    using sl that bcacheD(8) [OF ok that(1) b(1)] by (auto simp: slot_def)
  have "links_ok ?t"
    unfolding got_def by (intro links_ok_upd(1,2) bcacheD(3) [OF ok]) simp_all
  then show ok': "bcache_ok (insert b H) ?t"
    by (intro bcache_change [OF ok b(1)]) (use b 1 2 len free bcacheD(2,4) [OF ok] in
      \<open>auto simp: buf_ok_def buf_held_def\<close>)
  have clean: "bdata (bufs s ! b) = disk s m \<and> bflags (bufs s ! b) \<noteq> 6" if "cached s b m" "m \<noteq> n" for m
    using that sl bcacheD(5,7) [OF ok b(1)] b(2) by (auto simp: slot_def cached_def buf_free_def buf_ok_def)
  show "block ?t = block s"
    using block_change(1) [OF ok ok' b(1), of n] 1 2 clean by (auto simp: fun_upd_idem)
  show "pinned ?t = pinned s"
    using block_change(2) [OF ok ok' b(1), of n] 1 2 clean by (auto split: if_splits)
qed


lemma find_SomeD: "List.find P L = Some b \<Longrightarrow> b \<in> set L \<and> P b"
  by (auto simp: find_Some_iff)

lemma bget_hit:
  assumes q: "quiet p pd s" and ok: "bcache_ok H s" and b: "b < NBUF" "b \<notin> H" "at s b n"
  obtains t where "bget E 1 n s = Ok b t" "quiet p pd t"
    "core t = core (upd_slock (BufLock b) (\<lambda>l. l\<lparr>slocked := 1, slpid := pd\<rparr>)
       (upd_buf b (\<lambda>x. x\<lparr>refcnt := refcnt x + 1\<rparr>) s))"
proof -
  let ?P = "\<lambda>b. bdev (bufs s ! b) = 1 \<and> blockno (bufs s ! b) = n"
  obtain L where L: "walk (nextof s) ?P (nextof s bhead) = Some (List.find ?P L)"
    "walk (prevof s) ?P (prevof s bhead) = Some (List.find ?P (rev L))" "set L = {..<NBUF}"
    by (rule walk_links [OF bcacheD(3) [OF ok]])
  have "List.find ?P L = Some b"
  proof (cases "List.find ?P L")
    case None
    then show ?thesis using b L(3) by (auto simp: find_None_iff)
  next
    case (Some c)
    then have "c < NBUF" "at s c n" using L(3) by (auto dest!: find_SomeD)
    then show ?thesis using Some bcacheD(8) [OF ok _ b(1), of c] b(3) by simp
  qed
  moreover have "slocked (slocks s (BufLock b)) = 0" using bcacheD(7) [OF ok b(1,2)] by (simp add: buf_free_def)
  then obtain t where "seq (release L_bcache (upd_buf b (\<lambda>x. x\<lparr>refcnt := refcnt x + 1\<rparr>) (enter L_bcache s)))
      (\<lambda>s. seq (acquiresleep E (BufLock b) s) (Ok b)) = Ok b t" "quiet p pd t"
    "core t = core (upd_slock (BufLock b) (\<lambda>l. l\<lparr>slocked := 1, slpid := pd\<rparr>)
       (upd_buf b (\<lambda>x. x\<lparr>refcnt := refcnt x + 1\<rparr>) s))"
    by (rule lock_buffer [OF q])
  ultimately show ?thesis
    using that [of t] L(1) by (simp add: bget_def quiet_acquire [OF q] Let_def)
qed

lemma bget_miss:
  assumes q: "quiet p pd s" and ok: "bcache_ok H s" and no: "\<And>i. i < NBUF \<Longrightarrow> \<not> at s i n" and room: "room H s"
  obtains b t where "bget E 1 n s = Ok b t" "quiet p pd t" "slot H s b n"
    "core t = core (upd_slock (BufLock b) (\<lambda>l. l\<lparr>slocked := 1, slpid := pd\<rparr>)
       (upd_buf b (\<lambda>x. x\<lparr>bdev := 1, blockno := n, bflags := 0, refcnt := 1\<rparr>) s))"
proof -
  let ?P = "\<lambda>b. bdev (bufs s ! b) = 1 \<and> blockno (bufs s ! b) = n"
  let ?Q = "\<lambda>b. refcnt (bufs s ! b) = 0 \<and> bflags (bufs s ! b) AND B_DIRTY = 0"
  obtain L where L: "walk (nextof s) ?P (nextof s bhead) = Some (List.find ?P L)"
    "walk (prevof s) ?Q (prevof s bhead) = Some (List.find ?Q (rev L))" "set L = {..<NBUF}"
    by (rule walk_links [OF bcacheD(3) [OF ok]])
  have none: "List.find ?P L = None" using no L(3) by (auto simp: find_None_iff)
  have Q: "?Q i \<longleftrightarrow> i \<notin> H \<and> bflags (bufs s ! i) \<noteq> 6" if "i < NBUF" for i
    using bcacheD(5-7) [OF ok, of i] that by (cases "i \<in> H") (auto simp: buf_ok_def buf_held_def buf_free_def)
  obtain i where i: "i < NBUF" "i \<notin> H" "bflags (bufs s ! i) \<noteq> 6" using room unfolding room_def by blast
  have "i \<in> set (rev L)" "?Q i" using i Q [OF i(1)] L(3) by simp_all
  then have "List.find ?Q (rev L) \<noteq> None" unfolding find_None_iff by blast
  then obtain b where b: "List.find ?Q (rev L) = Some b" by blast
  have "b < NBUF" "?Q b" using L(3) find_SomeD [OF b] by simp_all
  then have bH: "b < NBUF" "b \<notin> H" "bflags (bufs s ! b) \<noteq> 6" using Q [of b] by simp_all
  have "slocked (slocks s (BufLock b)) = 0" using bcacheD(7) [OF ok bH(1,2)] by (simp add: buf_free_def)
  then obtain t where "seq (release L_bcache
        (upd_buf b (\<lambda>x. x\<lparr>bdev := 1, blockno := n, bflags := 0, refcnt := 1\<rparr>) (enter L_bcache s)))
      (\<lambda>s. seq (acquiresleep E (BufLock b) s) (Ok b)) = Ok b t" "quiet p pd t"
    "core t = core (upd_slock (BufLock b) (\<lambda>l. l\<lparr>slocked := 1, slpid := pd\<rparr>)
       (upd_buf b (\<lambda>x. x\<lparr>bdev := 1, blockno := n, bflags := 0, refcnt := 1\<rparr>) s))"
    by (rule lock_buffer [OF q])
  moreover have "slot H s b n" using bH no by (simp add: slot_def)
  ultimately show ?thesis
    using that [of b t] L(1,2) none b by (simp add: bget_def quiet_acquire [OF q] Let_def)
qed


text \<open>What a process that holds the buffers \<open>H\<close> may rely on: no lock is taken, the cache is
  consistent, and each buffer it holds contains the block it asked for.\<close>

definition buffers :: "nat \<Rightarrow> int \<Rightarrow> nat set \<Rightarrow> kst \<Rightarrow> bool" where
  "buffers p pd H s \<longleftrightarrow> quiet p pd s \<and> bcache_ok H s"

lemma buffers_core:
  assumes "core t = core s" "quiet p pd t" "bcache_ok H s"
  shows "buffers p pd H t"
  using assms(2,3) by (simp add: buffers_def bcache_core(1) [OF assms(1)])

lemma bread_spec:
  assumes bf: "buffers p pd H s" and n: "n < disksize s" "\<And>i. i \<in> H \<Longrightarrow> \<not> at s i n"
    and room: "n \<in> pinned s \<or> room H s"
  obtains b t where "bread E 1 n s = Ok b t" "buffers p pd (insert b H) t" "b \<notin> H" "at t b n"
    "bdata (bufs t ! b) = block s n" "block t = block s" "pinned t = pinned s" "above t = above s"
    "\<And>i. i \<noteq> b \<Longrightarrow> bufs t ! i = bufs s ! i" "bflags (bufs t ! b) = (if n \<in> pinned s then 6 else 2)"
proof -
  have q: "quiet p pd s" and ok: "bcache_ok H s" using bf by (simp_all add: buffers_def)
  obtain b t where t: "bread E 1 n s = Ok b t" "quiet p pd t" "core t = core (got b n pd s)" "slot H s b n"
  proof (cases "\<exists>b<NBUF. at s b n")
    case True
    then obtain b where b: "b < NBUF" "at s b n" by blast
    then have bH: "b \<notin> H" using n(2) by blast
    obtain u where u: "bget E 1 n s = Ok b u" "quiet p pd u"
      "core u = core (upd_slock (BufLock b) (\<lambda>l. l\<lparr>slocked := 1, slpid := pd\<rparr>)
         (upd_buf b (\<lambda>x. x\<lparr>refcnt := refcnt x + 1\<rparr>) s))"
      by (rule bget_hit [OF q ok b(1) bH b(2)])
    have free: "buf_free s b" "buf_ok s b" using bcacheD(5,7) [OF ok b(1)] bH by simp_all
    have fl: "bflags (bufs s ! b) = 0 \<and> n \<notin> pinned s \<and> block s n = disk s n \<or>
        bflags (bufs s ! b) = (if n \<in> pinned s then 6 else 2) \<and> bdata (bufs s ! b) = block s n"
      using pinned_at [OF ok b] block_at [OF ok b] free(2) by (auto simp: buf_ok_def)
    obtain t where "bread E 1 n s = Ok b t" "quiet p pd t" "core t = core (got b n pd s)"
      by (rule bread_locked [OF q u, where fl = "bflags (bufs s ! b)" and d = "bdata (bufs s ! b)"])
        (use b free n(1) bcacheD(1) [OF ok] fl in \<open>simp_all add: buf_free_def\<close>)
    then show ?thesis using that b bH by (simp add: slot_def)
  next
    case False
    then have no: "\<And>i. i < NBUF \<Longrightarrow> \<not> at s i n" by blast
    then have np: "n \<notin> pinned s" by (auto simp: pinned_def cached_def)
    then have rm: "room H s" using room by simp
    obtain b u where u: "bget E 1 n s = Ok b u" "quiet p pd u" "slot H s b n"
      "core u = core (upd_slock (BufLock b) (\<lambda>l. l\<lparr>slocked := 1, slpid := pd\<rparr>)
         (upd_buf b (\<lambda>x. x\<lparr>bdev := 1, blockno := n, bflags := 0, refcnt := 1\<rparr>) s))"
      by (rule bget_miss [OF q ok _ rm]) (use no in blast)
    have b: "b < NBUF" using u(3) by (simp add: slot_def)
    have "\<not> cached s i n" for i using no by (auto simp: cached_def)
    then have "block s n = disk s n" by (rule block_uncached [OF ok])
    then have "(0::u32) = 0 \<and> n \<notin> pinned s \<and> block s n = disk s n \<or>
        0 = (if n \<in> pinned s then 6 else 2) \<and> bdata (bufs s ! b) = block s n"
      using np by simp
    moreover have "b < length (bufs s)" using b bcacheD(1) [OF ok] by simp
    moreover have "(bufs s ! b)\<lparr>bdev := 1, blockno := n, bflags := 0, refcnt := 1\<rparr> =
        (bufs s ! b)\<lparr>bdev := 1, blockno := n, bflags := 0, refcnt := 1, bdata := bdata (bufs s ! b)\<rparr>" by simp
    ultimately obtain t where "bread E 1 n s = Ok b t" "quiet p pd t" "core t = core (got b n pd s)"
      using bread_locked [OF q u(1,2,4) _ n(1)] by blast
    then show ?thesis using that u(3) by blast
  qed
  note g = got_ok [OF ok t(4), where pd = pd] and c = core_fields(15) [OF t(3)]
  show ?thesis
    using that [OF t(1) buffers_core [OF t(3,2) g(1)]] g(2-) t(4)
    by (simp add: bcache_core [OF t(3)] above_core [OF t(3)] c slot_def)
qed

text \<open>Writing to the data of a buffer, and to the disk.\<close>

lemma set_data_spec:
  assumes bf: "buffers p pd H s" and b: "b \<in> H" "at s b n" "length d = BSIZE"
  shows "buffers p pd H (set_data b d s)" "block (set_data b d s) = (block s)(n := d)"
    "pinned (set_data b d s) = pinned s" "above (set_data b d s) = above s"
    "bufs (set_data b d s) ! b = (bufs s ! b)\<lparr>bdata := d\<rparr>" "\<And>i. i \<noteq> b \<Longrightarrow> bufs (set_data b d s) ! i = bufs s ! i"
proof -
  let ?t = "set_data b d s"
  have q: "quiet p pd s" and ok: "bcache_ok H s" using bf by (simp_all add: buffers_def)
  have lt: "b < NBUF" "b < length (bufs s)" using b(1) bcacheD(1,2) [OF ok] by auto
  have held: "buf_held s b" "buf_ok s b" using bcacheD(5,6) [OF ok] b(1) lt by simp_all
  show 1: "above ?t = above s" "bufs ?t ! b = (bufs s ! b)\<lparr>bdata := d\<rparr>" "\<And>i. i \<noteq> b \<Longrightarrow> bufs ?t ! i = bufs s ! i"
    using lt by (simp_all add: set_data_def)
  have 2: "disk ?t = disk s" "length (bufs ?t) = Suc NBUF" "slocks ?t = slocks s"
    using bcacheD(1) [OF ok] by (simp_all add: set_data_def)
  have uniq: "\<not> at s i n" if "i < NBUF" "i \<noteq> b" for i
    using that b(2) bcacheD(8) [OF ok that(1) lt(1)] by auto
  have "links_ok ?t"
    unfolding set_data_def by (intro links_ok_upd(1) bcacheD(3) [OF ok]) simp_all
  then have ok': "bcache_ok H ?t"
    by (intro bcache_change [OF ok lt(1)])
      (use b lt 1 2 held uniq bcacheD(2,4) [OF ok] in \<open>auto simp: buf_ok_def buf_held_def\<close>)
  then show "buffers p pd H ?t"
    using q by (simp add: buffers_def quiet_def lock_free_def set_data_def)
  have "bflags (bufs s ! b) \<noteq> 0" using held(1) by (simp add: buf_held_def)
  then show "block ?t = (block s)(n := d)" "pinned ?t = pinned s"
    using block_change [OF ok ok' lt(1), of n] 1 2 b pinned_at [OF ok lt(1) b(2)]
    by (auto simp: cached_def)
qed


lemma bwrite_spec:
  assumes bf: "buffers p pd H s" and b: "b \<in> H" "at s b n" "n < disksize s"
  obtains t where "bwrite b s = Ok () t" "buffers p pd H t" "block t = block s" "pinned t = pinned s - {n}"
    "above t = above (s\<lparr>disk := (disk s)(n := bdata (bufs s ! b)), dwrites := dwrites s @ [(n, bdata (bufs s ! b))]\<rparr>)"
    "bufs t ! b = (bufs s ! b)\<lparr>bflags := 2\<rparr>" "\<And>i. i \<noteq> b \<Longrightarrow> bufs t ! i = bufs s ! i"
proof -
  let ?d = "bdata (bufs s ! b)"
  let ?disk = "\<lambda>s. s\<lparr>disk := (disk s)(n := ?d), dwrites := dwrites s @ [(n, ?d)]\<rparr>"
  have q: "quiet p pd s" and ok: "bcache_ok H s" using bf by (simp_all add: buffers_def)
  have lt: "b < NBUF" "b < length (bufs s)" using b(1) bcacheD(1,2) [OF ok] by auto
  have held: "buf_held s b" "buf_ok s b" using bcacheD(5,6) [OF ok] b(1) lt by simp_all
  then have fl: "bflags (bufs s ! b) OR B_DIRTY = 6" "slocked (slocks s (BufLock b)) \<noteq> 0"
    by (auto simp: buf_held_def buf_ok_def)
  obtain u where u: "holdingsleep (BufLock b) s = Ok (slocked (slocks s (BufLock b))) u" "quiet p pd u" "core u = core s"
    by (rule holdingsleep_quiet [OF q])
  let ?v = "upd_buf b (\<lambda>b. b\<lparr>bflags := bflags b OR B_DIRTY\<rparr>) u"
  note cf = core_fields [OF u(3)]
  have "quiet p pd ?v" using u(2) by (simp add: quiet_def lock_free_def)
  then obtain t where t: "iderw b ?v = Ok () t" "quiet p pd t"
    "core t = core (upd_buf b (\<lambda>x. x\<lparr>bflags := 2\<rparr>) (?disk ?v))"
    by (rule iderw_write [where n = n and d = ?d]) (use b lt fl in \<open>auto simp: cf nth_upd\<close>)
  let ?w = "upd_buf b (\<lambda>x. x\<lparr>bflags := 2\<rparr>) (?disk s)"
  have "upd_buf b (\<lambda>x. x\<lparr>bflags := 2\<rparr>) (?disk ?v) = upd_buf b (\<lambda>x. x\<lparr>bflags := 2\<rparr>) (?disk u)"
    using lt by (simp add: upd_buf_def cf)
  moreover have "core (upd_buf b (\<lambda>x. x\<lparr>bflags := 2\<rparr>) (?disk u)) = core ?w"
    by (rule core_congs(1)) (simp add: core_upd u(3) cf)
  ultimately have ct: "core t = core ?w" using t(3) by simp
  have 1: "above ?w = above (?disk s)" "bufs ?w ! b = (bufs s ! b)\<lparr>bflags := 2\<rparr>"
    "\<And>i. i \<noteq> b \<Longrightarrow> bufs ?w ! i = bufs s ! i" "disk ?w = (disk s)(n := ?d)" "slocks ?w = slocks s"
    "length (bufs ?w) = Suc NBUF"
    using lt bcacheD(1) [OF ok] by simp_all
  have uniq: "\<not> at s i n" if "i < NBUF" "i \<noteq> b" for i
    using that b(2) bcacheD(8) [OF ok that(1) lt(1)] by auto
  have "links_ok ?w"
    by (intro links_ok_upd(1) links_ok_upd(3) bcacheD(3) [OF ok]) simp_all
  then have ok': "bcache_ok H ?w"
    by (intro bcache_change [OF ok lt(1)])
      (use b lt 1(2-) held uniq bcacheD(2,4) [OF ok] in \<open>auto simp: buf_ok_def buf_held_def\<close>)
  have "bflags (bufs s ! b) \<noteq> 0" using held(1) by (simp add: buf_held_def)
  then have "block ?w = block s" "pinned ?w = pinned s - {n}"
    using block_change [OF ok ok' lt(1), of n] 1(2-) b block_at [OF ok lt(1) b(2)]
    by (auto simp: cached_def fun_upd_idem)
  then show ?thesis
    using that [OF _ buffers_core [OF ct t(2) ok']] t(1) u(1) fl(2) 1(1-3)
    by (simp add: bwrite_def bcache_core [OF ct] above_core [OF ct] core_fields(15) [OF ct])
qed

lemma to_front_links:
  assumes "links_ok s" "length (bufs s) = Suc NBUF" "b < NBUF"
  shows "links_ok (to_front b s)"
proof -
  obtain L where L: "dll (nextof s) (prevof s) bhead L" "set L = {..<NBUF}"
    using assms(1) by (auto simp: links_ok_def)
  then obtain xs ys where split: "L = xs @ b # ys" using assms(3) by (metis lessThan_iff split_list)
  have d: "distinct (bhead # L)" using L(1) by (simp add: dll_def)
  have "nextof s b \<in> set (ys @ [bhead])"
    unfolding dll_ends(1) [OF L(1) [unfolded split]] by (rule hd_in_set) simp
  moreover have "prevof s b \<in> set (bhead # xs)"
    unfolding dll_ends(2) [OF L(1) [unfolded split]] by (rule last_in_set) simp
  moreover have "nextof s bhead = hd (L @ [bhead])"
    using L(1) chain_hd [of "nextof s" bhead L bhead] by (simp add: dll_def)
  then have "nextof s bhead \<in> set (L @ [bhead])"
    by (metis hd_in_set snoc_eq_iff_butlast)
  moreover have "x \<noteq> b \<and> x < NBUF" if "x \<in> set xs \<union> set ys" for x
    using that d L(2) [unfolded split, THEN equalityD1, THEN subsetD, of x] unfolding split by auto
  moreover have "x < NBUF" if "x \<in> set L" for x using that L(2) by simp
  ultimately have lts: "nextof s b < Suc NBUF" "prevof s b < Suc NBUF" "nextof s bhead < Suc NBUF"
    and ne: "nextof s b \<noteq> b" "prevof s b \<noteq> b"
    using assms(3) by fastforce+
  let ?nx = "(nextof s)(prevof s b := nextof s b)" and ?pv = "(prevof s)(nextof s b := prevof s b)"
  have "dll ?nx ?pv bhead (xs @ ys)"
    using dll_unlink [OF L(1) [unfolded split]] .
  then have "dll (?nx(b := ?nx bhead, bhead := b)) (?pv(b := bhead, ?nx bhead := b)) bhead (b # xs @ ys)"
    by (rule dll_push) (use d split in auto)
  moreover have "nextof (to_front b s) = ?nx(b := ?nx bhead, bhead := b)"
    "prevof (to_front b s) = ?pv(b := bhead, ?nx bhead := b)"
    using assms(2,3) lts ne by (auto simp: to_front_def Let_def set_link_at fun_eq_iff)
  moreover have "set (b # xs @ ys) = {..<NBUF}" using L(2) split by auto
  ultimately show ?thesis by (auto simp: links_ok_def)
qed


lemma to_front_frame [simp]:
  "locks (to_front b s) = locks s" "cpus (to_front b s) = cpus s" "mycpu (to_front b s) = mycpu s"
  "ptable (to_front b s) = ptable s" "slocks (to_front b s) = slocks s" "disk (to_front b s) = disk s"
  "length (bufs (to_front b s)) = length (bufs s)" "above (to_front b s) = above s"
  "pay (bufs (to_front b s) ! i) = pay (bufs s ! i)"
  by (simp_all add: to_front_def Let_def pay_def)

lemma core_to_front: "core (to_front b s) = to_front b (core s)"
  by (simp add: to_front_def Let_def set_next_def set_prev_def core_upd_buf core_sel)

text \<open>The state after \<open>brelse\<close>.\<close>

definition released :: "nat \<Rightarrow> kst \<Rightarrow> kst" where
  "released b s = to_front b (upd_buf b (\<lambda>x. x\<lparr>refcnt := 0\<rparr>)
     (upd_slock (BufLock b) (\<lambda>l. l\<lparr>slocked := 0, slpid := 0\<rparr>) s))"

lemma brelse_runs:
  assumes bf: "buffers p pd H s" and b: "b \<in> H"
  obtains t where "brelse b s = Ok () t" "quiet p pd t" "core t = core (released b s)"
proof -
  have q: "quiet p pd s" and ok: "bcache_ok H s" using bf by (simp_all add: buffers_def)
  have lt: "b < NBUF" "b < length (bufs s)" using b bcacheD(1,2) [OF ok] by auto
  have held: "slocked (slocks s (BufLock b)) \<noteq> 0" "refcnt (bufs s ! b) = 1"
    using bcacheD(6) [OF ok b] by (simp_all add: buf_held_def)
  let ?unlock = "upd_slock (BufLock b) (\<lambda>l. l\<lparr>slocked := 0, slpid := 0\<rparr>)"
  let ?drop = "upd_buf b (\<lambda>x. x\<lparr>refcnt := 0\<rparr>)"
  obtain u where u: "holdingsleep (BufLock b) s = Ok (slocked (slocks s (BufLock b))) u" "quiet p pd u" "core u = core s"
    by (rule holdingsleep_quiet [OF q])
  obtain v where v: "releasesleep (BufLock b) u = Ok () v" "quiet p pd v" "core v = core (?unlock u)"
    by (rule releasesleep_quiet [OF u(2)])
  have cv: "core v = core (?unlock s)" using v(3) core_congs(2) [OF u(3)] by simp
  then have bv: "bufs v = bufs s" using core_fields(15) [OF cv] by simp
  let ?w = "to_front b (?drop (enter L_bcache v))"
  have "upd_buf b (\<lambda>x. x\<lparr>refcnt := refcnt x - 1\<rparr>) (enter L_bcache v) = ?drop (enter L_bcache v)"
    by (rule upd_buf_cong) (simp add: bv held)
  moreover have "release L_bcache ?w = Ok () (leave L_bcache ?w)" and qw: "quiet p pd (leave L_bcache ?w)"
    by (rule quiet_leave [OF v(2)]; simp)+
  ultimately have "brelse b s = Ok () (leave L_bcache ?w)"
    using held lt by (simp add: brelse_def u(1) v(1) quiet_acquire [OF v(2)] bv Let_def)
  moreover have "core (leave L_bcache ?w) = core (released b s)"
    using cv by (simp add: released_def core_to_front core_upd_buf)
  ultimately show ?thesis using that qw by blast
qed

lemma brelse_spec:
  assumes bf: "buffers p pd H s" and b: "b \<in> H" "at s b n"
    and clean: "n \<in> pinned s \<or> bdata (bufs s ! b) = disk s n"
  obtains t where "brelse b s = Ok () t" "buffers p pd (H - {b}) t" "block t = block s" "pinned t = pinned s"
    "above t = above s" "\<And>i. pay (bufs t ! i) = (if i = b then pay ((bufs s ! b)\<lparr>refcnt := 0\<rparr>) else pay (bufs s ! i))"
proof -
  have ok: "bcache_ok H s" using bf by (simp add: buffers_def)
  have lt: "b < NBUF" "b < length (bufs s)" using b bcacheD(1,2) [OF ok] by auto
  have held: "buf_held s b" "buf_ok s b" using bcacheD(5,6) [OF ok] b(1) lt by simp_all
  obtain t where t: "brelse b s = Ok () t" "quiet p pd t" "core t = core (released b s)"
    by (rule brelse_runs [OF bf b(1)])
  let ?w = "released b s"
  have 1: "above ?w = above s" "disk ?w = disk s" "length (bufs ?w) = Suc NBUF"
    "slocks ?w = (slocks s)(BufLock b := (slocks s (BufLock b))\<lparr>slocked := 0, slpid := 0\<rparr>)"
    using bcacheD(1) [OF ok] by (simp_all add: released_def)
  have pw: "pay (bufs ?w ! i) = (if i = b then pay ((bufs s ! b)\<lparr>refcnt := 0\<rparr>) else pay (bufs s ! i))" for i
    using lt by (simp add: released_def nth_upd)
  note pb = pw [of b, simplified if_True refl, THEN payD(1)] pw [of b, simplified, THEN payD(2)]
    pw [of b, simplified, THEN payD(3)] pw [of b, simplified, THEN payD(4)] pw [of b, simplified, THEN payD(5)]
  have uniq: "\<not> at s i n" if "i < NBUF" "i \<noteq> b" for i
    using that b(2) bcacheD(8) [OF ok that(1) lt(1)] by auto
  have "links_ok ?w"
    unfolding released_def using bcacheD(1) [OF ok] lt
    by (intro to_front_links links_ok_upd(1,2) bcacheD(3) [OF ok]) simp_all
  moreover have "buf_free ?w b"
    using pb b(2) clean pinned_at [OF ok lt(1) b(2)] by (auto simp: buf_free_def 1)
  ultimately have ok': "bcache_ok (H - {b}) ?w"
    by (intro bcache_change [OF ok lt(1)])
      (use b lt 1(2-) pb pw held uniq bcacheD(2,4) [OF ok] in \<open>auto simp: buf_ok_def\<close>)
  have "bflags (bufs s ! b) \<noteq> 0" using held(1) by (simp add: buf_held_def)
  then have "block ?w = block s" "pinned ?w = pinned s"
    using block_change [OF ok ok' lt(1), of n] 1 pb pw b block_at [OF ok lt(1) b(2)] pinned_at [OF ok lt(1) b(2)]
    by (auto simp: cached_def fun_upd_idem)
  then show ?thesis
    using that [OF t(1) buffers_core [OF t(3,2) ok']] 1(1) pw
    by (simp add: bcache_core [OF t(3)] above_core [OF t(3)] core_fields(15) [OF t(3)])
qed


text \<open>Marking a buffer dirty keeps its block in the cache.\<close>

lemma pin_spec:
  assumes bf: "buffers p pd H s" and b: "b \<in> H" "at s b n"
    and t: "t = upd_buf b (\<lambda>x. x\<lparr>bflags := bflags x OR B_DIRTY\<rparr>) s"
  shows "buffers p pd H t" "block t = block s" "pinned t = insert n (pinned s)" "above t = above s"
    "bufs t ! b = (bufs s ! b)\<lparr>bflags := 6\<rparr>" "\<And>i. i \<noteq> b \<Longrightarrow> bufs t ! i = bufs s ! i"
proof -
  have q: "quiet p pd s" and ok: "bcache_ok H s" using bf by (simp_all add: buffers_def)
  have lt: "b < NBUF" "b < length (bufs s)" using b(1) bcacheD(1,2) [OF ok] by auto
  have held: "buf_held s b" "buf_ok s b" using bcacheD(5,6) [OF ok] b(1) lt by simp_all
  then have fl: "bflags (bufs s ! b) OR B_DIRTY = 6" "bflags (bufs s ! b) \<noteq> 0"
    by (auto simp: buf_held_def buf_ok_def)
  show 1: "above t = above s" "bufs t ! b = (bufs s ! b)\<lparr>bflags := 6\<rparr>" "\<And>i. i \<noteq> b \<Longrightarrow> bufs t ! i = bufs s ! i"
    using lt fl by (simp_all add: t)
  have 2: "disk t = disk s" "length (bufs t) = Suc NBUF" "slocks t = slocks s"
    using bcacheD(1) [OF ok] by (simp_all add: t)
  have uniq: "\<not> at s i n" if "i < NBUF" "i \<noteq> b" for i
    using that b(2) bcacheD(8) [OF ok that(1) lt(1)] by auto
  have "links_ok t"
    unfolding t by (intro links_ok_upd(1) bcacheD(3) [OF ok]) simp_all
  then have ok': "bcache_ok H t"
    by (intro bcache_change [OF ok lt(1)])
      (use b lt 1 2 held uniq bcacheD(2,4) [OF ok] in \<open>auto simp: buf_ok_def buf_held_def\<close>)
  then show "buffers p pd H t"
    using q by (simp add: buffers_def quiet_def lock_free_def t)
  show "block t = block s" "pinned t = insert n (pinned s)"
    using block_change [OF ok ok' lt(1), of n] 1 2 b fl block_at [OF ok lt(1) b(2)]
    by (auto simp: cached_def fun_upd_idem)
qed

text \<open>How many blocks can be pinned before \<open>bread\<close> runs out of buffers.\<close>

lemma pinned_card:
  assumes "bcache_ok H s"
  shows "finite (pinned s)" "card (pinned s) = card {i. i < NBUF \<and> bflags (bufs s ! i) = 6}"
proof -
  let ?I = "{i. i < NBUF \<and> bflags (bufs s ! i) = 6}"
  have dev: "bdev (bufs s ! i) = 1" if "i \<in> ?I" for i
    using that bcacheD(5) [OF assms, of i] by (auto simp: buf_ok_def)
  then have eq: "pinned s = (\<lambda>i. blockno (bufs s ! i)) ` ?I"
    by (auto simp: pinned_def cached_def)
  then show "finite (pinned s)" by simp
  have "inj_on (\<lambda>i. blockno (bufs s ! i)) ?I"
    by (rule inj_onI) (use dev bcacheD(8) [OF assms] in blast)
  then show "card (pinned s) = card ?I" unfolding eq by (rule card_image)
qed

lemma room_if:
  assumes "bcache_ok H s" "card (pinned s) + card H < NBUF"
  shows "room H s"
proof (rule ccontr)
  assume "\<not> room H s"
  then have "{..<NBUF} \<subseteq> {i. i < NBUF \<and> bflags (bufs s ! i) = 6} \<union> H" by (auto simp: room_def)
  moreover have "finite H" using bcacheD(2) [OF assms(1)] finite_subset by blast
  ultimately have "card {..<NBUF} \<le> card ({i. i < NBUF \<and> bflags (bufs s ! i) = 6} \<union> H)"
    by (intro card_mono) auto
  also have "\<dots> \<le> card (pinned s) + card H"
    unfolding pinned_card(2) [OF assms(1)] by (rule card_Un_le)
  finally show False using assms(2) by simp
qed

lemma bread_full:
  assumes bf: "buffers p pd H s" and no: "\<And>i. i < NBUF \<Longrightarrow> \<not> at s i n" and full: "\<not> room H s"
  shows "bread E 1 n s = Panic ''bget: no buffers''"
proof -
  have q: "quiet p pd s" and ok: "bcache_ok H s" using bf by (simp_all add: buffers_def)
  let ?P = "\<lambda>b. bdev (bufs s ! b) = 1 \<and> blockno (bufs s ! b) = n"
  let ?Q = "\<lambda>b. refcnt (bufs s ! b) = 0 \<and> bflags (bufs s ! b) AND B_DIRTY = 0"
  obtain L where L: "walk (nextof s) ?P (nextof s bhead) = Some (List.find ?P L)"
    "walk (prevof s) ?Q (prevof s bhead) = Some (List.find ?Q (rev L))" "set L = {..<NBUF}"
    by (rule walk_links [OF bcacheD(3) [OF ok]])
  have "\<not> ?Q i" if "i < NBUF" for i
    using full that bcacheD(6) [OF ok, of i] by (cases "i \<in> H") (auto simp: room_def buf_held_def)
  then have "List.find ?Q (rev L) = None" using L(3) unfolding find_None_iff by auto
  moreover have "List.find ?P L = None" using no L(3) unfolding find_None_iff by blast
  ultimately show ?thesis
    using L(1,2) by (simp add: bread_def bget_def quiet_acquire [OF q])
qed


section \<open>Initialisation\<close>

lemma initlock_frame [simp]:
  "bufs (initlock l nm s) = bufs s" "slocks (initlock l nm s) = slocks s" "disk (initlock l nm s) = disk s"
  "cpus (initlock l nm s) = cpus s" "mycpu (initlock l nm s) = mycpu s" "ptable (initlock l nm s) = ptable s"
  "disksize (initlock l nm s) = disksize s"
  by (simp_all add: initlock_def upd_defs)

lemma lock_free_initlock: "lock_free k (initlock l nm s) \<longleftrightarrow> k = l \<or> lock_free k s"
  by (auto simp: lock_free_def initlock_def upd_defs)

lemma binit_buf_frame:
  "slocks (binit_buf b s) = (slocks s)(BufLock b := (slocks s (BufLock b))\<lparr>slname := ''buffer'', slocked := 0, slpid := 0\<rparr>)"
  "disk (binit_buf b s) = disk s" "length (bufs (binit_buf b s)) = length (bufs s)"
  "pay (bufs (binit_buf b s) ! i) = pay (bufs s ! i)" "cpus (binit_buf b s) = cpus s"
  "mycpu (binit_buf b s) = mycpu s" "ptable (binit_buf b s) = ptable s" "disksize (binit_buf b s) = disksize s"
  by (simp_all add: binit_buf_def Let_def initsleeplock_def pay_def)

lemma binit_buf_free: "lock_free k s \<Longrightarrow> lock_free k (binit_buf b s)"
  by (simp add: binit_buf_def Let_def initsleeplock_def lock_free_def)
    (auto simp: lock_free_def [symmetric] lock_free_initlock, simp add: lock_free_def)

lemma binit_buf_links:
  assumes "dll (nextof s) (prevof s) bhead xs" "b \<notin> set (bhead # xs)" "b < NBUF" "set xs \<subseteq> {..<NBUF}"
    "length (bufs s) = Suc NBUF"
  shows "dll (nextof (binit_buf b s)) (prevof (binit_buf b s)) bhead (b # xs)"
proof -
  have "nextof s bhead \<in> set (xs @ [bhead])"
    using assms(1) chain_hd [of "nextof s" bhead xs bhead] hd_in_set [of "xs @ [bhead]"] by (simp add: dll_def)
  then have "nextof s bhead < Suc NBUF" "nextof s bhead \<noteq> b" using assms(2,4) by auto
  then have "nextof (binit_buf b s) = (nextof s)(b := nextof s bhead, bhead := b)"
    "prevof (binit_buf b s) = (prevof s)(b := bhead, nextof s bhead := b)"
    using assms(2,3,5) by (auto simp: binit_buf_def Let_def initsleeplock_def set_link_at fun_eq_iff)
  then show ?thesis using dll_push [OF assms(1,2)] by simp
qed

lemma binit_fold:
  assumes "dll (nextof s) (prevof s) bhead []" "length (bufs s) = Suc NBUF" "n \<le> NBUF"
  defines "t \<equiv> fold binit_buf [0..<n] s"
  shows "dll (nextof t) (prevof t) bhead (rev [0..<n])" "length (bufs t) = Suc NBUF"
    "\<And>i. pay (bufs t ! i) = pay (bufs s ! i)" "disk t = disk s" "cpus t = cpus s" "mycpu t = mycpu s"
    "ptable t = ptable s" "\<And>i. i < n \<Longrightarrow> slocked (slocks t (BufLock i)) = 0"
    "\<And>k. lock_free k s \<Longrightarrow> lock_free k t" "disksize t = disksize s"
  unfolding t_def using assms(3)
proof (induction n)
  case 0
  { case 1 then show ?case using assms(1) by simp next
    case 2 then show ?case using assms(2) by simp }
qed (auto simp: binit_buf_frame binit_buf_free less_Suc_eq intro!: binit_buf_links)


lemma binit_ok:
  assumes q: "quiet p pd s" and len: "length (bufs s) = Suc NBUF" and disk: "\<And>n. length (disk s n) = BSIZE"
    and zero: "\<And>i. i < NBUF \<Longrightarrow> pay (bufs s ! i) = (0, 0, 0, 0, x i)" "\<And>i. i < NBUF \<Longrightarrow> length (x i) = BSIZE"
  shows "buffers p pd {} (binit s)" "pinned (binit s) = {}" "disk (binit s) = disk s" "disksize (binit s) = disksize s"
proof -
  let ?s = "set_next bhead bhead (set_prev bhead bhead (initlock L_bcache ''bcache'' s))"
  have t: "binit s = fold binit_buf [0..<NBUF] ?s" by (simp only: binit_def Let_def)
  have d: "dll (nextof ?s) (prevof ?s) bhead []" by (simp add: dll_def set_link_at len)
  have l: "length (bufs ?s) = Suc NBUF" by (simp add: len)
  have ps: "pay (bufs ?s ! i) = pay (bufs s ! i)" for i by (simp add: pay_def)
  note f = binit_fold [OF d l order_refl, folded t]
  have pt: "bflags (bufs (binit s) ! i) = 0" "bdev (bufs (binit s) ! i) = 0" "refcnt (bufs (binit s) ! i) = 0"
    "length (bdata (bufs (binit s) ! i)) = BSIZE" if "i < NBUF" for i
    using f(3) [of i] zero(1) [OF that] zero(2) [OF that] by (simp_all add: ps pay_def)
  have "set (rev [0..<NBUF]) = {..<NBUF}" by (simp only: set_rev set_upt atLeast0LessThan)
  then have "links_ok (binit s)" using f(1) unfolding links_ok_def by blast
  then have ok: "bcache_ok {} (binit s)"
    using f(2,4,8) pt disk by (auto simp: bcache_ok_def buf_ok_def buf_free_def)
  have "lock_free k ?s" for k
    using quietD(1) [OF q, of k] by (simp add: lock_free_def initlock_def upd_defs)
  then have "quiet p pd (binit s)"
    using q f(5-7) f(9) by (simp add: quiet_def)
  then show "buffers p pd {} (binit s)" using ok by (simp add: buffers_def)
  show "pinned (binit s) = {}" using pt(1) by (auto simp: pinned_def cached_def)
  show "disk (binit s) = disk s" "disksize (binit s) = disksize s" using f(4,10) by simp_all
qed

lemma above_binit: "above (binit s) = above s"
proof -
  have lock: "above (initlock l nm s) = above s" for l nm s by (rule above_core) simp
  then have "above (initsleeplock (BufLock b) nm s) = above s" for b nm s
    by (simp add: initsleeplock_def Let_def)
  then have "above (binit_buf b s) = above s" for b s by (simp add: binit_buf_def Let_def)
  then have "above (fold binit_buf bs s) = above s" for bs s by (induction bs arbitrary: s) simp_all
  with lock show ?thesis by (simp only: binit_def Let_def set_link_frame)
qed

section \<open>Coherence\<close>

text \<open>How log.c and the boot code write one block: get the buffer, fill it, write it, release it.\<close>

definition write_block :: "env \<Rightarrow> u32 \<Rightarrow> u8 list \<Rightarrow> kst \<Rightarrow> unit kres" where
  "write_block E n d s =
     bnd (bread E 1 n s) (\<lambda>b s. seq (bwrite b (set_data b d s)) (brelse b))"

lemma modify_block_spec:
  assumes bf: "buffers p pd {} s" and n: "n < disksize s" "card (pinned s) < NBUF" "length d = BSIZE"
    and F: "\<And>b u. above u = above s \<Longrightarrow> bdata (bufs u ! b) = block s n \<Longrightarrow> F b u = d"
  obtains t where "bnd (bread E 1 n s) (\<lambda>b s. seq (bwrite b (set_data b (F b s) s)) (brelse b)) = Ok () t" "buffers p pd {} t" "block t = (block s)(n := d)"
    "pinned t = pinned s - {n}" "above t = above (s\<lparr>disk := (disk s)(n := d), dwrites := dwrites s @ [(n, d)]\<rparr>)"
proof -
  have "room {} s" using bf n(2) by (intro room_if) (simp_all add: buffers_def)
  then obtain b u where u: "bread E 1 n s = Ok b u" "buffers p pd {b} u" "at u b n"
    "block u = block s" "pinned u = pinned s" "above u = above s" "bdata (bufs u ! b) = block s n"
    using bread_spec [OF bf n(1), of E thesis] by auto
  note v = set_data_spec [OF u(2) insertI1 u(3) n(3)]
  have sz: "n < disksize (set_data b d u)" using n(1) above_fields [OF u(6)] by (simp add: set_data_def)
  have b': "bdata (bufs (set_data b d u) ! b) = d" "at (set_data b d u) b n"
    using v(5) u(3) by simp_all
  obtain w where w: "bwrite b (set_data b d u) = Ok () w" "buffers p pd {b} w" "block w = block (set_data b d u)"
    "pinned w = pinned s - {n}" "bufs w ! b = (bufs (set_data b d u) ! b)\<lparr>bflags := 2\<rparr>"
    "above w = above ((set_data b d u)\<lparr>disk := (disk (set_data b d u))(n := d),
       dwrites := dwrites (set_data b d u) @ [(n, d)]\<rparr>)"
    using bwrite_spec [OF v(1) insertI1 b'(2) sz, of thesis] b'(1) v(3) u(5) by auto
  have aw: "above w = above (s\<lparr>disk := (disk s)(n := d), dwrites := dwrites s @ [(n, d)]\<rparr>)"
    unfolding w(6) above_disk using above_fields(16,20) [OF u(6)] u(6) by (simp add: set_data_def)
  have "at w b n" "bdata (bufs w ! b) = disk w n"
    using w(5) b' above_fields(16) [OF aw] by simp_all
  then obtain t where "brelse b w = Ok () t" "buffers p pd ({b} - {b}) t" "block t = block w" "pinned t = pinned w"
    "above t = above w"
    by (rule_tac brelse_spec [OF w(2) insertI1]) auto
  then show ?thesis
    using that u(1,4) w(1,3,4) v(2) aw F [OF u(6,7)] by simp
qed

lemma write_block_spec:
  assumes "buffers p pd {} s" and "n < disksize s" "card (pinned s) < NBUF" "length d = BSIZE"
  obtains t where "write_block E n d s = Ok () t" "buffers p pd {} t" "block t = (block s)(n := d)"
    "pinned t = pinned s - {n}" "above t = above (s\<lparr>disk := (disk s)(n := d), dwrites := dwrites s @ [(n, d)]\<rparr>)"
proof -
  obtain t where "bnd (bread E 1 n s) (\<lambda>b s. seq (bwrite b (set_data b d s)) (brelse b)) = Ok () t" "buffers p pd {} t"
    "block t = (block s)(n := d)" "pinned t = pinned s - {n}"
    "above t = above (s\<lparr>disk := (disk s)(n := d), dwrites := dwrites s @ [(n, d)]\<rparr>)"
    by (rule modify_block_spec [OF assms refl])
  then show ?thesis using that by (simp add: write_block_def)
qed


lemma buffers_demo:
  "buffers 0 0 {} (binit kst0)" "pinned (binit kst0) = {}" "disksize (binit kst0) = 1000"
proof -
  have q: "quiet 0 0 kst0"
    by (simp add: quiet_def lock_free_def kst0_def cpu0_def spin0_def proc0_def)
  have p: "pay (bufs kst0 ! i) = (0, 0, 0, 0, replicate BSIZE 0)" if "i < NBUF" for i
    using that by (simp add: kst0_def pay_def buf0_def nth_append nth_Cons split: nat.split)
  have l: "length (bufs kst0) = Suc NBUF" "length (disk kst0 n) = BSIZE" "disksize kst0 = 1000" for n
    by (simp_all add: kst0_def)
  note b = binit_ok [OF q l(1,2) p, simplified]
  show "buffers 0 0 {} (binit kst0)" "pinned (binit kst0) = {}" "disksize (binit kst0) = 1000"
    using b l(3) by simp_all
qed


end
