(* ===== verification/Layout.thy ===== *)
theory Layout
  imports Bytes
begin

text \<open>
  Fields of C structures inside a block of bytes: little-endian \<open>ushort\<close> and \<open>uint\<close> values at a
  byte offset, and byte ranges. The on-disk structures (log header, super block, inodes,
  directory entries, bit maps, indirect blocks) are read and written with these.
\<close>

definition get_bytes :: "u8 list \<Rightarrow> nat \<Rightarrow> nat \<Rightarrow> u8 list" where
  "get_bytes d off n = take n (drop off d)"

definition put_bytes :: "u8 list \<Rightarrow> nat \<Rightarrow> u8 list \<Rightarrow> u8 list" where
  "put_bytes d off bs = take off d @ bs @ drop (off + length bs) d"

definition get16 :: "u8 list \<Rightarrow> nat \<Rightarrow> u16" where
  "get16 d off = word16 (get_bytes d off 2)"

definition put16 :: "u8 list \<Rightarrow> nat \<Rightarrow> u16 \<Rightarrow> u8 list" where
  "put16 d off w = put_bytes d off (bytes16 w)"

definition get32 :: "u8 list \<Rightarrow> nat \<Rightarrow> u32" where
  "get32 d off = word32 (get_bytes d off 4)"

definition put32 :: "u8 list \<Rightarrow> nat \<Rightarrow> u32 \<Rightarrow> u8 list" where
  "put32 d off w = put_bytes d off (bytes32 w)"

lemma length_put_bytes [simp]: "off + length bs \<le> length d \<Longrightarrow> length (put_bytes d off bs) = length d"
  by (simp add: put_bytes_def)

lemma length_get_bytes [simp]: "off + n \<le> length d \<Longrightarrow> length (get_bytes d off n) = n"
  by (simp add: get_bytes_def)

lemma length_put [simp]:
  "off + 4 \<le> length d \<Longrightarrow> length (put32 d off w) = length d" "off + 2 \<le> length d \<Longrightarrow> length (put16 d off v) = length d"
  by (simp_all add: put32_def put16_def)

lemma get_put_bytes:
  assumes "off + length bs \<le> length d"
  shows "get_bytes (put_bytes d off bs) off (length bs) = bs"
  using assms by (simp add: get_bytes_def put_bytes_def)

lemma nth_put_bytes:
  assumes "off + length bs \<le> length d" "i < length d"
  shows "put_bytes d off bs ! i = (if off \<le> i \<and> i < off + length bs then bs ! (i - off) else d ! i)"
  using assms by (auto simp: put_bytes_def nth_append min_def)

lemma get_put_bytes_other:
  assumes "off + length bs \<le> length d" "o2 + n \<le> off \<or> off + length bs \<le> o2" "o2 + n \<le> length d"
  shows "get_bytes (put_bytes d off bs) o2 n = get_bytes d o2 n"
  using assms by (intro nth_equalityI) (auto simp: get_bytes_def nth_put_bytes)

lemma get_put32 [simp]: "off + 4 \<le> length d \<Longrightarrow> get32 (put32 d off w) off = w"
  using get_put_bytes [of off "bytes32 w" d] by (simp add: get32_def put32_def)

lemma get_put16 [simp]: "off + 2 \<le> length d \<Longrightarrow> get16 (put16 d off w) off = w"
  using get_put_bytes [of off "bytes16 w" d] by (simp add: get16_def put16_def)

lemma get_put32_other:
  assumes "off + 4 \<le> length d"
  shows "o2 + 4 \<le> off \<or> off + 4 \<le> o2 \<Longrightarrow> o2 + 4 \<le> length d \<Longrightarrow> get32 (put32 d off w) o2 = get32 d o2"
    "o2 + 2 \<le> off \<or> off + 4 \<le> o2 \<Longrightarrow> o2 + 2 \<le> length d \<Longrightarrow> get16 (put32 d off w) o2 = get16 d o2"
  using assms by (simp_all add: get32_def get16_def put32_def get_put_bytes_other)

lemma get_put16_other:
  assumes "off + 2 \<le> length d"
  shows "o2 + 4 \<le> off \<or> off + 2 \<le> o2 \<Longrightarrow> o2 + 4 \<le> length d \<Longrightarrow> get32 (put16 d off w) o2 = get32 d o2"
    "o2 + 2 \<le> off \<or> off + 2 \<le> o2 \<Longrightarrow> o2 + 2 \<le> length d \<Longrightarrow> get16 (put16 d off w) o2 = get16 d o2"
  using assms by (simp_all add: get32_def get16_def put16_def get_put_bytes_other)

lemma sint_word_of_int32: "- (2 ^ 31) \<le> i \<Longrightarrow> i < 2 ^ 31 \<Longrightarrow> sint (word_of_int i :: u32) = i"
  by (simp add: sint_sbintrunc' signed_take_bit_int_eq_self)

lemma uint_word_of_int32: "0 \<le> i \<Longrightarrow> i < 2 ^ 32 \<Longrightarrow> uint (word_of_int i :: u32) = i"
  by (simp add: uint_word_of_int_eq take_bit_int_eq_self)

lemma word_of_int_sint32: "word_of_int (sint (w :: u32)) = w"
  by simp

end
