(* ===== verification/Log.thy ===== *)
theory Log
  imports Bio Layout
begin

unbundle bit_operations_syntax

text \<open>
  The write-ahead log (log.c), with \<open>readsb\<close> of fs.c. A transaction collects block numbers in
  \<open>klog\<close> and pins the blocks in the cache; \<open>commit\<close> copies them to the log, writes the header
  (the commit point), copies them home and clears the header. The block writes that reach the
  disk are recorded in \<open>dwrites\<close>, so a crash is a prefix of them.
\<close>

section \<open>Operations\<close>

definition upd_klog :: "(logrec \<Rightarrow> logrec) \<Rightarrow> kst \<Rightarrow> kst" where
  "upd_klog f s = s\<lparr>klog := f (klog s)\<rparr>"

definition set_lh_n :: "int \<Rightarrow> kst \<Rightarrow> kst" where
  "set_lh_n n = upd_klog (\<lambda>l. l\<lparr>lh := (lh l)\<lparr>lh_n := n\<rparr>\<rparr>)"

definition get_superblock :: "u8 list \<Rightarrow> superblock" where
  "get_superblock d = \<lparr>sb_size = get32 d 0, sb_nblocks = get32 d 4, sb_ninodes = get32 d 8, sb_nlog = get32 d 12,
     sb_logstart = get32 d 16, sb_inodestart = get32 d 20, sb_bmapstart = get32 d 24\<rparr>"

definition readsb :: "env \<Rightarrow> int \<Rightarrow> kst \<Rightarrow> superblock kres" where
  "readsb E dev s =
     bnd (bread E (word_of_int dev) 1 s) (\<lambda>bp s.
       let v = get_superblock (bdata (bufs s ! bp))
       in seq (brelse bp s) (Ok v))"

abbreviation ldev :: "kst \<Rightarrow> u32" where "ldev s \<equiv> word_of_int (log_dev (klog s))"

text \<open>Block \<open>tail\<close> of the log, and its home.\<close>

definition log_block :: "kst \<Rightarrow> nat \<Rightarrow> u32" where
  "log_block s tail = word_of_int (log_start (klog s) + int tail + 1)"

definition home_block :: "kst \<Rightarrow> nat \<Rightarrow> u32" where
  "home_block s tail = word_of_int (lh_block (lh (klog s)) ! tail)"

abbreviation more_blocks :: "nat \<Rightarrow> kst \<Rightarrow> bool" where
  "more_blocks tail s \<equiv> int tail < lh_n (lh (klog s))"

definition install_trans :: "env \<Rightarrow> kst \<Rightarrow> unit kres" where
  "install_trans E =
     for_while more_blocks (\<lambda>tail s.
       bnd (bread E (ldev s) (log_block s tail) s) (\<lambda>lbuf s.
       bnd (bread E (ldev s) (home_block s tail) s) (\<lambda>dbuf s.
         let s = set_data dbuf (bdata (bufs s ! lbuf)) s
         in seq (bwrite dbuf s) (\<lambda>s. seq (brelse lbuf s) (brelse dbuf))))) 0"

text \<open>The header block: \<open>n\<close> at offset 0, \<open>block[i]\<close> at offset \<open>4 + 4 i\<close>.\<close>

definition get_head_n :: "u8 list \<Rightarrow> int" where
  "get_head_n d = sint (get32 d 0)"

definition get_head_block :: "u8 list \<Rightarrow> nat \<Rightarrow> int" where
  "get_head_block d i = sint (get32 d (4 + 4 * i))"

definition put_head :: "logheader \<Rightarrow> u8 list \<Rightarrow> u8 list" where
  "put_head h d =
     fold (\<lambda>i d. put32 d (4 + 4 * i) (word_of_int (lh_block h ! i))) [0..<nat (lh_n h)]
       (put32 d 0 (word_of_int (lh_n h)))"

text \<open>A header that claims more than \<open>LOGSIZE\<close> blocks makes the copy run over the end of
  \<open>log.lh.block\<close>.\<close>

definition read_head :: "env \<Rightarrow> kst \<Rightarrow> unit kres" where
  "read_head E s =
     bnd (bread E (ldev s) (word_of_int (log_start (klog s))) s) (\<lambda>buf s.
       let d = bdata (bufs s ! buf);
           s = set_lh_n (get_head_n d) s
       in if get_head_n d > LOGSIZE then Fault ''log.lh.block''
          else let s = upd_klog (\<lambda>l. l\<lparr>lh := (lh l)\<lparr>lh_block :=
                   fold (\<lambda>i bs. bs[i := get_head_block d i]) [0..<nat (get_head_n d)] (lh_block (lh l))\<rparr>\<rparr>) s
               in brelse buf s)"

definition write_head :: "env \<Rightarrow> kst \<Rightarrow> unit kres" where
  "write_head E s =
     bnd (bread E (ldev s) (word_of_int (log_start (klog s))) s) (\<lambda>buf s.
       let s = set_data buf (put_head (lh (klog s)) (bdata (bufs s ! buf))) s
       in seq (bwrite buf s) (brelse buf))"

definition recover_from_log :: "env \<Rightarrow> kst \<Rightarrow> unit kres" where
  "recover_from_log E s =
     seq (read_head E s) (\<lambda>s.
     seq (install_trans E s) (\<lambda>s.
     write_head E (set_lh_n 0 s)))"

text \<open>\<open>sizeof(struct logheader)\<close> is \<open>4 + 4 * LOGSIZE = 124\<close>, less than \<open>BSIZE\<close>.\<close>

definition initlog :: "env \<Rightarrow> int \<Rightarrow> kst \<Rightarrow> unit kres" where
  "initlog E dev s =
     (if 4 + 4 * LOGSIZE \<ge> int BSIZE then Panic ''initlog: too big logheader''
      else let s = initlock L_log ''log'' s
           in bnd (readsb E dev s) (\<lambda>v s.
                let s = upd_klog (\<lambda>l. l\<lparr>log_start := sint (sb_logstart v), log_size := sint (sb_nlog v), log_dev := dev\<rparr>) s
                in recover_from_log E s))"

definition begin_op :: "env \<Rightarrow> kst \<Rightarrow> unit kres" where
  "begin_op E s =
     seq (acquire L_log s)
       (loop (\<lambda>s.
          if committing (klog s) \<noteq> 0 then seq (sleep E Ch_log (Some L_log) s) (Ok None)
          else if lh_n (lh (klog s)) + (outstanding (klog s) + 1) * MAXOPBLOCKS > LOGSIZE
          then seq (sleep E Ch_log (Some L_log) s) (Ok None)
          else let s = upd_klog (\<lambda>l. l\<lparr>outstanding := outstanding l + 1\<rparr>) s
               in seq (release L_log s) (Ok (Some ()))))"

definition write_log :: "env \<Rightarrow> kst \<Rightarrow> unit kres" where
  "write_log E =
     for_while more_blocks (\<lambda>tail s.
       bnd (bread E (ldev s) (log_block s tail) s) (\<lambda>to s.
       bnd (bread E (ldev s) (home_block s tail) s) (\<lambda>from s.
         let s = set_data to (bdata (bufs s ! from)) s
         in seq (bwrite to s) (\<lambda>s. seq (brelse from s) (brelse to))))) 0"

definition commit :: "env \<Rightarrow> kst \<Rightarrow> unit kres" where
  "commit E s =
     (if lh_n (lh (klog s)) > 0
      then seq (write_log E s) (\<lambda>s.
           seq (write_head E s) (\<lambda>s.
           seq (install_trans E s) (\<lambda>s.
           write_head E (set_lh_n 0 s))))
      else Ok () s)"

definition end_op :: "env \<Rightarrow> kst \<Rightarrow> unit kres" where
  "end_op E s =
     seq (acquire L_log s) (\<lambda>s.
       let s = upd_klog (\<lambda>l. l\<lparr>outstanding := outstanding l - 1\<rparr>) s
       in if committing (klog s) \<noteq> 0 then Panic ''log.committing''
          else let do_commit = (outstanding (klog s) = 0)
               in seq (if do_commit then Ok () (upd_klog (\<lambda>l. l\<lparr>committing := 1\<rparr>) s) else wakeup Ch_log s) (\<lambda>s.
                  seq (release L_log s) (\<lambda>s.
                    if do_commit
                    then seq (commit E s) (\<lambda>s.
                         seq (acquire L_log s) (\<lambda>s.
                           let s = upd_klog (\<lambda>l. l\<lparr>committing := 0\<rparr>) s
                           in seq (wakeup Ch_log s) (release L_log)))
                    else Ok () s)))"

text \<open>The search for the block in the header and the entry made for it. The block numbers of the
  log are \<open>int\<close>, those of the buffers \<open>uint\<close>; C compares them as unsigned.\<close>

definition record_block :: "u32 \<Rightarrow> logrec \<Rightarrow> logrec" where
  "record_block n l =
     (let h = lh l;
          i = (case find_idx (\<lambda>x. word_of_int x = n) (take (nat (lh_n h)) (lh_block h)) of
                 Some i \<Rightarrow> i | None \<Rightarrow> nat (lh_n h));
          h' = h\<lparr>lh_block := (lh_block h)[i := sint n]\<rparr>
      in l\<lparr>lh := (if int i = lh_n h then h'\<lparr>lh_n := lh_n h + 1\<rparr> else h')\<rparr>)"

definition log_write :: "nat \<Rightarrow> kst \<Rightarrow> unit kres" where
  "log_write b s =
     (if lh_n (lh (klog s)) \<ge> LOGSIZE \<or> lh_n (lh (klog s)) \<ge> log_size (klog s) - 1
      then Panic ''too big a transaction''
      else if outstanding (klog s) < 1 then Panic ''log_write outside of trans''
      else seq (acquire L_log s) (\<lambda>s.
        let s = upd_klog (record_block (blockno (bufs s ! b))) s;
            s = upd_buf b (\<lambda>b. b\<lparr>bflags := bflags b OR B_DIRTY\<rparr>) s
        in release L_log s))"


section \<open>Copying a block through the cache\<close>

definition apply_writes :: "(u32 \<times> u8 list) list \<Rightarrow> (u32 \<Rightarrow> u8 list) \<Rightarrow> u32 \<Rightarrow> u8 list" where
  "apply_writes W D = fold (\<lambda>(n, d) D. D(n := d)) W D"

definition wr :: "(u32 \<times> u8 list) list \<Rightarrow> kst \<Rightarrow> kst" where
  "wr W s = s\<lparr>disk := apply_writes W (disk s), dwrites := dwrites s @ W\<rparr>"

lemma apply_writes_simps [simp]:
  "apply_writes [] D = D" "apply_writes (W @ V) D = apply_writes V (apply_writes W D)"
  "apply_writes (w # V) D = apply_writes V (D(fst w := snd w))"
  by (simp_all add: apply_writes_def case_prod_beta)

lemma wr_simps [simp]:
  "wr [] s = s" "wr V (wr W s) = wr (W @ V) s" "disk (wr W s) = apply_writes W (disk s)"
  "dwrites (wr W s) = dwrites s @ W" "disksize (wr W s) = disksize s" "klog (wr W s) = klog s"
  "bufs (wr W s) = bufs s" "upd_klog f (wr W s) = wr W (upd_klog f s)"
  by (simp_all add: wr_def upd_klog_def)

lemma above_wr:
  assumes "above t = above s"
  shows "above (wr W t) = above (wr W s)"
  by (simp add: wr_def above_disk assms above_fields(16,20) [OF assms])

lemma apply_writes_cong: "D x = D' x \<Longrightarrow> apply_writes W D x = apply_writes W D' x"
proof (induction W arbitrary: D D')
  case (Cons w W)
  have "apply_writes W (D(fst w := snd w)) x = apply_writes W (D'(fst w := snd w)) x"
    by (rule Cons.IH) (simp add: Cons.prems)
  then show ?case by simp
qed simp

lemma apply_writes_other: "x \<notin> fst ` set W \<Longrightarrow> apply_writes W D x = D x"
  by (induction W arbitrary: D) auto

lemma length_block: "bcache_ok H s \<Longrightarrow> length (block s n) = BSIZE"
  using bcacheD(4,5) [of H s] unfolding block_def by (auto simp: buf_ok_def find_idx_Some split: option.split)

lemma block_disk:
  assumes "bcache_ok {} s" "n \<notin> pinned s"
  shows "block s n = disk s n"
proof (cases "\<exists>i. cached s i n")
  case True
  then obtain i where i: "cached s i n" by blast
  then have "i < NBUF" "bflags (bufs s ! i) \<noteq> 6" "bflags (bufs s ! i) \<noteq> 0" "blockno (bufs s ! i) = n"
    using assms(2) by (auto simp: pinned_def cached_def)
  then show ?thesis
    using block_cached [OF assms(1) i] bcacheD(5,7) [OF assms(1), of i] by (auto simp: buf_ok_def buf_free_def)
qed (use block_uncached [OF assms(1)] in blast)

lemma two_reads:
  assumes bf: "buffers p pd {} s" and ab: "a \<noteq> b" "a < disksize s" "b < disksize s"
    and room: "card (pinned s) < NBUF" "b \<in> pinned s \<or> card (pinned s) + 1 < NBUF"
  obtains x v y u where "bread E 1 a s = Ok x v" "above v = above s" "bread E 1 b v = Ok y u" "x \<noteq> y"
    "buffers p pd {x, y} u" "at u x a" "at u y b" "bdata (bufs u ! x) = block s a" "bdata (bufs u ! y) = block s b"
    "block u = block s" "pinned u = pinned s" "above u = above s"
proof -
  have "room {} s" using bf room(1) by (intro room_if) (simp_all add: buffers_def)
  then obtain x v where v: "bread E 1 a s = Ok x v" "buffers p pd {x} v" "at v x a" "bdata (bufs v ! x) = block s a"
    "block v = block s" "pinned v = pinned s" "above v = above s"
    using bread_spec [OF bf ab(2), of E thesis] by auto
  have "b \<in> pinned v \<or> room {x} v"
    using v(2,6) room(2) room_if [of "{x}" v] by (auto simp: buffers_def)
  moreover have "b < disksize v" using above_fields(17) [OF v(7)] ab(3) by simp
  moreover have "\<And>i. i \<in> {x} \<Longrightarrow> \<not> at v i b" using v(3) ab(1) by simp
  ultimately obtain y u where "bread E 1 b v = Ok y u" "buffers p pd (insert y {x}) u" "y \<notin> {x}" "at u y b"
    "bdata (bufs u ! y) = block v b" "block u = block v" "pinned u = pinned v" "above u = above v"
    "\<And>i. i \<noteq> y \<Longrightarrow> bufs u ! i = bufs v ! i"
    using bread_spec [OF v(2), of b E thesis] by blast
  then show ?thesis using that [of x v y u] v by (auto simp: insert_commute)
qed

lemma copy_back:
  assumes bf: "buffers p pd {x, y} u" and xy: "x \<noteq> y" "at u x a" "at u y b" "b < disksize u"
    and clean: "a \<in> pinned u \<or> bdata (bufs u ! x) = disk u a" and d: "d = bdata (bufs u ! x)"
  obtains t where "seq (bwrite y (set_data y d u)) (\<lambda>s. seq (brelse x s) (brelse y)) = Ok () t"
    "buffers p pd {} t" "block t = (block u)(b := d)" "pinned t = pinned u - {b}" "above t = above (wr [(b, d)] u)"
proof -
  have ok: "bcache_ok {x, y} u" using bf by (simp add: buffers_def)
  have ab: "a \<noteq> b" using bcacheD(2) [OF ok] bcacheD(8) [OF ok, of x y] xy(1-3) by auto
  have len: "length d = BSIZE" using bcacheD(2,5) [OF ok] by (auto simp: d buf_ok_def)
  let ?v = "set_data y d u"
  have yH: "y \<in> {x, y}" and xH: "x \<in> {x, y}" by simp_all
  note v = set_data_spec [OF bf yH xy(3) len]
  have aty: "at ?v y b" "bdata (bufs ?v ! y) = d" "b < disksize ?v"
    using v(5) xy(3,4) by (simp_all add: set_data_def)
  obtain w where w: "bwrite y ?v = Ok () w" "buffers p pd {x, y} w" "block w = block ?v" "pinned w = pinned ?v - {b}"
    "above w = above (wr [(b, d)] ?v)" "bufs w ! y = (bufs ?v ! y)\<lparr>bflags := 2\<rparr>" "\<And>i. i \<noteq> y \<Longrightarrow> bufs w ! i = bufs ?v ! i"
    using bwrite_spec [OF v(1) yH aty(1,3), of thesis] aty(2) by (auto simp: wr_def)
  have aw: "above w = above (wr [(b, d)] u)" using w(5) above_wr [OF v(4)] by simp
  note dw = above_fields(16) [OF aw]
  have atx: "at w x a" "bdata (bufs w ! x) = d" using w(7) v(6) xy(1,2) d by simp_all
  have "a \<in> pinned w \<or> bdata (bufs w ! x) = disk w a"
    using clean w(4) v(3) ab atx d dw by auto
  then obtain q where q: "brelse x w = Ok () q" "buffers p pd ({x, y} - {x}) q" "block q = block w" "pinned q = pinned w"
    "above q = above w" "\<And>i. pay (bufs q ! i) = (if i = x then pay ((bufs w ! x)\<lparr>refcnt := 0\<rparr>) else pay (bufs w ! i))"
    using brelse_spec [OF w(2) xH atx(1), of thesis] by blast
  have pq: "pay (bufs q ! y) = pay (bufs w ! y)" using q(6) [of y] xy(1) by simp
  have "at q y b" "bdata (bufs q ! y) = disk q b"
    using payD [OF pq] w(6) aty above_fields(16) [OF q(5)] dw by simp_all
  moreover have "buffers p pd {y} q" using q(2) xy(1) by (simp add: insert_Diff_if)
  ultimately obtain t where "brelse y q = Ok () t" "buffers p pd ({y} - {y}) t" "block t = block q" "pinned t = pinned q"
    "above t = above q"
    using brelse_spec [of p pd "{y}" q y b thesis] by blast
  then show ?thesis using that [of t] w(1,3,4) q(1,3-5) v(2,3) aw by simp
qed


section \<open>The log header\<close>

lemma fold_put32:
  assumes "4 + 4 * n \<le> length d"
  shows "length (fold (\<lambda>i d. put32 d (4 + 4 * i) (f i)) [0..<n] d) = length d"
    "get32 (fold (\<lambda>i d. put32 d (4 + 4 * i) (f i)) [0..<n] d) 0 = get32 d 0"
    "\<And>i. i < n \<Longrightarrow> get32 (fold (\<lambda>i d. put32 d (4 + 4 * i) (f i)) [0..<n] d) (4 + 4 * i) = f i"
  using assms
proof (induction n)
  case (Suc n)
  { case 1 then show ?case using Suc by simp }
  { case 2 then show ?case using Suc by (simp add: get_put32_other) }
  { case (3 i)
    then show ?case using Suc by (cases "i = n") (simp_all add: get_put32_other) }
qed simp_all

lemma put_head_get:
  assumes "0 \<le> lh_n h" "lh_n h \<le> LOGSIZE" "length d = BSIZE"
  shows "length (put_head h d) = BSIZE" "get_head_n (put_head h d) = lh_n h"
    "\<And>i. int i < lh_n h \<Longrightarrow> word_of_int (get_head_block (put_head h d) i) = (word_of_int (lh_block h ! i) :: u32)"
proof -
  let ?d = "put32 d 0 (word_of_int (lh_n h))"
  have l: "4 + 4 * nat (lh_n h) \<le> length ?d" using assms by simp
  note f = fold_put32 [OF l, where f = "\<lambda>i. word_of_int (lh_block h ! i)"]
  show "length (put_head h d) = BSIZE" using f(1) assms(3) by (simp add: put_head_def)
  show "get_head_n (put_head h d) = lh_n h"
    using f(2) assms by (simp add: put_head_def get_head_n_def sint_word_of_int32)
  show "word_of_int (get_head_block (put_head h d) i) = (word_of_int (lh_block h ! i) :: u32)" if "int i < lh_n h" for i
    using f(3) [of i] that by (simp add: put_head_def get_head_block_def)
qed

lemma fold_upd_nth:
  assumes "n \<le> length bs"
  shows "length (fold (\<lambda>i bs. bs[i := f i]) [0..<n] bs) = length bs"
    "\<And>j. j < n \<Longrightarrow> fold (\<lambda>i bs. bs[i := f i]) [0..<n] bs ! j = f j"
  using assms
proof (induction n)
  case (Suc n)
  { case 1 then show ?case using Suc by simp }
  { case (2 j) then show ?case using Suc by (cases "j = n") simp_all }
qed simp_all

lemma fold_upd_length [simp]: "length (fold (\<lambda>i bs. bs[i := f i]) is bs) = length bs"
  by (induction "is" arbitrary: bs) simp_all

section \<open>The shape of a transaction\<close>

definition log_head :: "kst \<Rightarrow> u32" where
  "log_head s = word_of_int (log_start (klog s))"

definition log_area :: "kst \<Rightarrow> u32 set" where
  "log_area s = insert (log_head s) {log_block s j | j. int j + 1 < log_size (klog s)}"

abbreviation nlog :: "kst \<Rightarrow> nat" where "nlog s \<equiv> nat (lh_n (lh (klog s)))"

definition homes :: "kst \<Rightarrow> u32 list" where
  "homes s = map (home_block s) [0..<nlog s]"

text \<open>The log lies inside the disk and the header describes distinct blocks outside the log.\<close>

definition geometry :: "kst \<Rightarrow> bool" where
  "geometry s \<longleftrightarrow> log_dev (klog s) = 1 \<and> 0 \<le> log_start (klog s) \<and> log_size (klog s) \<le> LOGSIZE \<and>
     log_start (klog s) + log_size (klog s) \<le> uint (disksize s) \<and> 0 < log_size (klog s) \<and>
     length (lh_block (lh (klog s))) = nat LOGSIZE"

definition log_ok :: "kst \<Rightarrow> bool" where
  "log_ok s \<longleftrightarrow> geometry s \<and> 0 \<le> lh_n (lh (klog s)) \<and> lh_n (lh (klog s)) < log_size (klog s) \<and>
     distinct (homes s) \<and> (\<forall>x\<in>set (homes s). x < disksize s \<and> x \<notin> log_area s)"

lemma log_defs_cong:
  assumes "klog t = klog s"
  shows "log_block t = log_block s" "home_block t = home_block s" "log_head t = log_head s" "log_area t = log_area s"
    "homes t = homes s"
  using assms by (simp_all add: log_block_def home_block_def log_head_def log_area_def homes_def fun_eq_iff)

lemma log_ok_cong:
  assumes "klog t = klog s" "disksize t = disksize s"
  shows "log_ok t = log_ok s"
  using assms log_defs_cong [OF assms(1)] by (simp add: log_ok_def geometry_def)

text \<open>Blocks of the log are distinct and on the disk.\<close>

lemma geometry_blocks:
  assumes "geometry s" "int i + 1 < log_size (klog s)"
  shows "log_block s i < disksize s" "log_block s i \<noteq> log_head s" "log_block s i \<in> log_area s"
    "int j + 1 < log_size (klog s) \<Longrightarrow> log_block s i = log_block s j \<longleftrightarrow> i = j" "log_head s < disksize s"
proof -
  have lt: "uint (disksize s) < 2 ^ 32" using uint_lt2p [of "disksize s"] by simp
  have u: "uint (log_block s k) = log_start (klog s) + int k + 1" if "int k + 1 < log_size (klog s)" for k
    unfolding log_block_def by (rule uint_word_of_int32) (use that assms(1) lt in \<open>auto simp: geometry_def\<close>)
  have h: "uint (log_head s) = log_start (klog s)"
    unfolding log_head_def by (rule uint_word_of_int32) (use assms(1) lt in \<open>auto simp: geometry_def\<close>)
  show "log_block s i < disksize s" "log_head s < disksize s"
    using u [OF assms(2)] h assms by (simp_all add: word_less_def geometry_def)
  show "log_block s i \<noteq> log_head s"
  proof
    assume "log_block s i = log_head s"
    then have "uint (log_block s i) = uint (log_head s)" by (rule arg_cong)
    then show False unfolding u [OF assms(2)] h by linarith
  qed
  show "log_block s i \<in> log_area s" unfolding log_area_def using assms(2) by blast
  show "log_block s i = log_block s j \<longleftrightarrow> i = j" if "int j + 1 < log_size (klog s)"
  proof
    assume "log_block s i = log_block s j"
    then have "uint (log_block s i) = uint (log_block s j)" by (rule arg_cong)
    then show "i = j" unfolding u [OF assms(2)] u [OF that] by linarith
  qed simp
qed

lemma geometry_head:
  assumes "geometry s"
  shows "log_head s < disksize s"
proof -
  have "uint (disksize s) < 2 ^ 32" using uint_lt2p [of "disksize s"] by simp
  then have "uint (log_head s) = log_start (klog s)"
    unfolding log_head_def by (intro uint_word_of_int32) (use assms in \<open>auto simp: geometry_def\<close>)
  then show ?thesis using assms by (simp add: word_less_def geometry_def)
qed

lemma log_okD:
  assumes "log_ok s" "i < nlog s"
  shows "home_block s i < disksize s" "home_block s i \<notin> log_area s" "int i + 1 < log_size (klog s)"
    "home_block s i \<in> set (homes s)" "home_block s i \<noteq> log_head s"
proof -
  show h: "home_block s i \<in> set (homes s)" using assms(2) by (simp add: homes_def)
  then show "home_block s i < disksize s" and n: "home_block s i \<notin> log_area s"
    using assms(1) by (simp_all add: log_ok_def)
  then show "home_block s i \<noteq> log_head s" by (auto simp: log_area_def)
  show "int i + 1 < log_size (klog s)" using assms unfolding log_ok_def by linarith
qed


section \<open>The passes of a commit\<close>

text \<open>The state \<open>t\<close> is \<open>s\<close> after the block writes \<open>W\<close>, with cache contents \<open>c\<close> and pinned blocks \<open>P\<close>.\<close>

definition after :: "nat \<Rightarrow> int \<Rightarrow> kst \<Rightarrow> (u32 \<times> u8 list) list \<Rightarrow> (u32 \<Rightarrow> u8 list) \<Rightarrow> u32 set \<Rightarrow> kst \<Rightarrow> bool" where
  "after p pd s W c P t \<longleftrightarrow> buffers p pd {} t \<and> above t = above (wr W s) \<and> block t = c \<and> pinned t = P"

lemma afterD:
  assumes "after p pd s W c P t"
  shows "klog t = klog s" "disksize t = disksize s" "disk t = apply_writes W (disk s)" "dwrites t = dwrites s @ W"
  using assms above_fields(14,16,17,20) [of t "wr W s"] by (simp_all add: after_def)

lemma after_trans:
  assumes "after p pd s W c P t" "after p pd t V c' P' u"
  shows "after p pd s (W @ V) c' P' u"
  using assms above_wr [of t "wr W s" V] by (simp add: after_def)

lemma after_refl: "buffers p pd {} s \<Longrightarrow> after p pd s [] (block s) (pinned s) s"
  by (simp add: after_def)

lemma copy_after:
  assumes bf: "buffers p pd {} s" and ab: "a \<noteq> b" "a < disksize s" "b < disksize s"
    and room: "card (pinned s) < NBUF" "b \<in> pinned s \<or> card (pinned s) + 1 < NBUF"
    and args: "\<And>v. above v = above s \<Longrightarrow> dv v = 1 \<and> hv v = b"
  shows "\<exists>t. bnd (bread E 1 a s) (\<lambda>x v. bnd (bread E (dv v) (hv v) v) (\<lambda>y u.
           seq (bwrite y (set_data y (bdata (bufs u ! x)) u)) (\<lambda>s. seq (brelse x s) (brelse y)))) = Ok () t \<and>
           after p pd s [(b, block s a)] ((block s)(b := block s a)) (pinned s - {b}) t"
    "\<exists>t. bnd (bread E 1 a s) (\<lambda>x v. bnd (bread E (dv v) (hv v) v) (\<lambda>y u.
           seq (bwrite x (set_data x (bdata (bufs u ! y)) u)) (\<lambda>s. seq (brelse y s) (brelse x)))) = Ok () t \<and>
           after p pd s [(a, block s b)] ((block s)(a := block s b)) (pinned s - {a}) t"
proof -
  obtain x v y u where r: "bread E 1 a s = Ok x v" "above v = above s" "bread E 1 b v = Ok y u" "x \<noteq> y"
    "buffers p pd {x, y} u" "at u x a" "at u y b" "bdata (bufs u ! x) = block s a" "bdata (bufs u ! y) = block s b"
    "block u = block s" "pinned u = pinned s" "above u = above s"
    by (rule two_reads [OF bf ab room])
  have ok: "bcache_ok {} s" using bf by (simp add: buffers_def)
  have dk: "disk u = disk s" "disksize u = disksize s" using above_fields(16,17) [OF r(12)] by simp_all
  have clean: "n \<in> pinned u \<or> block s n = disk u n" for n using block_disk [OF ok, of n] by (auto simp: r(11) dk)
  obtain t where "seq (bwrite y (set_data y (block s a) u)) (\<lambda>s. seq (brelse x s) (brelse y)) = Ok () t"
    "buffers p pd {} t" "block t = (block u)(b := block s a)" "pinned t = pinned u - {b}"
    "above t = above (wr [(b, block s a)] u)"
    by (rule copy_back [OF r(5,4,6,7), of "block s a"]) (use clean ab dk r in auto)
  then show "\<exists>t. bnd (bread E 1 a s) (\<lambda>x v. bnd (bread E (dv v) (hv v) v) (\<lambda>y u.
           seq (bwrite y (set_data y (bdata (bufs u ! x)) u)) (\<lambda>s. seq (brelse x s) (brelse y)))) = Ok () t \<and>
           after p pd s [(b, block s a)] ((block s)(b := block s a)) (pinned s - {b}) t"
    using r args [OF r(2)] above_wr [OF r(12)] by (simp add: after_def)
  have "buffers p pd {y, x} u" using r(5) by (simp add: insert_commute)
  then obtain t where "seq (bwrite x (set_data x (block s b) u)) (\<lambda>s. seq (brelse y s) (brelse x)) = Ok () t"
    "buffers p pd {} t" "block t = (block u)(a := block s b)" "pinned t = pinned u - {a}"
    "above t = above (wr [(a, block s b)] u)"
    by (rule copy_back [OF _ r(4) [symmetric] r(7,6), of p pd "block s b"]) (use clean ab dk r in auto)
  then show "\<exists>t. bnd (bread E 1 a s) (\<lambda>x v. bnd (bread E (dv v) (hv v) v) (\<lambda>y u.
           seq (bwrite x (set_data x (bdata (bufs u ! y)) u)) (\<lambda>s. seq (brelse y s) (brelse x)))) = Ok () t \<and>
           after p pd s [(a, block s b)] ((block s)(a := block s b)) (pinned s - {a}) t"
    using r args [OF r(2)] above_wr [OF r(12)] by (simp add: after_def)
qed


definition logged :: "kst \<Rightarrow> nat \<Rightarrow> (u32 \<times> u8 list) list" where
  "logged s j = map (\<lambda>i. (log_block s i, block s (home_block s i))) [0..<j]"

definition installed :: "kst \<Rightarrow> nat \<Rightarrow> (u32 \<times> u8 list) list" where
  "installed s j = map (\<lambda>i. (home_block s i, block s (log_block s i))) [0..<j]"

lemma logged_Suc: "logged s (Suc j) = logged s j @ [(log_block s j, block s (home_block s j))]"
  by (simp add: logged_def)

lemma installed_Suc: "installed s (Suc j) = installed s j @ [(home_block s j, block s (log_block s j))]"
  by (simp add: installed_def)

lemma homes_card:
  assumes "log_ok s" "P = set (homes s) \<or> P = {}"
  shows "card P < NBUF" "P = {} \<Longrightarrow> card P + 1 < NBUF"
proof -
  have "card (set (homes s)) \<le> nlog s" using card_length [of "homes s"] by (simp add: homes_def)
  moreover have "nlog s < NBUF" using assms(1) unfolding log_ok_def geometry_def by linarith
  ultimately show "card P < NBUF" "P = {} \<Longrightarrow> card P + 1 < NBUF" using assms(2) by auto
qed

lemma write_log_after:
  assumes bf: "buffers p pd {} s" and ok: "log_ok s" and pin: "pinned s = set (homes s)"
  obtains t where "write_log E s = Ok () t"
    "after p pd s (logged s (nlog s)) (apply_writes (logged s (nlog s)) (block s)) (pinned s) t"
proof -
  let ?Inv = "\<lambda>j t. after p pd s (logged s j) (apply_writes (logged s j) (block s)) (pinned s) t"
  let ?body = "\<lambda>tail s.
       bnd (bread E (ldev s) (log_block s tail) s) (\<lambda>to s.
       bnd (bread E (ldev s) (home_block s tail) s) (\<lambda>from s.
         let s = set_data to (bdata (bufs s ! from)) s
         in seq (bwrite to s) (\<lambda>s. seq (brelse from s) (brelse to))))"
  have geo: "geometry s" using ok by (simp add: log_ok_def)
  have step: "more_blocks j t \<and> (\<exists>u. ?body j t = Ok () u \<and> ?Inv (Suc j) u)" if j: "j < nlog s" and t: "?Inv j t" for j t
  proof -
    note d = log_okD [OF ok j] and f = afterD [OF t]
    note g = geometry_blocks [OF geo d(3)] and c = log_defs_cong [OF f(1)]
    have bt: "buffers p pd {} t" "block t = apply_writes (logged s j) (block s)" "pinned t = pinned s"
      using t by (simp_all add: after_def)
    have "fst ` set (logged s j) \<subseteq> log_area s"
      using j d(3) by (auto simp: logged_def intro!: geometry_blocks(3) [OF geo])
    then have home: "block t (home_block s j) = block s (home_block s j)"
      unfolding bt(2) using d(2) by (intro apply_writes_other) blast
    have np: "log_block s j \<notin> pinned s" using ok g(3) by (auto simp: pin log_ok_def)
    have ne: "log_block s j \<noteq> home_block s j" using d(2) g(3) by auto
    have lt: "log_block s j < disksize t" "home_block s j < disksize t" using d(1) g(1) f(2) by simp_all
    have rm: "card (pinned t) < NBUF" "home_block s j \<in> pinned t \<or> card (pinned t) + 1 < NBUF"
      using homes_card(1) [OF ok] d(4) by (simp_all add: bt(3) pin)
    have args: "ldev v = 1 \<and> home_block v j = home_block s j" if "above v = above t" for v
      using above_fields(14) [OF that] geo by (simp add: f(1) geometry_def home_block_def)
    obtain u where u: "?body j t = Ok () u"
      "after p pd t [(log_block s j, block t (home_block s j))] ((block t)(log_block s j := block t (home_block s j)))
         (pinned t - {log_block s j}) u"
      using copy_after(2) [where dv = "\<lambda>v. ldev v" and hv = "\<lambda>v. home_block v j" and E = E, OF bt(1) ne lt rm args]
        args [OF refl] by (auto simp: c Let_def)
    have "?Inv (Suc j) u"
      using after_trans [OF t u(2)] np by (simp add: logged_Suc bt(2,3) home [unfolded bt(2)])
    then show ?thesis using u(1) j by (simp add: f(1))
  qed
  have stop: "\<not> more_blocks (nlog s) t" if "?Inv (nlog s) t" for t
    using afterD(1) [OF that] by simp
  have init: "?Inv 0 s" using after_refl [OF bf] by (simp add: logged_def)
  have "\<exists>t. for_while more_blocks ?body 0 s = Ok () t \<and> ?Inv (nlog s) t"
    by (rule for_while_inv [where Inv = ?Inv]) (rule step, assumption+, rule stop, assumption, rule init, simp)
  then obtain t where "for_while more_blocks ?body 0 s = Ok () t" "?Inv (nlog s) t" by blast
  then show ?thesis using that by (simp add: write_log_def)
qed


lemma install_after:
  assumes bf: "buffers p pd {} s" and ok: "log_ok s" and pin: "pinned s = set (homes s) \<or> pinned s = {}"
  obtains t where "install_trans E s = Ok () t"
    "after p pd s (installed s (nlog s)) (apply_writes (installed s (nlog s)) (block s)) {} t"
proof -
  let ?P = "\<lambda>j. pinned s - home_block s ` {..<j}"
  let ?Inv = "\<lambda>j t. after p pd s (installed s j) (apply_writes (installed s j) (block s)) (?P j) t"
  let ?body = "\<lambda>tail s.
       bnd (bread E (ldev s) (log_block s tail) s) (\<lambda>lbuf s.
       bnd (bread E (ldev s) (home_block s tail) s) (\<lambda>dbuf s.
         let s = set_data dbuf (bdata (bufs s ! lbuf)) s
         in seq (bwrite dbuf s) (\<lambda>s. seq (brelse lbuf s) (brelse dbuf))))"
  have geo: "geometry s" using ok by (simp add: log_ok_def)
  have dist: "home_block s i \<noteq> home_block s j" if "i < j" "j < nlog s" for i j
    using ok that by (auto simp: log_ok_def homes_def distinct_conv_nth)
  have step: "more_blocks j t \<and> (\<exists>u. ?body j t = Ok () u \<and> ?Inv (Suc j) u)" if j: "j < nlog s" and t: "?Inv j t" for j t
  proof -
    note d = log_okD [OF ok j] and f = afterD [OF t]
    note g = geometry_blocks [OF geo d(3)] and c = log_defs_cong [OF f(1)]
    have bt: "buffers p pd {} t" "block t = apply_writes (installed s j) (block s)" "pinned t = ?P j"
      using t by (simp_all add: after_def)
    have "log_block s j \<notin> fst ` set (installed s j)"
      using j g(3) log_okD(2) [OF ok] by (auto simp: installed_def)
    then have logb: "block t (log_block s j) = block s (log_block s j)"
      unfolding bt(2) by (rule apply_writes_other)
    have ne: "log_block s j \<noteq> home_block s j" using d(2) g(3) by auto
    have lt: "log_block s j < disksize t" "home_block s j < disksize t" using d(1) g(1) f(2) by simp_all
    have fin: "finite (pinned s)" using pin by auto
    have rm: "card (pinned t) < NBUF"
      using homes_card(1) [OF ok pin] card_mono [OF fin, of "?P j"] by (simp add: bt(3))
    have "home_block s j \<notin> home_block s ` {..<j}" using dist [OF _ j] by fastforce
    then have "home_block s j \<in> pinned t \<or> pinned t = {}"
      using pin d(4) unfolding bt(3) by blast
    then have rm2: "home_block s j \<in> pinned t \<or> card (pinned t) + 1 < NBUF" by auto
    have args: "ldev v = 1 \<and> home_block v j = home_block s j" if "above v = above t" for v
      using above_fields(14) [OF that] geo by (simp add: f(1) geometry_def home_block_def)
    obtain u where u: "?body j t = Ok () u"
      "after p pd t [(home_block s j, block t (log_block s j))] ((block t)(home_block s j := block t (log_block s j)))
         (pinned t - {home_block s j}) u"
      using copy_after(1) [where dv = "\<lambda>v. ldev v" and hv = "\<lambda>v. home_block v j" and E = E, OF bt(1) ne lt rm rm2 args]
        args [OF refl] by (auto simp: c Let_def)
    have "?P j - {home_block s j} = ?P (Suc j)" by (auto simp: less_Suc_eq)
    then have "?Inv (Suc j) u"
      using after_trans [OF t u(2)] by (simp add: installed_Suc bt(2,3) logb [unfolded bt(2)])
    then show ?thesis using u(1) j by (simp add: f(1))
  qed
  have stop: "\<not> more_blocks (nlog s) t" if "?Inv (nlog s) t" for t
    using afterD(1) [OF that] by simp
  have init: "?Inv 0 s" using after_refl [OF bf] by (simp add: installed_def)
  have "\<exists>t. for_while more_blocks ?body 0 s = Ok () t \<and> ?Inv (nlog s) t"
    by (rule for_while_inv [where Inv = ?Inv]) (rule step, assumption+, rule stop, assumption, rule init, simp)
  then obtain t where t: "for_while more_blocks ?body 0 s = Ok () t" "?Inv (nlog s) t" by blast
  have e: "?P (nlog s) = {}" using pin by (auto simp: homes_def)
  show ?thesis by (rule that [of t]) (use t [unfolded e] in \<open>simp_all add: install_trans_def\<close>)
qed

lemma write_head_after:
  assumes bf: "buffers p pd {} s" and geo: "geometry s" and n: "0 \<le> lh_n (lh (klog s))" "lh_n (lh (klog s)) \<le> LOGSIZE"
    and room: "card (pinned s) < NBUF" and np: "log_head s \<notin> pinned s"
  defines "d \<equiv> put_head (lh (klog s)) (block s (log_head s))"
  obtains t where "write_head E s = Ok () t"
    "after p pd s [(log_head s, d)] ((block s)(log_head s := d)) (pinned s) t"
proof -
  have len: "length (block s (log_head s)) = BSIZE" using bf by (intro length_block [of "{}"]) (simp add: buffers_def)
  have hd: "ldev s = 1" "word_of_int (log_start (klog s)) = log_head s"
    using geo by (simp_all add: geometry_def log_head_def)
  have dl: "length d = BSIZE" unfolding d_def by (rule put_head_get(1) [OF n len])
  have F: "put_head (lh (klog u)) (bdata (bufs u ! b)) = d"
    if "above u = above s" "bdata (bufs u ! b) = block s (log_head s)" for b u
    using above_fields(14) [OF that(1)] that(2) by (simp add: d_def)
  obtain t where "bnd (bread E 1 (log_head s) s) (\<lambda>b s. seq (bwrite b (set_data b
      (put_head (lh (klog s)) (bdata (bufs s ! b))) s)) (brelse b)) = Ok () t"
    "buffers p pd {} t" "block t = (block s)(log_head s := d)" "pinned t = pinned s - {log_head s}"
    "above t = above (s\<lparr>disk := (disk s)(log_head s := d), dwrites := dwrites s @ [(log_head s, d)]\<rparr>)"
    by (rule modify_block_spec [OF bf geometry_head [OF geo] room dl F])
  then show ?thesis
    using that np hd by (simp add: write_head_def Let_def after_def wr_def)
qed


section \<open>Commit\<close>

lemma klog_upd [simp]:
  "buffers p pd H (upd_klog f s) = buffers p pd H s" "block (upd_klog f s) = block s" "pinned (upd_klog f s) = pinned s"
  "bufs (upd_klog f s) = bufs s" "disk (upd_klog f s) = disk s" "disksize (upd_klog f s) = disksize s"
  "dwrites (upd_klog f s) = dwrites s" "klog (upd_klog f s) = f (klog s)"
  by (auto simp: upd_klog_def buffers_def quiet_def lock_free_def bcache_ok_def links_ok_def buf_ok_def buf_held_def
      buf_free_def block_def pinned_def cached_def fun_eq_iff cong: option.case_cong)

lemma above_upd_klog: "above (upd_klog f s) = upd_klog f (above s)"
  by (simp add: above_def core_def upd_klog_def cong: sleepid.case_cong)

lemma after_klog:
  assumes "after p pd s W c P t"
  shows "after p pd (upd_klog f s) W c P (upd_klog f t)"
proof -
  have "above (upd_klog f t) = upd_klog f (above (wr W s))"
    using assms by (simp add: after_def above_upd_klog)
  also have "\<dots> = above (wr W (upd_klog f s))"
    by (simp flip: above_upd_klog)
  finally show ?thesis using assms by (simp add: after_def)
qed

text \<open>The block writes of a commit, in order.\<close>

definition head_data :: "kst \<Rightarrow> u8 list" where
  "head_data s = put_head (lh (klog s)) (disk s (log_head s))"

definition commit_writes :: "kst \<Rightarrow> (u32 \<times> u8 list) list" where
  "commit_writes s =
     logged s (nlog s) @ [(log_head s, head_data s)] @
     map (\<lambda>x. (x, block s x)) (homes s) @
     [(log_head s, put_head ((lh (klog s))\<lparr>lh_n := 0\<rparr>) (head_data s))]"

lemma logged_outside:
  assumes "log_ok s" "j \<le> nlog s"
  shows "fst ` set (logged s j) \<subseteq> log_area s" "log_head s \<notin> fst ` set (logged s j)"
    "\<And>i D. i < j \<Longrightarrow> apply_writes (logged s j) D (log_block s i) = block s (home_block s i)"
proof -
  have geo: "geometry s" using assms(1) by (simp add: log_ok_def)
  have lt: "int i + 1 < log_size (klog s)" if "i < j" for i
    using log_okD(3) [OF assms(1), of i] that assms(2) by simp
  show "fst ` set (logged s j) \<subseteq> log_area s" "log_head s \<notin> fst ` set (logged s j)"
    using geometry_blocks(2,3) [OF geo lt] by (fastforce simp: logged_def)+
  show "apply_writes (logged s j) D (log_block s i) = block s (home_block s i)" if "i < j" for i D
    using that assms(2)
  proof (induction j)
    case (Suc j)
    have l: "int i + 1 < log_size (klog s)" "int j + 1 < log_size (klog s)"
      using log_okD(3) [OF assms(1), of i] log_okD(3) [OF assms(1), of j] Suc.prems by simp_all
    show ?case using Suc geometry_blocks(4) [OF geo l] by (cases "i = j") (simp_all add: logged_Suc)
  qed simp
qed

lemma commit_spec:
  assumes bf: "buffers p pd {} s" and ok: "log_ok s" and pin: "pinned s = set (homes s)" and n: "0 < lh_n (lh (klog s))"
  obtains t c where "commit E s = Ok () t" "after p pd (set_lh_n 0 s) (commit_writes s) c {} t"
proof -
  have geo: "geometry s" using ok by (simp add: log_ok_def)
  have n30: "lh_n (lh (klog s)) \<le> LOGSIZE" using ok by (simp add: log_ok_def geometry_def)
  have hn: "log_head s \<notin> pinned s" using ok by (auto simp: pin log_ok_def log_area_def)
  have bh: "block s (log_head s) = disk s (log_head s)"
    using bf hn by (intro block_disk) (simp_all add: buffers_def)
  have crd: "card (pinned s) < NBUF" using homes_card(1) [OF ok] by (simp add: pin)
  obtain t1 where t1: "write_log E s = Ok () t1"
    "after p pd s (logged s (nlog s)) (apply_writes (logged s (nlog s)) (block s)) (pinned s) t1"
    by (rule write_log_after [OF bf ok pin])
  note f1 = afterD [OF t1(2)] and o1 = logged_outside [OF ok order_refl]
  note c1 = log_defs_cong [OF f1(1)]
  have b1: "buffers p pd {} t1" "block t1 = apply_writes (logged s (nlog s)) (block s)" "pinned t1 = pinned s"
    using t1(2) by (simp_all add: after_def)
  have bh1: "block t1 (log_head s) = disk s (log_head s)"
    using apply_writes_other [OF o1(2), of "block s"] by (simp add: b1(2) bh)
  have g1: "geometry t1" using geo f1 by (simp add: geometry_def)
  obtain t2 where t2: "write_head E t1 = Ok () t2"
    "after p pd t1 [(log_head s, head_data s)] ((block t1)(log_head s := head_data s)) (pinned s) t2"
    using write_head_after [OF b1(1) g1, of E thesis] n n30 crd hn
    by (simp add: f1(1) c1 b1(3) bh1 head_data_def)
  note f2 = afterD [OF t2(2)]
  have k2: "klog t2 = klog s" using f1(1) f2(1) by simp
  note c2 = log_defs_cong [OF k2]
  have b2: "buffers p pd {} t2" "block t2 = (block t1)(log_head s := head_data s)" "pinned t2 = pinned s"
    using t2(2) by (simp_all add: after_def)
  have ok2: "log_ok t2" using ok by (simp add: log_ok_cong [OF k2] f1 f2)
  obtain t3 where t3: "install_trans E t2 = Ok () t3"
    "after p pd t2 (installed t2 (nlog t2)) (apply_writes (installed t2 (nlog t2)) (block t2)) {} t3"
    using install_after [OF b2(1) ok2, of E thesis] pin by (auto simp: b2(3) c2)
  have "block t2 (log_block s i) = block s (home_block s i)" if "i < nlog s" for i
    using o1(3) [OF that, of "block s"] geometry_blocks(2) [OF geo log_okD(3) [OF ok that]] by (simp add: b2(2) b1(2))
  then have ins: "installed t2 (nlog t2) = map (\<lambda>x. (x, block s x)) (homes s)"
    by (simp add: installed_def c2 k2 homes_def)
  note f3 = afterD [OF t3(2)]
  have b3: "buffers p pd {} t3" "pinned t3 = {}" "block t3 = apply_writes (map (\<lambda>x. (x, block s x)) (homes s)) (block t2)"
    using t3(2) by (simp_all add: after_def ins)
  have k3: "klog t3 = klog s" using f3(1) k2 by simp
  have "log_head s \<notin> fst ` set (map (\<lambda>x. (x, block s x)) (homes s))" using hn by (auto simp: pin)
  then have bh3: "block t3 (log_head s) = head_data s"
    using apply_writes_other by (simp add: b3(3) b2(2))
  let ?t = "set_lh_n 0 t3"
  have kt: "lh (klog ?t) = (lh (klog s))\<lparr>lh_n := 0\<rparr>" "log_head ?t = log_head s"
    by (simp_all add: set_lh_n_def k3 log_head_def)
  have gt: "geometry ?t" using geo f1(2) f2(2) f3(2) by (simp add: geometry_def set_lh_n_def k3)
  have bt: "buffers p pd {} ?t" "block ?t (log_head s) = head_data s" "pinned ?t = {}"
    using b3 bh3 by (simp_all add: set_lh_n_def)
  obtain t4 where t4: "write_head E ?t = Ok () t4"
    "after p pd ?t [(log_head s, put_head ((lh (klog s))\<lparr>lh_n := 0\<rparr>) (head_data s))]
       ((block ?t)(log_head s := put_head ((lh (klog s))\<lparr>lh_n := 0\<rparr>) (head_data s))) {} t4"
    using write_head_after [OF bt(1) gt, of E thesis] by (simp add: kt bt(2,3))
  have "after p pd s (logged s (nlog s) @ [(log_head s, head_data s)] @ map (\<lambda>x. (x, block s x)) (homes s)) (block t3) {} t3"
    using after_trans [OF t1(2) after_trans [OF t2(2) t3(2)]] by (simp add: ins b3(3))
  from after_trans [OF after_klog [OF this] t4(2) [unfolded set_lh_n_def]]
  have "after p pd (set_lh_n 0 s) (commit_writes s)
     ((block ?t)(log_head s := put_head ((lh (klog s))\<lparr>lh_n := 0\<rparr>) (head_data s))) {} t4"
    by (simp add: commit_writes_def set_lh_n_def)
  moreover have "commit E s = Ok () t4" using n t1(1) t2(1) t3(1) t4(1) by (simp add: commit_def)
  ultimately show ?thesis using that by blast
qed


section \<open>Recovery\<close>

definition load_head :: "u8 list \<Rightarrow> logrec \<Rightarrow> logrec" where
  "load_head d l = l\<lparr>lh := \<lparr>lh_n = get_head_n d,
     lh_block = fold (\<lambda>i bs. bs[i := get_head_block d i]) [0..<nat (get_head_n d)] (lh_block (lh l))\<rparr>\<rparr>"

lemma read_head_after:
  assumes bf: "buffers p pd {} s" and geo: "geometry s" and np: "pinned s = {}"
    and n: "get_head_n (disk s (log_head s)) \<le> LOGSIZE"
  obtains t where "read_head E s = Ok () t"
    "after p pd (upd_klog (load_head (disk s (log_head s))) s) [] (block s) {} t"
proof -
  have ok: "bcache_ok {} s" using bf by (simp add: buffers_def)
  have bd: "block s (log_head s) = disk s (log_head s)" by (rule block_disk [OF ok]) (simp add: np)
  let ?d = "disk s (log_head s)"
  have "room {} s" by (rule room_if [OF ok]) (simp add: np)
  then obtain b u where u: "bread E 1 (log_head s) s = Ok b u" "buffers p pd {b} u" "at u b (log_head s)"
    "block u = block s" "pinned u = pinned s" "above u = above s" "bdata (bufs u ! b) = ?d"
    using bread_spec [OF bf geometry_head [OF geo], of E thesis] by (auto simp: bd)
  let ?v = "upd_klog (load_head ?d) u"
  have "bdata (bufs ?v ! b) = disk ?v (log_head s)" using u(7) above_fields(16) [OF u(6)] by simp
  then obtain t where t: "brelse b ?v = Ok () t" "buffers p pd ({b} - {b}) t" "block t = block ?v" "pinned t = pinned ?v"
    "above t = above ?v"
    using brelse_spec [of p pd "{b}" ?v b "log_head s" thesis] u(2,3) by auto
  have "upd_klog (\<lambda>l. l\<lparr>lh := (lh l)\<lparr>lh_block :=
      fold (\<lambda>i bs. bs[i := get_head_block ?d i]) [0..<nat (get_head_n ?d)] (lh_block (lh l))\<rparr>\<rparr>) (set_lh_n (get_head_n ?d) u) = ?v"
    by (simp add: upd_klog_def set_lh_n_def load_head_def)
  then have "read_head E s = Ok () t"
    using n u(1,7) t(1) geo by (simp add: read_head_def geometry_def log_head_def Let_def)
  moreover have "above t = above (upd_klog (load_head ?d) s)"
    using t(5) u(6) by (simp add: above_upd_klog)
  ultimately show ?thesis using that t(2-4) u(4,5) np by (simp add: after_def)
qed

lemma recover_spec:
  assumes bf: "buffers p pd {} s" and np: "pinned s = {}" and d: "d = disk s (log_head s)"
    and ok: "log_ok (upd_klog (load_head d) s)"
  defines "s' \<equiv> upd_klog (load_head d) s"
  obtains t c where "recover_from_log E s = Ok () t"
    "after p pd (set_lh_n 0 s') (installed s' (nlog s') @ [(log_head s, put_head ((lh (klog s'))\<lparr>lh_n := 0\<rparr>) d)]) c {} t"
proof -
  have geo: "geometry s" and lt: "get_head_n d \<le> LOGSIZE"
    using ok by (auto simp: log_ok_def geometry_def load_head_def fold_upd_length)
  have h': "log_head s' = log_head s" by (simp add: s'_def log_head_def load_head_def)
  obtain t1 where t1: "read_head E s = Ok () t1" "after p pd s' [] (block s) {} t1"
    using read_head_after [OF bf geo np] lt unfolding s'_def d by blast
  note f1 = afterD [OF t1(2)]
  have b1: "buffers p pd {} t1" "block t1 = block s" "pinned t1 = {}" using t1(2) by (simp_all add: after_def)
  have ok1: "log_ok t1" using ok by (simp add: log_ok_cong [OF f1(1,2)] s'_def)
  note c1 = log_defs_cong [OF f1(1)]
  obtain t2 where t2: "install_trans E t1 = Ok () t2"
    "after p pd t1 (installed t1 (nlog t1)) (apply_writes (installed t1 (nlog t1)) (block t1)) {} t2"
    using install_after [OF b1(1) ok1, of E thesis] b1(3) by blast
  have ins: "installed t1 (nlog t1) = installed s' (nlog s')"
    by (simp add: installed_def c1 f1(1) b1(2)) (simp add: s'_def)
  note f2 = afterD [OF t2(2)]
  have b2: "buffers p pd {} t2" "pinned t2 = {}" "block t2 = apply_writes (installed s' (nlog s')) (block s)"
    using t2(2) by (simp_all add: after_def ins b1(2))
  have "log_head s \<notin> fst ` set (installed s' (nlog s'))"
    using log_okD(5) [OF ok [folded s'_def]] by (fastforce simp: installed_def h')
  moreover have "block s (log_head s) = d" using bf np by (subst block_disk) (simp_all add: buffers_def d)
  ultimately have bh: "block t2 (log_head s) = d" by (simp add: b2(3) apply_writes_other)
  let ?t = "set_lh_n 0 t2"
  have kt: "lh (klog ?t) = (lh (klog s'))\<lparr>lh_n := 0\<rparr>" "log_head ?t = log_head s"
    using f1(1) f2(1) h' by (simp_all add: set_lh_n_def log_head_def)
  have gt: "geometry ?t" using ok1 f2 by (simp add: log_ok_def geometry_def set_lh_n_def)
  have bt: "buffers p pd {} ?t" "block ?t (log_head s) = d" "pinned ?t = {}" using b2 bh by (simp_all add: set_lh_n_def)
  obtain t3 where t3: "write_head E ?t = Ok () t3"
    "after p pd ?t [(log_head s, put_head ((lh (klog s'))\<lparr>lh_n := 0\<rparr>) d)]
       ((block ?t)(log_head s := put_head ((lh (klog s'))\<lparr>lh_n := 0\<rparr>) d)) {} t3"
    using write_head_after [OF bt(1) gt, of E thesis] by (simp add: kt bt(2,3))
  have "after p pd s' (installed s' (nlog s')) (block t2) {} t2"
    using after_trans [OF t1(2) t2(2)] by (simp add: ins b2(3) b1(2))
  from after_trans [OF after_klog [OF this] t3(2) [unfolded set_lh_n_def]]
  show ?thesis using that t1(1) t2(1) t3(1) by (simp add: recover_from_log_def set_lh_n_def)
qed


section \<open>Recording a block\<close>

lemma homes_nth: "homes s = map (\<lambda>i. word_of_int (lh_block (lh (klog s)) ! i)) [0..<nlog s]"
  by (simp add: homes_def home_block_def fun_eq_iff)

lemma homes_take: "nlog s \<le> length (lh_block (lh (klog s))) \<Longrightarrow> homes s = map word_of_int (take (nlog s) (lh_block (lh (klog s))))"
  by (intro nth_equalityI) (simp_all add: homes_nth)

text \<open>Absorption: a block already in the transaction is not recorded twice.\<close>

lemma record_block_homes:
  assumes n: "0 \<le> lh_n (lh (klog s))" "nlog s < length (lh_block (lh (klog s)))"
  shows "homes (upd_klog (record_block b) s) = (if b \<in> set (homes s) then homes s else homes s @ [b])"
    "lh_n (lh (record_block b (klog s))) = lh_n (lh (klog s)) + (if b \<in> set (homes s) then 0 else 1)"
    "length (lh_block (lh (record_block b (klog s)))) = length (lh_block (lh (klog s)))"
proof -
  let ?bs = "lh_block (lh (klog s))" and ?P = "\<lambda>x. word_of_int x = b"
  have mem: "b \<in> set (homes s) \<longleftrightarrow> (\<exists>x\<in>set (take (nlog s) ?bs). ?P x)"
    using homes_take [of s] n(2) by auto
  consider (found) i where "find_idx ?P (take (nlog s) ?bs) = Some i" | (new) "find_idx ?P (take (nlog s) ?bs) = None"
    by fastforce
  then have "homes (upd_klog (record_block b) s) = (if b \<in> set (homes s) then homes s else homes s @ [b]) \<and>
    lh_n (lh (record_block b (klog s))) = lh_n (lh (klog s)) + (if b \<in> set (homes s) then 0 else 1)"
  proof cases
    case found
    have i: "i < nlog s" "word_of_int (?bs ! i) = b"
      using find_idx_bound [OF found] find_idx_holds [OF found] by simp_all
    then have "b \<in> set (homes s)" by (auto simp: homes_nth)
    moreover have "int i \<noteq> lh_n (lh (klog s))" using i(1) by linarith
    ultimately show ?thesis
      using i n(2) by (auto simp: record_block_def found Let_def homes_nth nth_upd intro!: map_cong)
  next
    case new
    then have "b \<notin> set (homes s)" unfolding mem by simp
    moreover have "nat (1 + lh_n (lh (klog s))) = Suc (nlog s)" using n(1) by simp
    ultimately show ?thesis
      using n by (simp add: record_block_def new Let_def homes_nth add.commute nth_upd)
  qed
  then show "homes (upd_klog (record_block b) s) = (if b \<in> set (homes s) then homes s else homes s @ [b])"
    "lh_n (lh (record_block b (klog s))) = lh_n (lh (klog s)) + (if b \<in> set (homes s) then 0 else 1)"
    by blast+
  show "length (lh_block (lh (record_block b (klog s)))) = length ?bs"
    by (simp add: record_block_def Let_def)
qed

lemma log_write_spec:
  assumes bf: "buffers p pd H s" and b: "b \<in> H" "at s b n"
    and l: "lh_n (lh (klog s)) < LOGSIZE" "lh_n (lh (klog s)) < log_size (klog s) - 1" "1 \<le> outstanding (klog s)"
  obtains t where "log_write b s = Ok () t" "buffers p pd H t" "block t = block s" "pinned t = insert n (pinned s)"
    "above t = above (upd_klog (record_block n) s)" "bufs t ! b = (bufs s ! b)\<lparr>bflags := 6\<rparr>"
    "\<And>i. i \<noteq> b \<Longrightarrow> bufs t ! i = bufs s ! i"
proof -
  have q: "quiet p pd s" using bf by (simp add: buffers_def)
  let ?pin = "upd_buf b (\<lambda>b. b\<lparr>bflags := bflags b OR B_DIRTY\<rparr>)"
  let ?u = "?pin (upd_klog (record_block n) (enter L_log s))" and ?v = "?pin (upd_klog (record_block n) s)"
  have "release L_log ?u = Ok () (leave L_log ?u)" and qu: "quiet p pd (leave L_log ?u)"
    by (rule quiet_leave [OF q]; simp add: upd_klog_def)+
  then have run: "log_write b s = Ok () (leave L_log ?u)"
    using l b(2) by (simp add: log_write_def quiet_acquire [OF q] Let_def)
  have bv: "buffers p pd H (upd_klog (record_block n) s)" "at (upd_klog (record_block n) s) b n" using bf b by simp_all
  note v = pin_spec [OF bv(1) b(1) bv(2) refl]
  have c: "core (leave L_log ?u) = core ?v"
    by (simp add: core_upd_buf upd_klog_def core_upd core_sel)
  have ok: "bcache_ok H ?v" using v(1) by (simp add: buffers_def)
  show ?thesis
    using that [OF run buffers_core [OF c qu ok]] v(2-)
    by (simp add: bcache_core [OF c] above_core [OF c] core_fields(15) [OF c])
qed

text \<open>The typical use of the log: read a block, change its data, record it, release it.\<close>

definition txn_write :: "env \<Rightarrow> u32 \<Rightarrow> u8 list \<Rightarrow> kst \<Rightarrow> unit kres" where
  "txn_write E n d s =
     bnd (bread E 1 n s) (\<lambda>b s. seq (log_write b (set_data b d s)) (brelse b))"

lemma log_modify_spec:
  assumes bf: "buffers p pd {} s" and n: "n < disksize s" "n \<in> pinned s \<or> card (pinned s) < NBUF" "length d = BSIZE"
    and l: "lh_n (lh (klog s)) < LOGSIZE" "lh_n (lh (klog s)) < log_size (klog s) - 1" "1 \<le> outstanding (klog s)"
    and F: "\<And>b u. above u = above s \<Longrightarrow> bdata (bufs u ! b) = block s n \<Longrightarrow> F b u = d"
  obtains t where "bnd (bread E 1 n s) (\<lambda>b s. seq (log_write b (set_data b (F b s) s)) (brelse b)) = Ok () t"
    "buffers p pd {} t" "block t = (block s)(n := d)" "pinned t = insert n (pinned s)"
    "above t = above (upd_klog (record_block n) s)"
proof -
  have "n \<in> pinned s \<or> room {} s" using bf n(2) room_if [of "{}" s] by (auto simp: buffers_def)
  then obtain b u where u: "bread E 1 n s = Ok b u" "buffers p pd {b} u" "at u b n"
    "block u = block s" "pinned u = pinned s" "above u = above s" "bdata (bufs u ! b) = block s n"
    using bread_spec [OF bf n(1), of E thesis] by auto
  note v = set_data_spec [OF u(2) insertI1 u(3) n(3)]
  let ?v = "set_data b d u"
  have k: "klog ?v = klog s" using above_fields(14) [OF u(6)] by (simp add: set_data_def upd_buf_def)
  have "at ?v b n" using v(5) u(3) by simp
  then obtain w where w: "log_write b ?v = Ok () w" "buffers p pd {b} w" "block w = block ?v" "pinned w = insert n (pinned ?v)"
    "above w = above (upd_klog (record_block n) ?v)" "bufs w ! b = (bufs ?v ! b)\<lparr>bflags := 6\<rparr>"
    using log_write_spec [OF v(1) insertI1, of n thesis] l k by auto
  have "at w b n" "n \<in> pinned w" using w(4,6) v(5) u(3) by simp_all
  then obtain t where "brelse b w = Ok () t" "buffers p pd ({b} - {b}) t" "block t = block w" "pinned t = pinned w"
    "above t = above w"
    using brelse_spec [OF w(2) insertI1, of n thesis] by blast
  moreover have "above w = above (upd_klog (record_block n) s)" using w(5) v(4) u(6) by (simp add: above_upd_klog)
  ultimately show ?thesis using that w(1,3,4) v(2,3) u(1,4,5) F [OF u(6,7)] by simp
qed

lemma txn_write_spec:
  assumes "buffers p pd {} s" and "n < disksize s" "n \<in> pinned s \<or> card (pinned s) < NBUF" "length d = BSIZE"
    and "lh_n (lh (klog s)) < LOGSIZE" "lh_n (lh (klog s)) < log_size (klog s) - 1" "1 \<le> outstanding (klog s)"
  obtains t where "txn_write E n d s = Ok () t" "buffers p pd {} t" "block t = (block s)(n := d)"
    "pinned t = insert n (pinned s)" "above t = above (upd_klog (record_block n) s)"
proof -
  obtain t where "bnd (bread E 1 n s) (\<lambda>b s. seq (log_write b (set_data b d s)) (brelse b)) = Ok () t" "buffers p pd {} t"
    "block t = (block s)(n := d)" "pinned t = insert n (pinned s)" "above t = above (upd_klog (record_block n) s)"
    by (rule log_modify_spec [OF assms refl])
  then show ?thesis using that by (simp add: txn_write_def)
qed

section \<open>Crash atomicity\<close>

lemma apply_map_writes:
  "apply_writes (map (\<lambda>x. (x, c x)) xs) D y = (if y \<in> set xs then c y else D y)"
  by (induction xs arbitrary: D) auto

lemma commit_writes_disk:
  assumes bf: "buffers p pd {} s" and ok: "log_ok s" and pin: "pinned s = set (homes s)" and x: "x \<notin> log_area s"
  shows "apply_writes (commit_writes s) (disk s) x = block s x"
proof -
  have "x \<notin> fst ` set (logged s (nlog s))" using logged_outside(1) [OF ok order_refl] x by blast
  from apply_writes_other [OF this] have "apply_writes (logged s (nlog s)) (disk s) x = disk s x" .
  moreover have "x \<noteq> log_head s" using x by (auto simp: log_area_def)
  moreover have "block s x = disk s x" if "x \<notin> set (homes s)"
    using bf pin that by (intro block_disk) (simp_all add: buffers_def)
  ultimately show ?thesis by (simp add: commit_writes_def apply_map_writes)
qed

text \<open>A boot after a crash: a fresh cache, the same log geometry, whatever is on the disk.\<close>

definition rebooted :: "nat \<Rightarrow> int \<Rightarrow> kst \<Rightarrow> (u32 \<Rightarrow> u8 list) \<Rightarrow> kst \<Rightarrow> bool" where
  "rebooted p pd s D r \<longleftrightarrow> buffers p pd {} r \<and> pinned r = {} \<and> disk r = D \<and> disksize r = disksize s \<and>
     log_start (klog r) = log_start (klog s) \<and> log_size (klog r) = log_size (klog s) \<and> log_dev (klog r) = 1 \<and>
     length (lh_block (lh (klog r))) = nat LOGSIZE"

lemma rebooted_log:
  assumes r: "rebooted p pd s D r" and ok: "log_ok s" and d: "d = D (log_head s)"
    and len: "0 \<le> get_head_n d" "get_head_n d = lh_n (lh (klog s)) \<or> get_head_n d = 0"
    and hb: "\<And>i. int i < get_head_n d \<Longrightarrow> word_of_int (get_head_block d i) = home_block s i"
  defines "r' \<equiv> upd_klog (load_head d) r"
  shows "log_ok r'" "log_head r = log_head s" "log_block r' = log_block s" "nlog r' = nat (get_head_n d)"
    "\<And>i. i < nlog r' \<Longrightarrow> home_block r' i = home_block s i"
proof -
  show n: "nlog r' = nat (get_head_n d)" by (simp add: r'_def load_head_def)
  show "log_head r = log_head s" "log_block r' = log_block s"
    using r by (simp_all add: rebooted_def log_head_def log_block_def r'_def load_head_def fun_eq_iff)
  have le: "nat (get_head_n d) \<le> length (lh_block (lh (klog r)))"
    using r ok len(2) by (auto simp: rebooted_def log_ok_def geometry_def)
  show h: "home_block r' i = home_block s i" if "i < nlog r'" for i
    using that hb [of i] fold_upd_nth(2) [OF le, of i "get_head_block d"] n
    by (simp add: home_block_def r'_def load_head_def)
  have "homes r' = take (nlog r') (homes s)"
    using len(2) h unfolding n by (intro nth_equalityI) (auto simp: homes_def n)
  moreover have "log_area r' = log_area s"
    using r by (simp add: log_area_def log_head_def log_block_def rebooted_def r'_def load_head_def)
  moreover have "geometry r'"
    using r ok by (simp add: rebooted_def geometry_def log_ok_def r'_def load_head_def)
  ultimately show "log_ok r'"
    using ok len r n by (auto simp: log_ok_def rebooted_def r'_def load_head_def dest: in_set_takeD)
qed


lemma apply_take_other:
  assumes "x \<notin> fst ` set W"
  shows "apply_writes (take k W) D x = D x"
  using assms set_take_subset [of k W] by (intro apply_writes_other) blast

lemma take_split3:
  assumes "length A = a" "k \<le> length (A @ [x] @ B @ [y])"
  shows "k \<le> a \<and> take k (A @ [x] @ B @ [y]) = take k A \<or>
    a < k \<and> take k (A @ [x] @ B @ [y]) = A @ [x] @ take (k - a - 1) B \<or>
    a < k \<and> take k (A @ [x] @ B @ [y]) = A @ [x] @ B @ [y]"
proof (cases "k \<le> a")
  case False
  then obtain j where j: "k = a + Suc j" by (metis add_Suc_right less_imp_Suc_add not_le)
  then have "take k (A @ [x] @ B @ [y]) = A @ [x] @ take j (B @ [y])" using assms(1) by simp
  then show ?thesis using j assms by (cases "j \<le> length B") auto
qed (use assms in simp)

text \<open>What recovery does to the disk a crash left, before and after the commit point.\<close>

lemma recover_crash:
  assumes ok: "log_ok s" and r: "rebooted p pd s D r" and d: "d = D (log_head s)" "length d = BSIZE"
    and len: "0 \<le> get_head_n d" "get_head_n d = lh_n (lh (klog s)) \<or> get_head_n d = 0"
    and hb: "\<And>i. int i < get_head_n d \<Longrightarrow> word_of_int (get_head_block d i) = home_block s i \<and> D (log_block s i) = c (home_block s i)"
  obtains t where "recover_from_log E r = Ok () t" "buffers p pd {} t" "pinned t = {}" "get_head_n (disk t (log_head s)) = 0"
    "\<And>x. x \<noteq> log_head s \<Longrightarrow> disk t x = (if get_head_n d \<noteq> 0 \<and> x \<in> set (homes s) then c x else D x)"
proof -
  let ?r = "upd_klog (load_head d) r"
  have bf: "buffers p pd {} r" "pinned r = {}" "disk r = D" using r by (simp_all add: rebooted_def)
  note g = rebooted_log [OF r ok d(1) len] and hb' = hb [THEN conjunct1] hb [THEN conjunct2]
  have dr: "d = disk r (log_head r)" using d(1) bf(3) g(2) hb'(1) by simp
  have okr: "log_ok ?r" using g(1) hb'(1) by simp
  have gb: "log_block ?r = log_block s" "nlog ?r = nat (get_head_n d)" "\<And>i. i < nlog ?r \<Longrightarrow> home_block ?r i = home_block s i"
    using g(3-5) hb'(1) by simp_all
  obtain t c' where t: "recover_from_log E r = Ok () t"
    "after p pd (set_lh_n 0 ?r) (installed ?r (nlog ?r) @ [(log_head r, put_head ((lh (klog ?r))\<lparr>lh_n := 0\<rparr>) d)]) c' {} t"
    by (rule recover_spec [OF bf(1,2) dr okr])
  have hr: "log_head r = log_head s" using g(2) hb'(1) by simp
  have "block ?r x = D x" for x
    using block_disk [of r x] bf by (simp add: buffers_def)
  then have "installed ?r (nlog ?r) = map (\<lambda>x. (x, c x)) (take (nat (get_head_n d)) (homes s))"
    using hb'(2) gb len by (auto simp: installed_def homes_def take_map intro!: map_cong)
  moreover have "disk t = apply_writes (installed ?r (nlog ?r) @ [(log_head s, put_head ((lh (klog ?r))\<lparr>lh_n := 0\<rparr>) d)]) D"
    using afterD(3) [OF t(2)] bf(3) by (simp add: hr set_lh_n_def)
  ultimately have dt: "disk t x = (if x = log_head s then put_head ((lh (klog ?r))\<lparr>lh_n := 0\<rparr>) d
      else if x \<in> set (take (nat (get_head_n d)) (homes s)) then c x else D x)" for x
    by (simp add: apply_map_writes)
  have "get_head_n (disk t (log_head s)) = 0"
    using put_head_get(2) [of "(lh (klog ?r))\<lparr>lh_n := 0\<rparr>" d] d(2) by (simp add: dt)
  moreover have "set (take (nat (get_head_n d)) (homes s)) = (if get_head_n d \<noteq> 0 then set (homes s) else {})"
    using len by (auto simp: homes_def)
  ultimately show ?thesis using that t by (auto simp: dt after_def)
qed


text \<open>C1: A commit is atomic. From a state with a transaction in the log (its blocks pinned in the
  cache, the header on disk clear), \<open>commit\<close> returns, issues exactly the writes
  \<open>commit_writes\<close> and leaves every block outside the log on disk as the cache had it. If the
  machine stops after any prefix of those writes, recovery at the next boot returns with the
  header clear and the blocks outside the log are all the old ones (crash before the header
  write) or all the new ones (after it).\<close>

theorem commit_crash_atomic:
  assumes bf: "buffers p pd {} s" and ok: "log_ok s" and pin: "pinned s = set (homes s)"
    and n: "0 < lh_n (lh (klog s))" and clear: "get_head_n (disk s (log_head s)) = 0"
    and k: "k \<le> length (commit_writes s)"
    and r: "rebooted q qd s (apply_writes (take k (commit_writes s)) (disk s)) r"
  shows "(\<exists>t. commit E s = Ok () t \<and> buffers p pd {} t \<and> pinned t = {} \<and> dwrites t = dwrites s @ commit_writes s \<and>
       (\<forall>x. x \<notin> log_area s \<longrightarrow> disk t x = block s x)) \<and>
    (\<exists>t. recover_from_log E' r = Ok () t \<and> buffers q qd {} t \<and> get_head_n (disk t (log_head s)) = 0 \<and>
       (\<forall>x. x \<notin> log_area s \<longrightarrow> disk t x = (if k \<le> nlog s then disk s x else block s x)))"
proof
  let ?A = "logged s (nlog s)" and ?B = "map (\<lambda>x. (x, block s x)) (homes s)" and ?hd = "log_head s"
  let ?new = "head_data s" and ?old = "put_head ((lh (klog s))\<lparr>lh_n := 0\<rparr>) (head_data s)"
  have geo: "geometry s" and n30: "lh_n (lh (klog s)) \<le> LOGSIZE" using ok by (auto simp: log_ok_def geometry_def)
  have cok: "bcache_ok {} s" using bf by (simp add: buffers_def)
  have h1: "length ?new = BSIZE" "get_head_n ?new = lh_n (lh (klog s))"
    "\<And>i. int i < lh_n (lh (klog s)) \<Longrightarrow> word_of_int (get_head_block ?new i) = home_block s i"
    using put_head_get [of "lh (klog s)" "disk s ?hd"] n n30 bcacheD(4) [OF cok] by (auto simp: head_data_def home_block_def)
  have h0: "length ?old = BSIZE" "get_head_n ?old = 0"
    using put_head_get(1,2) [of "(lh (klog s))\<lparr>lh_n := 0\<rparr>" ?new] h1(1) by simp_all
  note A = logged_outside [OF ok order_refl]
  have hh: "?hd \<notin> set (homes s)" and ha: "?hd \<in> log_area s" using ok by (auto simp: log_ok_def log_area_def)
  have ne: "x \<noteq> ?hd" if "x \<notin> log_area s" for x using ha that by blast
  have old: "block s x = disk s x" if "x \<notin> set (homes s)" for x using block_disk [OF cok] that pin by simp
  have Ax: "x \<notin> fst ` set ?A" if "x \<notin> log_area s" for x using A(1) that by blast
  have lens: "length ?A = nlog s" "length ?B = nlog s" by (simp_all add: logged_def homes_def)
  obtain t c where t: "commit E s = Ok () t" "after p pd (set_lh_n 0 s) (commit_writes s) c {} t"
    by (rule commit_spec [OF bf ok pin n])
  have "disk t x = block s x" if "x \<notin> log_area s" for x
    using afterD(3) [OF t(2)] commit_writes_disk [OF bf ok pin that] by (simp add: set_lh_n_def)
  then show "\<exists>t. commit E s = Ok () t \<and> buffers p pd {} t \<and> pinned t = {} \<and> dwrites t = dwrites s @ commit_writes s \<and>
       (\<forall>x. x \<notin> log_area s \<longrightarrow> disk t x = block s x)"
    using t afterD(4) [OF t(2)] by (auto simp: after_def set_lh_n_def)
  let ?D = "apply_writes (take k (commit_writes s)) (disk s)"
  consider (before) "k \<le> nlog s" "take k (commit_writes s) = take k ?A"
    | (mid) j where "\<not> k \<le> nlog s" "take k (commit_writes s) = ?A @ [(?hd, ?new)] @ take j ?B"
    | (all) "\<not> k \<le> nlog s" "take k (commit_writes s) = ?A @ [(?hd, ?new)] @ ?B @ [(?hd, ?old)]"
    using take_split3 [of ?A "nlog s" k "(?hd, ?new)" ?B "(?hd, ?old)"] lens(1) k by (auto simp: commit_writes_def)
  then show "\<exists>t. recover_from_log E' r = Ok () t \<and> buffers q qd {} t \<and> get_head_n (disk t ?hd) = 0 \<and>
       (\<forall>x. x \<notin> log_area s \<longrightarrow> disk t x = (if k \<le> nlog s then disk s x else block s x))"
  proof cases
    case before
    have D: "?D ?hd = disk s ?hd" unfolding before(2) by (rule apply_take_other [OF A(2)])
    obtain t where "recover_from_log E' r = Ok () t" "buffers q qd {} t" "get_head_n (disk t ?hd) = 0"
      "\<And>x. x \<noteq> ?hd \<Longrightarrow> disk t x = ?D x"
      by (rule recover_crash [OF ok r refl]) (use D clear bcacheD(4) [OF cok] in auto)
    then show ?thesis using before(1) apply_take_other [OF Ax] by (intro exI [of _ t]) (simp add: before(2) ne)
  next
    case mid
    have hB: "?hd \<notin> fst ` set ?B" using hh by auto
    have D: "?D ?hd = ?new" unfolding mid(2) using apply_take_other [OF hB] by simp
    have Dl: "?D (log_block s i) = block s (home_block s i)" if "int i < lh_n (lh (klog s))" for i
    proof -
      have i: "i < nlog s" using that by simp
      note g = geometry_blocks(2,3) [OF geo log_okD(3) [OF ok i]]
      have "log_block s i \<notin> fst ` set ?B" using g(2) ok by (auto simp: log_ok_def)
      then show ?thesis unfolding mid(2) using g A(3) [OF i] by (simp add: apply_take_other)
    qed
    obtain t where "recover_from_log E' r = Ok () t" "buffers q qd {} t" "get_head_n (disk t ?hd) = 0"
      "\<And>x. x \<noteq> ?hd \<Longrightarrow> disk t x = (if x \<in> set (homes s) then block s x else ?D x)"
      by (rule recover_crash [OF ok r refl, where c = "block s"]) (use D Dl h1 n in auto)
    moreover have "?D x = disk s x" if "x \<notin> log_area s" "x \<notin> set (homes s)" for x
    proof -
      have "x \<notin> fst ` set ?B" using that(2) by auto
      then show ?thesis
        unfolding mid(2) using that(1) ha apply_writes_other [OF Ax [OF that(1)]] by (auto simp: apply_take_other)
    qed
    ultimately show ?thesis using mid(1) old by (intro exI [of _ t]) (simp add: ne)
  next
    case all
    have D: "?D ?hd = ?old" unfolding all(2) by simp
    obtain t where "recover_from_log E' r = Ok () t" "buffers q qd {} t" "get_head_n (disk t ?hd) = 0"
      "\<And>x. x \<noteq> ?hd \<Longrightarrow> disk t x = ?D x"
      by (rule recover_crash [OF ok r refl]) (use D h0 in auto)
    moreover have "?D x = block s x" if "x \<notin> log_area s" for x
      unfolding all(2) using that ha old [of x] apply_writes_other [OF Ax [OF that]] by (auto simp: apply_map_writes)
    ultimately show ?thesis using all(1) by (intro exI [of _ t]) (simp add: ne)
  qed
qed


text \<open>A boot with disk contents \<open>D\<close>: log in blocks 2 to 31, one operation outstanding.\<close>

definition log_boot :: "(u32 \<Rightarrow> u8 list) \<Rightarrow> kst" where
  "log_boot D = upd_klog (\<lambda>l. l\<lparr>log_start := 2, log_size := 30, log_dev := 1, outstanding := 1\<rparr>)
     (binit (kst0\<lparr>disk := D\<rparr>))"

lemma log_boot_facts:
  assumes "\<And>n. length (D n) = BSIZE"
  shows "buffers 0 0 {} (log_boot D)" "pinned (log_boot D) = {}"
    "klog (log_boot D) = (klog kst0)\<lparr>log_start := 2, log_size := 30, log_dev := 1, outstanding := 1\<rparr>"
    "disk (log_boot D) = D" "disksize (log_boot D) = 1000"
proof -
  let ?s = "kst0\<lparr>disk := D\<rparr>"
  have q: "quiet 0 0 ?s"
    by (simp add: quiet_def lock_free_def kst0_def cpu0_def spin0_def proc0_def)
  have p: "pay (bufs ?s ! i) = (0, 0, 0, 0, replicate BSIZE 0)" if "i < NBUF" for i
    using that by (simp add: kst0_def pay_def buf0_def nth_append nth_Cons split: nat.split)
  have l: "length (bufs ?s) = Suc NBUF" "\<And>n. length (disk ?s n) = BSIZE" "disksize ?s = 1000"
    using assms by (simp_all add: kst0_def)
  note b = binit_ok [OF q l(1,2) p, simplified]
  show "buffers 0 0 {} (log_boot D)" "pinned (log_boot D) = {}" "disk (log_boot D) = D" "disksize (log_boot D) = 1000"
    using b l(3) by (simp_all add: log_boot_def)
  show "klog (log_boot D) = (klog kst0)\<lparr>log_start := 2, log_size := 30, log_dev := 1, outstanding := 1\<rparr>"
    using above_fields(14) [OF above_binit, of ?s] by (simp add: log_boot_def)
qed

abbreviation blank :: "u32 \<Rightarrow> u8 list" where "blank \<equiv> \<lambda>_. replicate BSIZE 0"

lemma log_demo:
  obtains s where "txn_write E 100 (replicate BSIZE 7) (log_boot blank) = Ok () s" "buffers 0 0 {} s" "log_ok s"
    "pinned s = set (homes s)" "lh_n (lh (klog s)) = 1" "get_head_n (disk s (log_head s)) = 0" "disksize s = 1000"
    "block s 100 = replicate BSIZE 7" "disk s 100 = replicate BSIZE 0" "homes s = [100]"
    "log_start (klog s) = 2" "log_size (klog s) = 30" "100 \<notin> log_area s" "committing (klog s) = 0" "outstanding (klog s) = 1"
proof -
  let ?b = "log_boot blank"
  have k: "klog ?b = (klog kst0)\<lparr>log_start := 2, log_size := 30, log_dev := 1, outstanding := 1\<rparr>"
    and b: "buffers 0 0 {} ?b" "pinned ?b = {}" "disk ?b = blank" "disksize ?b = 1000"
    by (rule log_boot_facts; simp)+
  have kk: "lh_n (lh (klog ?b)) = 0" "length (lh_block (lh (klog ?b))) = 30" "log_size (klog ?b) = 30"
    "outstanding (klog ?b) = 1" "committing (klog ?b) = 0" "log_start (klog ?b) = 2" "log_dev (klog ?b) = 1"
    by (simp_all add: k kst0_def)
  obtain s where s: "txn_write E 100 (replicate BSIZE 7) ?b = Ok () s" "buffers 0 0 {} s"
    "block s = (block ?b)(100 := replicate BSIZE 7)" "pinned s = insert 100 (pinned ?b)"
    "above s = above (upd_klog (record_block 100) ?b)"
    by (rule txn_write_spec [OF b(1), of 100 "replicate BSIZE 7" E]) (use b kk in auto)
  note f = above_fields [OF s(5)]
  have h: "homes s = [100]"
    using record_block_homes(1) [of ?b 100] kk log_defs_cong(5) [OF f(14)] by (simp add: homes_def)
  have ks: "log_size (klog s) = 30" "log_start (klog s) = 2" "log_dev (klog s) = 1"
    "lh_n (lh (klog s)) = 1" "length (lh_block (lh (klog s))) = 30" "committing (klog s) = 0" "outstanding (klog s) = 1"
    using record_block_homes(2,3) [of ?b 100] kk by (simp_all add: f homes_def, simp_all add: record_block_def Let_def)
  have na: "100 \<notin> log_area s"
  proof -
    have "log_block s j \<noteq> 100" if "int j + 1 < 30" for j
    proof -
      have "uint (log_block s j) = int j + 3"
        unfolding log_block_def ks by (subst uint_word_of_int32) (use that in simp_all)
      then show ?thesis using that by auto
    qed
    then show ?thesis by (auto simp: log_area_def log_head_def ks)
  qed
  have "log_ok s" using ks na h by (simp add: log_ok_def geometry_def f b)
  moreover have "get_head_n (disk s (log_head s)) = 0"
    by (simp add: f b get_head_n_def get32_def get_bytes_def word32_def)
  ultimately show ?thesis
    using that s h ks na by (simp add: b f)
qed


lemma apply_writes_length:
  assumes "\<And>n. length (D n) = BSIZE" "\<And>w. w \<in> set W \<Longrightarrow> length (snd w) = BSIZE"
  shows "length (apply_writes W D n) = BSIZE"
  using assms by (induction W arbitrary: D) simp_all

lemma commit_writes_length:
  assumes "buffers p pd {} s" "log_ok s" "w \<in> set (commit_writes s)"
  shows "length (snd w) = BSIZE"
proof -
  have ok: "bcache_ok {} s" and n: "0 \<le> lh_n (lh (klog s))" "lh_n (lh (klog s)) \<le> LOGSIZE"
    using assms by (auto simp: buffers_def log_ok_def geometry_def)
  have "length (head_data s) = BSIZE"
    using put_head_get(1) [OF n bcacheD(4) [OF ok]] by (simp add: head_data_def)
  then show ?thesis
    using assms(3) length_block [OF ok] put_head_get(1) [of "(lh (klog s))\<lparr>lh_n := 0\<rparr>" "head_data s"]
    by (auto simp: commit_writes_def logged_def)
qed

theorem commit_crash_atomic_witness:
  "\<exists>s. txn_write (\<lambda>_ s. s) 100 (replicate BSIZE 7) (log_boot blank) = Ok () s \<and> disk s 100 = replicate BSIZE 0 \<and>
     (\<exists>t. commit (\<lambda>_ s. s) s = Ok () t \<and> disk t 100 = replicate BSIZE 7) \<and>
     (\<exists>t. recover_from_log (\<lambda>_ s. s) (log_boot (apply_writes (take 2 (commit_writes s)) (disk s))) = Ok () t \<and>
        disk t 100 = replicate BSIZE 7)"
proof -
  obtain s where s: "txn_write (\<lambda>_ s. s) 100 (replicate BSIZE 7) (log_boot blank) = Ok () s" "buffers 0 0 {} s" "log_ok s"
    "pinned s = set (homes s)" "lh_n (lh (klog s)) = 1" "get_head_n (disk s (log_head s)) = 0" "disksize s = 1000"
    "block s 100 = replicate BSIZE 7" "disk s 100 = replicate BSIZE 0" "homes s = [100]"
    "log_start (klog s) = 2" "log_size (klog s) = 30" "100 \<notin> log_area s" "committing (klog s) = 0" "outstanding (klog s) = 1"
    by (rule log_demo)
  let ?D = "apply_writes (take 2 (commit_writes s)) (disk s)"
  have "length (?D n) = BSIZE" for n
    using commit_writes_length [OF s(2,3)] s(2) bcacheD(4) [of "{}" s]
    by (intro apply_writes_length) (auto simp: buffers_def dest: in_set_takeD)
  then have "rebooted 0 0 s ?D (log_boot ?D)"
    using log_boot_facts [of ?D] s(7,11,12) by (simp add: rebooted_def kst0_def)
  moreover have "2 \<le> length (commit_writes s)" by (simp add: commit_writes_def s(10))
  moreover have "0 < lh_n (lh (klog s))" using s(5) by simp
  ultimately show ?thesis
    using commit_crash_atomic [OF s(2-4) _ s(6), of 2 0 0 "log_boot ?D" "\<lambda>_ s. s" "\<lambda>_ s. s"] s by auto
qed

section \<open>Opening and closing an operation\<close>

lemma log_cs:
  assumes q: "quiet p pd s"
  shows "release L_log (upd_klog f (enter L_log s)) = Ok () (leave L_log (upd_klog f (enter L_log s)))"
    "quiet p pd (leave L_log (upd_klog f (enter L_log s)))"
    "core (leave L_log (upd_klog f (enter L_log s))) = core (upd_klog f s)"
  by (rule quiet_leave [OF q]; simp add: upd_klog_def)+ (simp add: upd_klog_def core_upd core_sel)




lemma log_counts:
  assumes "\<And>l. log_start (f l) = log_start l \<and> log_size (f l) = log_size l \<and> log_dev (f l) = log_dev l \<and> lh (f l) = lh l"
  shows "log_ok (upd_klog f s) = log_ok s" "homes (upd_klog f s) = homes s" "log_area (upd_klog f s) = log_area s"
    "log_head (upd_klog f s) = log_head s"
proof -
  show h: "homes (upd_klog f s) = homes s" "log_head (upd_klog f s) = log_head s" "log_area (upd_klog f s) = log_area s"
    using assms by (simp_all add: homes_nth log_head_def log_area_def log_block_def)
  show "log_ok (upd_klog f s) = log_ok s"
    using assms h by (simp add: log_ok_def geometry_def)
qed

lemma log_wakeup:
  assumes q: "quiet p pd s"
  obtains t where "seq (wakeup Ch_log (upd_klog f (enter L_log s))) (release L_log) = Ok () t" "quiet p pd t"
    "core t = core (upd_klog f s)"
proof -
  obtain u where "wakeup Ch_log (upd_klog f (enter L_log s)) = Ok () u" "release L_log u = Ok () (leave L_log u)"
    "quiet p pd (leave L_log u)" "core u = core (upd_klog f (enter L_log s))"
    using wakeup_nested [OF q, of "upd_klog f (enter L_log s)" L_log Ch_log] by (auto simp: upd_klog_def)
  then show ?thesis using that [of "leave L_log u"] by (simp add: upd_klog_def core_upd core_sel)
qed

text \<open>A transaction in progress: what holds between the operations of a system call.\<close>

definition in_txn :: "nat \<Rightarrow> int \<Rightarrow> kst \<Rightarrow> bool" where
  "in_txn p pd s \<longleftrightarrow> buffers p pd {} s \<and> log_ok s \<and> pinned s = set (homes s)"

lemma in_txn_core:
  assumes "core t = core s" "quiet p pd t" "in_txn p pd s"
  shows "in_txn p pd t"
  using assms(2,3) log_ok_cong [of t s] log_defs_cong(5) [of t s] core_fields(16,19) [OF assms(1)]
  by (simp add: in_txn_def buffers_def bcache_core [OF assms(1)])

lemma commit_txn:
  assumes "in_txn p pd s"
  obtains t where "commit E s = Ok () t" "buffers p pd {} t" "pinned t = {}" "klog t = klog (set_lh_n 0 s)"
    "disksize t = disksize s" "\<And>x. x \<notin> log_area s \<Longrightarrow> disk t x = block s x"
proof (cases "0 < lh_n (lh (klog s))")
  case True
  have s: "buffers p pd {} s" "log_ok s" "pinned s = set (homes s)" using assms by (simp_all add: in_txn_def)
  obtain t c where t: "commit E s = Ok () t" "after p pd (set_lh_n 0 s) (commit_writes s) c {} t"
    by (rule commit_spec [OF s True])
  have "disk t x = block s x" if "x \<notin> log_area s" for x
    using afterD(3) [OF t(2)] commit_writes_disk [OF s that] by (simp add: set_lh_n_def)
  then show ?thesis using that t afterD(1,2) [OF t(2)] by (simp add: after_def set_lh_n_def)
next
  case False
  have n0: "lh_n (lh (klog s)) = 0" using False assms by (simp add: in_txn_def log_ok_def)
  then have np: "pinned s = {}" using assms by (simp add: in_txn_def homes_def)
  have "bcache_ok {} s" using assms by (simp add: in_txn_def buffers_def)
  then have d: "disk s x = block s x" for x by (simp add: block_disk np)
  have "(lh (klog s))\<lparr>lh_n := 0\<rparr> = lh (klog s)" by (rule logheader.equality) (simp_all add: n0)
  then have k: "klog s = klog (set_lh_n 0 s)" by (simp add: set_lh_n_def)
  have "commit E s = Ok () s" using False by (simp add: commit_def)
  moreover have "buffers p pd {} s" using assms by (simp add: in_txn_def)
  ultimately show ?thesis using np k refl d by (rule that)
qed

lemma end_op_last:
  assumes "in_txn p pd s" "committing (klog s) = 0" "outstanding (klog s) = 1"
  obtains t where "end_op E s = Ok () t" "in_txn p pd t" "committing (klog t) = 0" "outstanding (klog t) = 0"
    "lh_n (lh (klog t)) = 0" "\<And>x. x \<notin> log_area s \<Longrightarrow> disk t x = block s x"
proof -
  have q: "quiet p pd s" using assms(1) by (simp add: in_txn_def buffers_def)
  let ?f = "\<lambda>l. l\<lparr>outstanding := outstanding l - 1, committing := 1\<rparr>" and ?g = "\<lambda>l. l\<lparr>committing := 0\<rparr>"
  define u where "u = leave L_log (upd_klog ?f (enter L_log s))"
  note c = log_cs [OF q, of ?f, folded u_def]
  have "in_txn p pd (upd_klog ?f s)"
    using assms(1) log_counts [of ?f s] by (simp add: in_txn_def)
  then have txn: "in_txn p pd u" by (rule in_txn_core [OF c(3,2)])
  obtain v where v: "commit E u = Ok () v" "buffers p pd {} v" "pinned v = {}" "klog v = klog (set_lh_n 0 u)"
    "disksize v = disksize u" "\<And>x. x \<notin> log_area u \<Longrightarrow> disk v x = block u x"
    using commit_txn [OF txn, of E thesis] by blast
  have qv: "quiet p pd v" using v(2) by (simp add: buffers_def)
  obtain w where w: "seq (wakeup Ch_log (upd_klog ?g (enter L_log v))) (release L_log) = Ok () w" "quiet p pd w"
    "core w = core (upd_klog ?g v)"
    by (rule log_wakeup [OF qv])
  have run: "end_op E s = Ok () w"
    using assms(2,3) c(1) v(1) w(1)
    by (simp add: end_op_def quiet_acquire [OF q] quiet_acquire [OF qv] Let_def upd_klog_def)
  have kw: "klog w = ?g (klog (set_lh_n 0 (upd_klog ?f s)))"
    using core_fields(16) [OF w(3)] v(4) core_fields(16) [OF c(3)] by (simp add: set_lh_n_def)
  have "in_txn p pd (upd_klog ?g v)"
    using v(2,3,5) kw core_fields(16) [OF w(3)] core_fields(19) [OF c(3)] assms(1)
    by (simp add: in_txn_def log_ok_def geometry_def homes_nth set_lh_n_def)
  then have "in_txn p pd w" by (rule in_txn_core [OF w(3,2)])
  moreover have "log_area u = log_area s" "block u = block s"
    using log_counts(3) [of ?f s] log_defs_cong(4) [of u "upd_klog ?f s"] core_fields(16) [OF c(3)] bcache_core(2) [OF c(3)]
    by simp_all
  then have "disk w x = block s x" if "x \<notin> log_area s" for x
    using v(6) that core_fields(18) [OF w(3)] by simp
  ultimately show ?thesis using that run assms(3) by (simp add: kw set_lh_n_def)
qed

lemma end_op_more:
  assumes "in_txn p pd s" "committing (klog s) = 0" "1 < outstanding (klog s)"
  obtains t where "end_op E s = Ok () t" "in_txn p pd t" "core t = core (upd_klog (\<lambda>l. l\<lparr>outstanding := outstanding l - 1\<rparr>) s)"
proof -
  have q: "quiet p pd s" using assms(1) by (simp add: in_txn_def buffers_def)
  let ?f = "\<lambda>l. l\<lparr>outstanding := outstanding l - 1\<rparr>"
  obtain w where w: "seq (wakeup Ch_log (upd_klog ?f (enter L_log s))) (release L_log) = Ok () w" "quiet p pd w"
    "core w = core (upd_klog ?f s)"
    by (rule log_wakeup [OF q])
  have "in_txn p pd (upd_klog ?f s)"
    using assms(1) log_counts [of ?f s] by (simp add: in_txn_def)
  then have "in_txn p pd w" by (rule in_txn_core [OF w(3,2)])
  moreover have "end_op E s = seq (seq (wakeup Ch_log (upd_klog ?f (enter L_log s))) (release L_log)) (Ok ())"
    using assms(2,3) by (simp add: end_op_def quiet_acquire [OF q] Let_def seq_assoc)
  ultimately show ?thesis using that w by simp
qed

text \<open>C13: \<open>end_op\<close> of the last outstanding operation commits: it returns, every block outside the
  log is on disk as the cache had it, the log is empty and the counters are zero. While other
  operations are outstanding \<open>end_op\<close> only counts down and writes nothing.\<close>

theorem end_op_commits:
  assumes "in_txn p pd s" "committing (klog s) = 0" "1 \<le> outstanding (klog s)"
  shows "\<exists>t. end_op E s = Ok () t \<and> in_txn p pd t \<and> committing (klog t) = 0 \<and>
    outstanding (klog t) = outstanding (klog s) - 1 \<and>
    (if outstanding (klog s) = 1
     then lh_n (lh (klog t)) = 0 \<and> (\<forall>x. x \<notin> log_area s \<longrightarrow> disk t x = block s x)
     else lh (klog t) = lh (klog s) \<and> disk t = disk s \<and> block t = block s)"
proof (cases "outstanding (klog s) = 1")
  case True
  obtain t where "end_op E s = Ok () t" "in_txn p pd t" "committing (klog t) = 0" "outstanding (klog t) = 0"
    "lh_n (lh (klog t)) = 0" "\<And>x. x \<notin> log_area s \<Longrightarrow> disk t x = block s x"
    using end_op_last [OF assms(1,2) True, of E thesis] by blast
  then show ?thesis using True by auto
next
  case False
  let ?f = "\<lambda>l. l\<lparr>outstanding := outstanding l - 1\<rparr>"
  have "1 < outstanding (klog s)" using False assms(3) by simp
  then obtain t where t: "end_op E s = Ok () t" "in_txn p pd t" "core t = core (upd_klog ?f s)"
    by (rule end_op_more [OF assms(1,2)])
  then show ?thesis
    using False assms(2) core_fields(16,18) [OF t(3)] bcache_core(2) [OF t(3)] by auto
qed

theorem end_op_commits_witness:
  "\<exists>s t. txn_write (\<lambda>_ s. s) 100 (replicate BSIZE 7) (log_boot blank) = Ok () s \<and> end_op (\<lambda>_ s. s) s = Ok () t \<and>
     lh_n (lh (klog t)) = 0 \<and> disk t 100 = replicate BSIZE 7"
proof -
  obtain s where s: "txn_write (\<lambda>_ s. s) 100 (replicate BSIZE 7) (log_boot blank) = Ok () s" "in_txn 0 0 s"
    "block s 100 = replicate BSIZE 7" "100 \<notin> log_area s" "committing (klog s) = 0" "outstanding (klog s) = 1"
    using log_demo [of "\<lambda>_ s. s" thesis] by (simp add: in_txn_def)
  then show ?thesis
    using end_op_commits [of 0 0 s "\<lambda>_ s. s"] by auto
qed

end
