(* ===== verification/Fs.thy ===== *)
theory Fs
  imports Log
begin

unbundle bit_operations_syntax

text \<open>
  The file system (fs.c): the block bitmap, the on-disk inodes and the inode cache, the contents of
  files through direct and indirect blocks, directories and path names. Every change of a block goes
  through the log of theory Log. An inode pointer is an index into \<open>icache.inode\<close>, a null pointer
  \<open>None\<close>; a path or a name is the list of its bytes without the terminating NUL. The switch table
  \<open>devsw\<close> of device functions is a parameter.
\<close>

section \<open>Constants and data\<close>

abbreviation NDIRECT :: nat where "NDIRECT \<equiv> 12"
abbreviation NINDIRECT :: nat where "NINDIRECT \<equiv> 128"
abbreviation MAXFILE :: nat where "MAXFILE \<equiv> 140"
abbreviation IPB :: nat where "IPB \<equiv> 8"
abbreviation BPB :: nat where "BPB \<equiv> 4096"
abbreviation DIRSIZ :: nat where "DIRSIZ \<equiv> 14"
abbreviation NDEV :: int where "NDEV \<equiv> 10"
abbreviation ROOTDEV :: u32 where "ROOTDEV \<equiv> 1"
abbreviation ROOTINO :: u32 where "ROOTINO \<equiv> 1"
abbreviation T_DIR :: int where "T_DIR \<equiv> 1"
abbreviation T_FILE :: int where "T_FILE \<equiv> 2"
abbreviation T_DEV :: int where "T_DEV \<equiv> 3"
abbreviation I_VALID :: int where "I_VALID \<equiv> 2"
abbreviation bsize :: u32 where "bsize \<equiv> 512"

definition IBLOCK :: "u32 \<Rightarrow> superblock \<Rightarrow> u32" where
  "IBLOCK i v = i div of_nat IPB + sb_inodestart v"

definition BBLOCK :: "u32 \<Rightarrow> superblock \<Rightarrow> u32" where
  "BBLOCK b v = b div of_nat BPB + sb_bmapstart v"

text \<open>\<open>struct dinode\<close>, 64 bytes: type, major, minor, nlink (16 bits each), size, 13 addresses.\<close>

record dinode =
  d_type :: int
  d_major :: int
  d_minor :: int
  d_nlink :: int
  d_size :: u32
  d_addrs :: "u32 list"

definition get_dinode :: "u8 list \<Rightarrow> nat \<Rightarrow> dinode" where
  "get_dinode d o' = \<lparr>d_type = sint (get16 d o'), d_major = sint (get16 d (o' + 2)), d_minor = sint (get16 d (o' + 4)),
     d_nlink = sint (get16 d (o' + 6)), d_size = get32 d (o' + 8),
     d_addrs = map (\<lambda>i. get32 d (o' + 12 + 4 * i)) [0..<Suc NDIRECT]\<rparr>"

definition put_dinode :: "dinode \<Rightarrow> nat \<Rightarrow> u8 list \<Rightarrow> u8 list" where
  "put_dinode v o' d =
     (let d = put16 d o' (word_of_int (d_type v));
          d = put16 d (o' + 2) (word_of_int (d_major v));
          d = put16 d (o' + 4) (word_of_int (d_minor v));
          d = put16 d (o' + 6) (word_of_int (d_nlink v));
          d = put32 d (o' + 8) (d_size v)
      in put_bytes d (o' + 12) (concat (map bytes32 (d_addrs v))))"

definition dinode_off :: "u32 \<Rightarrow> nat" where
  "dinode_off i = 64 * (unat i mod IPB)"

text \<open>\<open>struct dirent\<close>, 16 bytes.\<close>

record dirent =
  de_inum :: u16
  de_name :: "u8 list"

definition get_dirent :: "u8 list \<Rightarrow> dirent" where
  "get_dirent d = \<lparr>de_inum = get16 d 0, de_name = get_bytes d 2 DIRSIZ\<rparr>"

definition dirent_bytes :: "dirent \<Rightarrow> u8 list" where
  "dirent_bytes e = bytes16 (de_inum e) @ de_name e"

text \<open>Where \<open>readi\<close> copies to and \<open>writei\<close> copies from: an address of the running process, a
  kernel address, or a local variable of the caller, whose bytes are passed by value.\<close>

datatype dst = ToUser u32 | ToKernel u32 | ToLocal
datatype src = FromUser u32 | FromKernel u32 | FromLocal "u8 list"

definition copy_to :: "dst \<Rightarrow> u32 \<Rightarrow> u8 list \<Rightarrow> kst \<Rightarrow> unit kres" where
  "copy_to d o' bs s =
     (case d of
        ToUser a \<Rightarrow> uwrite (a + o') bs s
      | ToKernel a \<Rightarrow> Ok () (s\<lparr>mem := store_bytes (mem s) (a + o') bs\<rparr>)
      | ToLocal \<Rightarrow> Ok () s)"

definition copy_from :: "src \<Rightarrow> u32 \<Rightarrow> u32 \<Rightarrow> kst \<Rightarrow> u8 list kres" where
  "copy_from c o' n s =
     (case c of
        FromUser a \<Rightarrow> uread (a + o') (unat n) s
      | FromKernel a \<Rightarrow> Ok (load_bytes (mem s) (a + o') (unat n)) s
      | FromLocal bs \<Rightarrow> Ok (get_bytes bs (unat o') (unat n)) s)"

text \<open>\<open>struct devsw\<close>: an entry that is \<open>None\<close> is a null function pointer. A device read also gives
  the bytes for a local destination.\<close>

record devsw =
  dread :: "(nat \<Rightarrow> dst \<Rightarrow> int \<Rightarrow> kst \<Rightarrow> (int \<times> u8 list) kres) option"
  dwrite :: "(nat \<Rightarrow> src \<Rightarrow> int \<Rightarrow> kst \<Rightarrow> int kres) option"

type_synonym devtab = "nat \<Rightarrow> devsw"

definition upd_inode :: "nat \<Rightarrow> (inode \<Rightarrow> inode) \<Rightarrow> kst \<Rightarrow> kst" where
  "upd_inode i f s = s\<lparr>icache := (icache s)[i := f (icache s ! i)]\<rparr>"

abbreviation ino :: "kst \<Rightarrow> nat \<Rightarrow> inode" where "ino s i \<equiv> icache s ! i"

section \<open>Blocks\<close>

definition bzero :: "env \<Rightarrow> u32 \<Rightarrow> u32 \<Rightarrow> kst \<Rightarrow> unit kres" where
  "bzero E dev bno s =
     bnd (bread E dev bno s) (\<lambda>bp s.
       let s = set_data bp (replicate BSIZE 0) s
       in seq (log_write bp s) (brelse bp))"

definition bmask :: "nat \<Rightarrow> u8" where
  "bmask bi = push_bit (bi mod 8) 1"

definition is_clear :: "u8 list \<Rightarrow> nat \<Rightarrow> bool" where
  "is_clear d bi \<longleftrightarrow> d ! (bi div 8) AND bmask bi = 0"

text \<open>The inner loop of \<open>balloc\<close>: the first free block of the part of the bitmap that starts at
  block \<open>b\<close>.\<close>

definition first_clear :: "u8 list \<Rightarrow> u32 \<Rightarrow> u32 \<Rightarrow> nat option" where
  "first_clear d b lim = find (is_clear d) (takeWhile (\<lambda>bi. b + of_nat bi < lim) [0..<BPB])"

definition balloc :: "env \<Rightarrow> u32 \<Rightarrow> kst \<Rightarrow> u32 kres" where
  "balloc E dev s =
     loop_with (\<lambda>b s.
       if b < sb_size (sb s)
       then bnd (bread E dev (BBLOCK b (sb s)) s) (\<lambda>bp s.
              let d = bdata (bufs s ! bp)
              in case first_clear d b (sb_size (sb s)) of
                   Some bi \<Rightarrow>
                     (let s = set_data bp (d[bi div 8 := d ! (bi div 8) OR bmask bi]) s
                      in seq (log_write bp s) (\<lambda>s.
                         seq (brelse bp s) (\<lambda>s.
                         seq (bzero E dev (b + of_nat bi) s) (Ok (Inr (b + of_nat bi))))))
                 | None \<Rightarrow> seq (brelse bp s) (Ok (Inl (b + of_nat BPB))))
       else Panic ''balloc: out of blocks'') 0 s"

definition bfree :: "env \<Rightarrow> u32 \<Rightarrow> u32 \<Rightarrow> kst \<Rightarrow> unit kres" where
  "bfree E dev b s =
     bnd (readsb E (sint dev) s) (\<lambda>v s.
       let s = s\<lparr>sb := v\<rparr>
       in bnd (bread E dev (BBLOCK b (sb s)) s) (\<lambda>bp s.
            let bi = unat b mod BPB;
                d = bdata (bufs s ! bp)
            in if is_clear d bi then Panic ''freeing free block''
               else let s = set_data bp (d[bi div 8 := d ! (bi div 8) AND NOT (bmask bi)]) s
                    in seq (log_write bp s) (brelse bp)))"

section \<open>Inodes\<close>

definition iinit :: "env \<Rightarrow> int \<Rightarrow> kst \<Rightarrow> unit kres" where
  "iinit E dev s =
     (let s = initlock L_icache ''icache'' s;
          s = fold (\<lambda>i. initsleeplock (InodeLock i) ''inode'') [0..<NINODE] s
      in bnd (readsb E dev s) (\<lambda>v s.
           let s = s\<lparr>sb := v\<rparr>
           in Ok () (s\<lparr>console := Cprintf ''sb: size %d nblocks %d ninodes %d nlog %d logstart %d inodestart %d bmap start %d''
                (map sint [sb_size v, sb_nblocks v, sb_ninodes v, sb_nlog v, sb_logstart v, sb_inodestart v, sb_bmapstart v])
                # console s\<rparr>)))"

definition iget :: "u32 \<Rightarrow> u32 \<Rightarrow> kst \<Rightarrow> nat kres" where
  "iget dev n s =
     seq (acquire L_icache s) (\<lambda>s.
       case find_idx (\<lambda>ip. iref ip > 0 \<and> i_dev ip = dev \<and> inum ip = n) (icache s) of
         Some i \<Rightarrow>
           (let s = upd_inode i (\<lambda>ip. ip\<lparr>iref := iref ip + 1\<rparr>) s
            in seq (release L_icache s) (Ok i))
       | None \<Rightarrow>
           (case find_idx (\<lambda>ip. iref ip = 0) (icache s) of
              None \<Rightarrow> Panic ''iget: no inodes''
            | Some i \<Rightarrow>
                (let s = upd_inode i (\<lambda>ip. ip\<lparr>i_dev := dev, inum := n, iref := 1, iflags := 0\<rparr>) s
                 in seq (release L_icache s) (Ok i))))"

definition ialloc :: "env \<Rightarrow> u32 \<Rightarrow> int \<Rightarrow> kst \<Rightarrow> nat kres" where
  "ialloc E dev ty s =
     loop_with (\<lambda>n s.
       if n < sb_ninodes (sb s)
       then bnd (bread E dev (IBLOCK n (sb s)) s) (\<lambda>bp s.
              let d = bdata (bufs s ! bp); o' = dinode_off n
              in if get16 d o' = 0
                 then let s = set_data bp (put16 (put_bytes d o' (replicate 64 0)) o' (word_of_int ty)) s
                      in seq (log_write bp s) (\<lambda>s.
                         seq (brelse bp s) (\<lambda>s.
                         bnd (iget dev n s) (\<lambda>ip. Ok (Inr ip))))
                 else seq (brelse bp s) (Ok (Inl (n + 1))))
       else Panic ''ialloc: no inodes'') 1 s"

definition inode_dinode :: "inode \<Rightarrow> dinode" where
  "inode_dinode ip = \<lparr>d_type = itype ip, d_major = imajor ip, d_minor = iminor ip, d_nlink = nlink ip,
     d_size = isize ip, d_addrs = addrs ip\<rparr>"

definition iupdate :: "env \<Rightarrow> nat \<Rightarrow> kst \<Rightarrow> unit kres" where
  "iupdate E ip s =
     bnd (bread E (i_dev (ino s ip)) (IBLOCK (inum (ino s ip)) (sb s)) s) (\<lambda>bp s.
       let s = set_data bp (put_dinode (inode_dinode (ino s ip)) (dinode_off (inum (ino s ip))) (bdata (bufs s ! bp))) s
       in seq (log_write bp s) (brelse bp))"

definition idup :: "nat option \<Rightarrow> kst \<Rightarrow> nat kres" where
  "idup ipo s =
     (case ipo of
        None \<Rightarrow> Fault ''idup: null inode''
      | Some ip \<Rightarrow>
          seq (acquire L_icache s) (\<lambda>s.
            let s = upd_inode ip (\<lambda>i. i\<lparr>iref := iref i + 1\<rparr>) s
            in seq (release L_icache s) (Ok ip)))"

definition ilock :: "env \<Rightarrow> nat option \<Rightarrow> kst \<Rightarrow> unit kres" where
  "ilock E ipo s =
     (case ipo of
        None \<Rightarrow> Panic ''ilock''
      | Some ip \<Rightarrow>
          if iref (ino s ip) < 1 then Panic ''ilock''
          else seq (acquiresleep E (InodeLock ip) s) (\<lambda>s.
            if iflags (ino s ip) AND I_VALID = 0
            then bnd (bread E (i_dev (ino s ip)) (IBLOCK (inum (ino s ip)) (sb s)) s) (\<lambda>bp s.
                   let v = get_dinode (bdata (bufs s ! bp)) (dinode_off (inum (ino s ip)));
                       s = upd_inode ip (\<lambda>i. i\<lparr>itype := d_type v, imajor := d_major v, iminor := d_minor v,
                             nlink := d_nlink v, isize := d_size v, addrs := d_addrs v\<rparr>) s
                   in seq (brelse bp s) (\<lambda>s.
                        let s = upd_inode ip (\<lambda>i. i\<lparr>iflags := iflags i OR I_VALID\<rparr>) s
                        in if itype (ino s ip) = 0 then Panic ''ilock: no type'' else Ok () s))
            else Ok () s))"

definition iunlock :: "nat option \<Rightarrow> kst \<Rightarrow> unit kres" where
  "iunlock ipo s =
     (case ipo of
        None \<Rightarrow> Panic ''iunlock''
      | Some ip \<Rightarrow>
          bnd (holdingsleep (InodeLock ip) s) (\<lambda>h s.
            if h = 0 \<or> iref (ino s ip) < 1 then Panic ''iunlock''
            else releasesleep (InodeLock ip) s))"

definition itrunc :: "env \<Rightarrow> nat \<Rightarrow> kst \<Rightarrow> unit kres" where
  "itrunc E ip s =
     seq (for_each (\<lambda>i s.
            if addrs (ino s ip) ! i \<noteq> 0
            then seq (bfree E (i_dev (ino s ip)) (addrs (ino s ip) ! i) s) (\<lambda>s.
                 Ok () (upd_inode ip (\<lambda>v. v\<lparr>addrs := (addrs v)[i := 0]\<rparr>) s))
            else Ok () s) [0..<NDIRECT] s) (\<lambda>s.
     seq (if addrs (ino s ip) ! NDIRECT \<noteq> 0
          then bnd (bread E (i_dev (ino s ip)) (addrs (ino s ip) ! NDIRECT) s) (\<lambda>bp s.
               seq (for_each (\<lambda>j s.
                      let a = get32 (bdata (bufs s ! bp)) (4 * j)
                      in if a \<noteq> 0 then bfree E (i_dev (ino s ip)) a s else Ok () s) [0..<NINDIRECT] s) (\<lambda>s.
               seq (brelse bp s) (\<lambda>s.
               seq (bfree E (i_dev (ino s ip)) (addrs (ino s ip) ! NDIRECT) s) (\<lambda>s.
               Ok () (upd_inode ip (\<lambda>v. v\<lparr>addrs := (addrs v)[NDIRECT := 0]\<rparr>) s)))))
          else Ok () s) (\<lambda>s.
     iupdate E ip (upd_inode ip (\<lambda>v. v\<lparr>isize := 0\<rparr>) s)))"

definition iput :: "env \<Rightarrow> nat \<Rightarrow> kst \<Rightarrow> unit kres" where
  "iput E ip s =
     seq (acquire L_icache s) (\<lambda>s.
     seq (if iref (ino s ip) = 1 \<and> iflags (ino s ip) AND I_VALID \<noteq> 0 \<and> nlink (ino s ip) = 0
          then seq (release L_icache s) (\<lambda>s.
               seq (itrunc E ip s) (\<lambda>s.
               seq (iupdate E ip (upd_inode ip (\<lambda>v. v\<lparr>itype := 0\<rparr>) s)) (\<lambda>s.
               seq (acquire L_icache s) (\<lambda>s.
               Ok () (upd_inode ip (\<lambda>v. v\<lparr>iflags := 0\<rparr>) s)))))
          else Ok () s) (\<lambda>s.
     release L_icache (upd_inode ip (\<lambda>v. v\<lparr>iref := iref v - 1\<rparr>) s)))"

definition iunlockput :: "env \<Rightarrow> nat \<Rightarrow> kst \<Rightarrow> unit kres" where
  "iunlockput E ip s = seq (iunlock (Some ip) s) (iput E ip)"

section \<open>Inode content\<close>

definition bmap :: "env \<Rightarrow> nat \<Rightarrow> u32 \<Rightarrow> kst \<Rightarrow> u32 kres" where
  "bmap E ip bn s =
     (if bn < of_nat NDIRECT
      then let addr = addrs (ino s ip) ! unat bn
           in if addr = 0
              then bnd (balloc E (i_dev (ino s ip)) s) (\<lambda>addr s.
                   Ok addr (upd_inode ip (\<lambda>v. v\<lparr>addrs := (addrs v)[unat bn := addr]\<rparr>) s))
              else Ok addr s
      else let bn = bn - of_nat NDIRECT
      in if bn < of_nat NINDIRECT
         then bnd (let addr = addrs (ino s ip) ! NDIRECT
                   in if addr = 0
                      then bnd (balloc E (i_dev (ino s ip)) s) (\<lambda>addr s.
                           Ok addr (upd_inode ip (\<lambda>v. v\<lparr>addrs := (addrs v)[NDIRECT := addr]\<rparr>) s))
                      else Ok addr s) (\<lambda>addr s.
              bnd (bread E (i_dev (ino s ip)) addr s) (\<lambda>bp s.
              bnd (let addr = get32 (bdata (bufs s ! bp)) (4 * unat bn)
                   in if addr = 0
                      then bnd (balloc E (i_dev (ino s ip)) s) (\<lambda>addr s.
                           let s = set_data bp (put32 (bdata (bufs s ! bp)) (4 * unat bn) addr) s
                           in seq (log_write bp s) (Ok addr))
                      else Ok addr s) (\<lambda>addr s.
              seq (brelse bp s) (Ok addr))))
         else Panic ''bmap: out of range'')"

text \<open>The fields of \<open>struct stat\<close> at the user address \<open>st\<close>: \<open>type\<close> at offset 0, \<open>dev\<close> at 4, \<open>ino\<close>
  at 8, \<open>nlink\<close> at 12, \<open>size\<close> at 16.\<close>

definition stati :: "nat \<Rightarrow> u32 \<Rightarrow> kst \<Rightarrow> unit kres" where
  "stati ip st s =
     seq (uwrite (st + 4) (bytes32 (i_dev (ino s ip))) s) (\<lambda>s.
     seq (uwrite (st + 8) (bytes32 (inum (ino s ip))) s) (\<lambda>s.
     seq (uwrite st (bytes16 (word_of_int (itype (ino s ip)))) s) (\<lambda>s.
     seq (uwrite (st + 12) (bytes16 (word_of_int (nlink (ino s ip)))) s) (\<lambda>s.
     uwrite (st + 16) (bytes32 (isize (ino s ip))) s))))"

text \<open>The result, and the bytes read.\<close>

definition readi :: "env \<Rightarrow> devtab \<Rightarrow> nat \<Rightarrow> dst \<Rightarrow> u32 \<Rightarrow> u32 \<Rightarrow> kst \<Rightarrow> (int \<times> u8 list) kres" where
  "readi E D ip d off n s =
     (if itype (ino s ip) = T_DEV
      then let maj = imajor (ino s ip)
           in if maj < 0 \<or> maj \<ge> NDEV then Ok (- 1, []) s
              else (case dread (D (nat maj)) of None \<Rightarrow> Ok (- 1, []) s | Some f \<Rightarrow> f ip d (sint n) s)
      else if off > isize (ino s ip) \<or> off + n < off then Ok (- 1, []) s
      else let n = (if off + n > isize (ino s ip) then isize (ino s ip) - off else n)
      in loop_with (\<lambda>(tot, off, acc) s.
           if tot < n
           then bnd (bmap E ip (off div bsize) s) (\<lambda>a s.
                bnd (bread E (i_dev (ino s ip)) a s) (\<lambda>bp s.
                  let m = min (n - tot) (bsize - off mod bsize);
                      bs = get_bytes (bdata (bufs s ! bp)) (unat (off mod bsize)) (unat m)
                  in seq (copy_to d tot bs s) (\<lambda>s.
                     seq (brelse bp s) (Ok (Inl (tot + m, off + m, acc @ bs))))))
           else Ok (Inr (sint n, acc)) s) (0, off, []) s)"

definition writei :: "env \<Rightarrow> devtab \<Rightarrow> nat \<Rightarrow> src \<Rightarrow> u32 \<Rightarrow> u32 \<Rightarrow> kst \<Rightarrow> int kres" where
  "writei E D ip c off n s =
     (if itype (ino s ip) = T_DEV
      then let maj = imajor (ino s ip)
           in if maj < 0 \<or> maj \<ge> NDEV then Ok (- 1) s
              else (case dwrite (D (nat maj)) of None \<Rightarrow> Ok (- 1) s | Some f \<Rightarrow> f ip c (sint n) s)
      else if off > isize (ino s ip) \<or> off + n < off then Ok (- 1) s
      else if off + n > of_nat (MAXFILE * BSIZE) then Ok (- 1) s
      else bnd (loop_with (\<lambda>(tot, off) s.
             if tot < n
             then bnd (bmap E ip (off div bsize) s) (\<lambda>a s.
                  bnd (bread E (i_dev (ino s ip)) a s) (\<lambda>bp s.
                    let m = min (n - tot) (bsize - off mod bsize)
                    in bnd (copy_from c tot m s) (\<lambda>bs s.
                         let s = set_data bp (put_bytes (bdata (bufs s ! bp)) (unat (off mod bsize)) bs) s
                         in seq (log_write bp s) (\<lambda>s.
                            seq (brelse bp s) (Ok (Inl (tot + m, off + m)))))))
             else Ok (Inr off) s) (0, off) s) (\<lambda>off s.
           if n > 0 \<and> off > isize (ino s ip)
           then seq (iupdate E ip (upd_inode ip (\<lambda>v. v\<lparr>isize := off\<rparr>) s)) (Ok (sint n))
           else Ok (sint n) s))"

section \<open>Directories\<close>

text \<open>The bytes of an array, followed by a NUL.\<close>

definition chars :: "u8 list \<Rightarrow> cptr" where
  "chars xs i = (if i < length xs then xs ! i else 0)"

definition namecmp :: "u8 list \<Rightarrow> u8 list \<Rightarrow> int" where
  "namecmp a b = strncmp (chars a) (chars b) (of_nat DIRSIZ)"

text \<open>The inode found and the offset of its entry.\<close>

definition dirlookup :: "env \<Rightarrow> devtab \<Rightarrow> nat \<Rightarrow> u8 list \<Rightarrow> kst \<Rightarrow> (nat \<times> u32) option kres" where
  "dirlookup E D dp name s =
     (if itype (ino s dp) \<noteq> T_DIR then Panic ''dirlookup not DIR''
      else loop_with (\<lambda>off s.
        if off < isize (ino s dp)
        then bnd (readi E D dp ToLocal off 16 s) (\<lambda>(r, bs) s.
               if r \<noteq> 16 then Panic ''dirlink read''
               else let de = get_dirent bs
                    in if de_inum de = 0 then Ok (Inl (off + 16)) s
                       else if namecmp name (de_name de) = 0
                       then bnd (iget (i_dev (ino s dp)) (ucast (de_inum de)) s) (\<lambda>ip. Ok (Inr (Some (ip, off))))
                       else Ok (Inl (off + 16)) s)
        else Ok (Inr None) s) 0 s)"

definition dirlink :: "env \<Rightarrow> devtab \<Rightarrow> nat \<Rightarrow> u8 list \<Rightarrow> u32 \<Rightarrow> kst \<Rightarrow> int kres" where
  "dirlink E D dp name n s =
     bnd (dirlookup E D dp name s) (\<lambda>r s.
       case r of
         Some (ip, _) \<Rightarrow> seq (iput E ip s) (Ok (- 1))
       | None \<Rightarrow>
           bnd (loop_with (\<lambda>off s.
                  if off < isize (ino s dp)
                  then bnd (readi E D dp ToLocal off 16 s) (\<lambda>(r, bs) s.
                         if r \<noteq> 16 then Panic ''dirlink read''
                         else if de_inum (get_dirent bs) = 0 then Ok (Inr off) s
                         else Ok (Inl (off + 16)) s)
                  else Ok (Inr off) s) 0 s) (\<lambda>off s.
           let de = \<lparr>de_inum = ucast n, de_name = strncpy (replicate DIRSIZ 0) (chars name) (int DIRSIZ)\<rparr>
           in bnd (writei E D dp (FromLocal (dirent_bytes de)) off 16 s) (\<lambda>r s.
                if r \<noteq> 16 then Panic ''dirlink'' else Ok 0 s)))"

section \<open>Paths\<close>

abbreviation slash :: u8 where "slash \<equiv> 47"

text \<open>The rest of the path and the new contents of \<open>name\<close>.\<close>

definition skipelem :: "u8 list \<Rightarrow> u8 list \<Rightarrow> (u8 list \<times> u8 list) option" where
  "skipelem path name =
     (let path = dropWhile (\<lambda>c. c = slash) path
      in if path = [] then None
         else let elem = takeWhile (\<lambda>c. c \<noteq> slash) path;
                  path = dropWhile (\<lambda>c. c \<noteq> slash) path;
                  len = length elem;
                  name = (if len \<ge> DIRSIZ then put_bytes name 0 (take DIRSIZ elem)
                          else (put_bytes name 0 elem)[len := 0])
              in Some (dropWhile (\<lambda>c. c = slash) path, name))"

definition namex :: "env \<Rightarrow> devtab \<Rightarrow> u8 list \<Rightarrow> bool \<Rightarrow> u8 list \<Rightarrow> kst \<Rightarrow> (nat option \<times> u8 list) kres" where
  "namex E D path nameiparent name s =
     bnd (if path \<noteq> [] \<and> hd path = slash then iget ROOTDEV ROOTINO s
          else with_proc s (\<lambda>p. idup (cwd (ptable s ! p)) s)) (\<lambda>ip s.
     loop_with (\<lambda>(ip, path, name) s.
       case skipelem path name of
         Some (path, name) \<Rightarrow>
           seq (ilock E (Some ip) s) (\<lambda>s.
             if itype (ino s ip) \<noteq> T_DIR then seq (iunlockput E ip s) (Ok (Inr (None, name)))
             else if nameiparent \<and> path = [] then seq (iunlock (Some ip) s) (Ok (Inr (Some ip, name)))
             else bnd (dirlookup E D ip name s) (\<lambda>r s.
               case r of
                 None \<Rightarrow> seq (iunlockput E ip s) (Ok (Inr (None, name)))
               | Some (next, _) \<Rightarrow> seq (iunlockput E ip s) (Ok (Inl (next, path, name)))))
       | None \<Rightarrow>
           if nameiparent then seq (iput E ip s) (Ok (Inr (None, name)))
           else Ok (Inr (Some ip, name)) s) (ip, path, name) s)"

definition namei :: "env \<Rightarrow> devtab \<Rightarrow> u8 list \<Rightarrow> kst \<Rightarrow> nat option kres" where
  "namei E D path s = bnd (namex E D path False (replicate DIRSIZ 0) s) (\<lambda>(r, _). Ok r)"

definition nameiparent :: "env \<Rightarrow> devtab \<Rightarrow> u8 list \<Rightarrow> u8 list \<Rightarrow> kst \<Rightarrow> (nat option \<times> u8 list) kres" where
  "nameiparent E D path name s = namex E D path True name s"

end
