(* ===== verification/Fs_Blocks.thy ===== *)
theory Fs_Blocks
  imports Fs
begin

unbundle bit_operations_syntax

text \<open>
  Correctness of the block layer of fs.c inside a transaction: reading a block, changing a block through
  the log, and the block allocator. The states are those of a process that holds no lock and no buffer;
  \<open>block s n\<close> is the content of block \<open>n\<close> as the buffer cache presents it.
\<close>

section \<open>A transaction with room\<close>

text \<open>The process is inside a transaction in which \<open>k\<close> more calls of \<open>log_write\<close> fit.\<close>

definition txn :: "nat \<Rightarrow> int \<Rightarrow> nat \<Rightarrow> kst \<Rightarrow> bool" where
  "txn p pd k s \<longleftrightarrow> in_txn p pd s \<and> 1 \<le> outstanding (klog s) \<and> lh_n (lh (klog s)) + int k < log_size (klog s)"

text \<open>The state without the locks, the buffer cache and the log.\<close>

definition others :: "kst \<Rightarrow> kst" where
  "others s = (above s)\<lparr>klog := klog kst0\<rparr>"

lemma others_above: "above t = above s \<Longrightarrow> others t = others s"
  by (simp add: others_def)

lemma others_klog: "above t = above (upd_klog f s) \<Longrightarrow> others t = others s"
  by (simp add: others_def above_upd_klog) (simp add: upd_klog_def)

lemma others_fields:
  assumes "others t = others s"
  shows "mem t = mem s" "icache t = icache s" "sb t = sb s" "disksize t = disksize s" "ftable t = ftable s"
  using arg_cong [OF assms, of mem] arg_cong [OF assms, of icache] arg_cong [OF assms, of sb]
    arg_cong [OF assms, of disksize] arg_cong [OF assms, of ftable]
  by (simp_all add: others_def above_def core_def)

lemma txnD:
  assumes "txn p pd k s"
  shows "buffers p pd {} s" "log_ok s" "pinned s = set (homes s)" "card (pinned s) < NBUF"
    "0 < k \<Longrightarrow> lh_n (lh (klog s)) < LOGSIZE" "0 < k \<Longrightarrow> lh_n (lh (klog s)) < log_size (klog s) - 1" "1 \<le> outstanding (klog s)"
proof -
  have t: "in_txn p pd s" "lh_n (lh (klog s)) + int k < log_size (klog s)" "1 \<le> outstanding (klog s)"
    using assms by (simp_all add: txn_def)
  then show s: "buffers p pd {} s" "log_ok s" "pinned s = set (homes s)" "1 \<le> outstanding (klog s)" by (simp_all add: in_txn_def)
  have g: "log_size (klog s) \<le> LOGSIZE" "0 \<le> lh_n (lh (klog s))" using s(2) by (simp_all add: log_ok_def geometry_def)
  have "card (set (homes s)) \<le> nlog s" using card_length [of "homes s"] by (simp add: homes_def)
  then show "card (pinned s) < NBUF" using g t(2) s(3) by simp
  show "0 < k \<Longrightarrow> lh_n (lh (klog s)) < LOGSIZE" "0 < k \<Longrightarrow> lh_n (lh (klog s)) < log_size (klog s) - 1"
    using g(1) t(2) by simp_all
qed

lemma log_ok_record:
  assumes "log_ok s" "n < disksize s" "n \<notin> log_area s" "lh_n (lh (klog s)) < log_size (klog s) - 1"
  shows "log_ok (upd_klog (record_block n) s)" "set (homes (upd_klog (record_block n) s)) = insert n (set (homes s))"
    "log_area (upd_klog (record_block n) s) = log_area s"
    "lh_n (lh (record_block n (klog s))) \<le> lh_n (lh (klog s)) + 1"
proof -
  let ?t = "upd_klog (record_block n) s"
  have g: "0 \<le> lh_n (lh (klog s))" "nlog s < length (lh_block (lh (klog s)))" "log_size (klog s) \<le> LOGSIZE"
    "length (lh_block (lh (klog s))) = nat LOGSIZE"
    using assms(1,4) by (auto simp: log_ok_def geometry_def)
  note r = record_block_homes [OF g(1,2), of n]
  have f: "log_start (record_block n l) = log_start l" "log_size (record_block n l) = log_size l"
    "log_dev (record_block n l) = log_dev l" "outstanding (record_block n l) = outstanding l" for l
    by (simp_all add: record_block_def Let_def)
  show area: "log_area ?t = log_area s"
    by (simp add: log_area_def log_head_def log_block_def upd_klog_def f)
  show "set (homes ?t) = insert n (set (homes s))" using r(1) by auto
  show "lh_n (lh (record_block n (klog s))) \<le> lh_n (lh (klog s)) + 1" using r(2) by simp
  have "geometry ?t" using assms(1) r(3) by (simp add: log_ok_def geometry_def upd_klog_def f)
  moreover have "distinct (homes ?t)" "\<forall>x\<in>set (homes ?t). x < disksize ?t \<and> x \<notin> log_area ?t"
    using assms(1-3) r(1) area by (auto simp: log_ok_def upd_klog_def)
  ultimately show "log_ok ?t" using assms(4) g(1) r(2) by (simp add: log_ok_def upd_klog_def f)
qed

lemma txn_above:
  assumes "buffers p pd {} t" "pinned t = pinned s" "above t = above s" "txn p pd k s"
  shows "txn p pd k t" "log_area t = log_area s"
proof -
  have k: "klog t = klog s" "disksize t = disksize s" using above_fields(14,17) [OF assms(3)] .
  show "log_area t = log_area s" using log_defs_cong(4) [OF k(1)] .
  show "txn p pd k t"
    using assms log_ok_cong [OF k] log_defs_cong(5) [OF k(1)] by (simp add: txn_def in_txn_def k(1))
qed

lemma txn_record:
  assumes "buffers p pd {} t" "pinned t = insert n (pinned s)" "above t = above (upd_klog (record_block n) s)"
    "txn p pd (Suc k) s" "n < disksize s" "n \<notin> log_area s"
  shows "txn p pd k t" "log_area t = log_area s"
proof -
  let ?u = "upd_klog (record_block n) s"
  have l: "log_ok s" "lh_n (lh (klog s)) < log_size (klog s) - 1" using txnD(2,6) [OF assms(4)] by simp_all
  note r = log_ok_record [OF l(1) assms(5,6) l(2)]
  have k: "klog t = klog ?u" "disksize t = disksize ?u" using above_fields(14,17) [OF assms(3)] .
  show "log_area t = log_area s" using log_defs_cong(4) [OF k(1)] r(3) by simp
  have "in_txn p pd t"
    using assms(1,2) txnD(3) [OF assms(4)] r(1,2) log_ok_cong [OF k] log_defs_cong(5) [OF k(1)] by (simp add: in_txn_def)
  moreover have "outstanding (klog t) = outstanding (klog s)" "log_size (klog t) = log_size (klog s)"
    by (simp_all add: k(1) upd_klog_def record_block_def Let_def)
  moreover have "lh_n (lh (klog t)) \<le> lh_n (lh (klog s)) + 1" using r(4) by (simp add: k(1) upd_klog_def)
  ultimately show "txn p pd k t" using assms(4) by (simp add: txn_def)
qed

text \<open>Opening a block in a transaction; then it is closed again unchanged, or changed through the log
  and closed.\<close>

definition closes :: "nat \<Rightarrow> int \<Rightarrow> nat \<Rightarrow> kst \<Rightarrow> nat \<Rightarrow> kst \<Rightarrow> bool" where
  "closes p pd k s b u \<longleftrightarrow>
     (\<exists>t. brelse b u = Ok () t \<and> txn p pd k t \<and> block t = block s \<and> others t = others s \<and> log_area t = log_area s)"

definition stores :: "nat \<Rightarrow> int \<Rightarrow> nat \<Rightarrow> kst \<Rightarrow> u32 \<Rightarrow> nat \<Rightarrow> kst \<Rightarrow> u8 list \<Rightarrow> bool" where
  "stores p pd k s n b u d \<longleftrightarrow>
     (\<exists>w t. log_write b (set_data b d u) = Ok () w \<and> brelse b w = Ok () t \<and> txn p pd k t \<and>
        block t = (block s)(n := d) \<and> others t = others s \<and> log_area t = log_area s)"

lemma txn_open:
  assumes tx: "txn p pd k s" and n: "n < disksize s"
  obtains b u where "bread E 1 n s = Ok b u" "bdata (bufs u ! b) = block s n" "others u = others s" "closes p pd k s b u"
    "\<And>d j. k = Suc j \<Longrightarrow> n \<notin> log_area s \<Longrightarrow> length d = BSIZE \<Longrightarrow> stores p pd j s n b u d"
proof -
  note x = txnD [OF tx]
  have "n \<in> pinned s \<or> room {} s" using x(1,4) room_if [of "{}" s] by (auto simp: buffers_def)
  then obtain b u where u: "bread E 1 n s = Ok b u" "buffers p pd {b} u" "at u b n"
    "block u = block s" "pinned u = pinned s" "above u = above s" "bdata (bufs u ! b) = block s n"
    using bread_spec [OF x(1) n, of E thesis] by auto
  have "n \<in> pinned u \<or> bdata (bufs u ! b) = disk u n"
    using block_disk [of s n] x(1) u(5,7) above_fields(16) [OF u(6)] by (auto simp: buffers_def)
  then obtain t where t: "brelse b u = Ok () t" "buffers p pd ({b} - {b}) t" "block t = block u" "pinned t = pinned u"
    "above t = above u"
    using brelse_spec [OF u(2) insertI1 u(3), of thesis] by blast
  have t': "buffers p pd {} t" "pinned t = pinned s" "above t = above s" using t u by simp_all
  have "closes p pd k s b u"
    using t(1,3) u(4) txn_above [OF t' tx] others_above [OF t'(3)] by (auto simp: closes_def)
  moreover have "stores p pd j s n b u d" if q: "k = Suc j" "n \<notin> log_area s" "length d = BSIZE" for j d
  proof -
    note v = set_data_spec [OF u(2) insertI1 u(3) q(3)]
    let ?v = "set_data b d u"
    have kl: "klog ?v = klog s" using above_fields(14) [OF u(6)] by (simp add: set_data_def upd_buf_def)
    have "at ?v b n" using v(5) u(3) by simp
    then obtain w where w: "log_write b ?v = Ok () w" "buffers p pd {b} w" "block w = block ?v" "pinned w = insert n (pinned ?v)"
      "above w = above (upd_klog (record_block n) ?v)" "bufs w ! b = (bufs ?v ! b)\<lparr>bflags := 6\<rparr>"
      using log_write_spec [OF v(1) insertI1, of n thesis] x(5-7) q(1) kl by auto
    have "at w b n" "n \<in> pinned w" using w(4,6) v(5) u(3) by simp_all
    then obtain t where t: "brelse b w = Ok () t" "buffers p pd ({b} - {b}) t" "block t = block w" "pinned t = pinned w"
      "above t = above w"
      using brelse_spec [OF w(2) insertI1, of n thesis] by blast
    have a: "above t = above (upd_klog (record_block n) s)" using t(5) w(5) v(4) u(6) by (simp add: above_upd_klog)
    have t': "buffers p pd {} t" "pinned t = insert n (pinned s)" using t w(4) v(3) u(5) by simp_all
    note r = txn_record [OF t' a _ n q(2)]
    show ?thesis
      using w(1,3) t(1,3) v(2) u(4) r [of j] tx q(1) others_klog [OF a] unfolding stores_def by auto
  qed
  ultimately show ?thesis using that u(1,6,7) others_above by blast
qed

text \<open>\<open>bzero\<close>.\<close>

lemma bzero_spec:
  assumes "txn p pd (Suc k) s" "n < disksize s" "n \<notin> log_area s"
  obtains t where "bzero E 1 n s = Ok () t" "txn p pd k t" "block t = (block s)(n := replicate BSIZE 0)"
    "others t = others s" "log_area t = log_area s"
proof -
  obtain b u where "bread E 1 n s = Ok b u" "\<And>d. length d = BSIZE \<Longrightarrow> stores p pd k s n b u d"
    using txn_open [OF assms(1,2), of E thesis] assms(3) by blast
  moreover from this have "stores p pd k s n b u (replicate BSIZE 0)" by simp
  then obtain w t where "log_write b (set_data b (replicate BSIZE 0) u) = Ok () w" "brelse b w = Ok () t"
    "txn p pd k t" "block t = (block s)(n := replicate BSIZE 0)" "others t = others s" "log_area t = log_area s"
    unfolding stores_def by blast
  ultimately show thesis using that [of t] by (simp add: bzero_def Let_def)
qed

section \<open>The bitmap\<close>

text \<open>Whether block \<open>b\<close> is marked in the bitmap.\<close>

definition in_use :: "kst \<Rightarrow> u32 \<Rightarrow> bool" where
  "in_use s b \<longleftrightarrow> \<not> is_clear (block s (BBLOCK b (sb s))) (unat b mod BPB)"

text \<open>The bitmap covers the file system, lies on the disk outside the log, and marks the log and the
  bitmap itself.\<close>

definition bitmap_ok :: "kst \<Rightarrow> bool" where
  "bitmap_ok s \<longleftrightarrow> sb_size (sb s) \<le> disksize s \<and> unat (sb_size (sb s)) + 4096 < 2 ^ 32 \<and>
     (\<forall>b < sb_size (sb s). BBLOCK b (sb s) < disksize s \<and> BBLOCK b (sb s) \<notin> log_area s) \<and>
     (\<forall>b < sb_size (sb s). \<not> in_use s b \<longrightarrow> b \<notin> log_area s \<and> (\<forall>c < sb_size (sb s). b \<noteq> BBLOCK c (sb s)))"

lemma is_clear_bit: "is_clear d j \<longleftrightarrow> \<not> bit (d ! (j div 8)) (j mod 8)"
  by (simp add: is_clear_def bmask_def and_exp_eq_0_iff_not_bit)

lemma is_clear_set:
  assumes "length d = BSIZE" "bi < 4096" "j < 4096"
  shows "is_clear (d[bi div 8 := d ! (bi div 8) OR bmask bi]) j \<longleftrightarrow> j \<noteq> bi \<and> is_clear d j"
proof (cases "j div 8 = bi div 8")
  case True
  have "j mod 8 = bi mod 8 \<Longrightarrow> j = bi" using True by (metis div_mult_mod_eq)
  then show ?thesis using True assms by (auto simp: is_clear_bit bmask_def bit_simps)
next
  case False
  then show ?thesis using assms by (auto simp: is_clear_bit)
qed

lemma takeWhile_upt: "takeWhile (\<lambda>i. i < m) [0..<n] = [0..<min m n]"
  by (induction n) (auto simp: takeWhile_append min_def le_Suc_eq)

lemma first_clear_eq:
  assumes "b < lim" "unat lim + 4096 < 2 ^ 32"
  shows "first_clear d b lim = find (is_clear d) [0..<min (unat lim - unat b) 4096]"
proof -
  have "takeWhile (\<lambda>bi. b + of_nat bi < lim) [0..<BPB] = takeWhile (\<lambda>i. i < unat lim - unat b) [0..<BPB]"
  proof (rule takeWhile_cong [OF refl])
    fix bi assume "bi \<in> set [0..<BPB]"
    then have "unat (b + of_nat bi) = unat b + bi" using assms by (simp add: unat_add_u32 unat_of_nat32 word_less_nat_alt)
    then show "(b + of_nat bi < lim) = (bi < unat lim - unat b)" using assms(1) by (auto simp: word_less_nat_alt)
  qed
  then show ?thesis by (simp add: first_clear_def takeWhile_upt)
qed

lemma find_upt:
  "find P [0..<n] = None \<longleftrightarrow> (\<forall>i<n. \<not> P i)"
  "find P [0..<n] = Some i \<longleftrightarrow> i < n \<and> P i \<and> (\<forall>j<i. \<not> P j)"
  by (auto simp: find_None_iff find_Some_iff)

section \<open>balloc\<close>

lemma BBLOCK_eq: "BBLOCK b v = BBLOCK c v \<longleftrightarrow> unat b div 4096 = unat c div 4096"
proof -
  have "BBLOCK b v = BBLOCK c v \<longleftrightarrow> b div 4096 = c div 4096" by (simp add: BBLOCK_def)
  then show ?thesis by (simp add: word_unat_eq_iff unat_div_distrib)
qed

lemma same_bitmap_block:
  fixes b c :: u32
  assumes "unat b mod 4096 = 0" "unat b \<le> unat c" "unat c < unat b + 4096"
  shows "BBLOCK c v = BBLOCK b v" "unat c mod 4096 = unat c - unat b"
proof -
  obtain q where q: "unat b = 4096 * q" using assms(1) by auto
  then obtain r where "unat c = 4096 * q + r" "r < 4096" using assms(2,3) by (metis add_less_cancel_left le_Suc_ex)
  then show "BBLOCK c v = BBLOCK b v" "unat c mod 4096 = unat c - unat b" using q by (simp_all add: BBLOCK_eq)
qed

text \<open>What \<open>balloc\<close> does in state \<open>s\<close>: it takes the lowest unmarked block, marks it and fills it with zeros;
  no other block changes but the block of the bitmap that holds the mark.\<close>

definition allocated :: "nat \<Rightarrow> int \<Rightarrow> nat \<Rightarrow> kst \<Rightarrow> u32 \<Rightarrow> kst \<Rightarrow> bool" where
  "allocated p pd k s b t \<longleftrightarrow>
     b < sb_size (sb s) \<and> \<not> in_use s b \<and> (\<forall>c<b. in_use s c) \<and>
     (\<forall>c < sb_size (sb s). in_use t c \<longleftrightarrow> c = b \<or> in_use s c) \<and> block t b = replicate BSIZE 0 \<and>
     (\<forall>n. n \<noteq> b \<longrightarrow> n \<noteq> BBLOCK b (sb s) \<longrightarrow> block t n = block s n) \<and>
     txn p pd k t \<and> others t = others s \<and> log_area t = log_area s"

text \<open>The part of the bitmap that \<open>balloc\<close> has searched when its outer loop is at \<open>b\<close>.\<close>

definition searched :: "nat \<Rightarrow> int \<Rightarrow> nat \<Rightarrow> kst \<Rightarrow> u32 \<Rightarrow> kst \<Rightarrow> bool" where
  "searched p pd k s b t \<longleftrightarrow>
     txn p pd k t \<and> block t = block s \<and> others t = others s \<and> log_area t = log_area s \<and>
     unat b mod 4096 = 0 \<and> (\<forall>c < sb_size (sb s). c < b \<longrightarrow> in_use s c)"

lemma mark_block:
  assumes len: "length d = BSIZE" and d: "d = block s (BBLOCK b (sb s))" and ok: "bitmap_ok s" and b: "b < sb_size (sb s)"
    and free: "\<not> in_use s b" and sb: "sb t = sb s"
    and blk: "block t = (block s)(BBLOCK b (sb s) := d[unat b mod 4096 div 8 := d ! (unat b mod 4096 div 8) OR bmask (unat b mod 4096)],
                b := replicate BSIZE 0)"
    and c: "c < sb_size (sb s)"
  shows "in_use t c \<longleftrightarrow> c = b \<or> in_use s c"
proof -
  have "BBLOCK c (sb s) \<noteq> b" using ok b free c by (auto simp: bitmap_ok_def)
  then have t: "block t (BBLOCK c (sb t)) = ((block s)(BBLOCK b (sb s) := d[unat b mod 4096 div 8 := d ! (unat b mod 4096 div 8) OR bmask (unat b mod 4096)])) (BBLOCK c (sb s))"
    by (simp add: blk sb)
  show ?thesis
  proof (cases "unat c div 4096 = unat b div 4096")
    case True
    then have "BBLOCK c (sb s) = BBLOCK b (sb s)" by (simp add: BBLOCK_eq)
    moreover have "unat c mod 4096 = unat b mod 4096 \<longleftrightarrow> c = b" using True by (metis div_mult_mod_eq word_unat_eq_iff)
    ultimately show ?thesis using len unfolding in_use_def t by (simp add: is_clear_set d)
  next
    case False
    then show ?thesis unfolding in_use_def t by (auto simp: BBLOCK_eq)
  qed
qed

lemma balloc_take:
  assumes tx: "txn p pd (Suc (Suc k)) s" and ok: "bitmap_ok s" and b: "b < sb_size (sb s)" "\<not> in_use s b" "\<forall>c<b. in_use s c"
    and c: "BBLOCK b (sb s) = BBLOCK c (sb s)"
  obtains bp u v w t where "bread E 1 (BBLOCK c (sb s)) s = Ok bp u" "bdata (bufs u ! bp) = block s (BBLOCK b (sb s))"
    "log_write bp (set_data bp ((block s (BBLOCK b (sb s)))[unat b mod 4096 div 8 :=
        block s (BBLOCK b (sb s)) ! (unat b mod 4096 div 8) OR bmask (unat b mod 4096)]) u) = Ok () v"
    "brelse bp v = Ok () w" "bzero E 1 b w = Ok () t" "allocated p pd k s b t" "others u = others s"
proof -
  have B: "BBLOCK b (sb s) < disksize s" "BBLOCK b (sb s) \<notin> log_area s" "b < disksize s" "b \<notin> log_area s"
    using ok b(1,2) by (auto simp: bitmap_ok_def)
  have len: "length (block s (BBLOCK b (sb s))) = BSIZE"
    using length_block [of "{}" s] txnD(1) [OF tx] by (simp add: buffers_def)
  obtain bp u where u: "bread E 1 (BBLOCK b (sb s)) s = Ok bp u" "bdata (bufs u ! bp) = block s (BBLOCK b (sb s))"
    "\<And>d. length d = BSIZE \<Longrightarrow> stores p pd (Suc k) s (BBLOCK b (sb s)) bp u d" "others u = others s"
    using txn_open [OF tx B(1), of E thesis] B(2) by blast
  define d where "d = (block s (BBLOCK b (sb s)))[unat b mod 4096 div 8 :=
        block s (BBLOCK b (sb s)) ! (unat b mod 4096 div 8) OR bmask (unat b mod 4096)]"
  have "length d = BSIZE" using len by (simp add: d_def)
  then have "stores p pd (Suc k) s (BBLOCK b (sb s)) bp u d" by (rule u(3))
  then obtain v w where v: "log_write bp (set_data bp d u) = Ok () v" "brelse bp v = Ok () w" "txn p pd (Suc k) w"
     "block w = (block s)(BBLOCK b (sb s) := d)" "others w = others s" "log_area w = log_area s"
    unfolding stores_def by blast
  note f = others_fields [OF v(5)]
  obtain t where t: "bzero E 1 b w = Ok () t" "txn p pd k t" "block t = (block w)(b := replicate BSIZE 0)"
    "others t = others w" "log_area t = log_area w"
    using bzero_spec [OF v(3), of b E thesis] B(3,4) f(4) v(6) by auto
  have blk: "block t = (block s)(BBLOCK b (sb s) := d, b := replicate BSIZE 0)" using t(3) v(4) by simp
  have sb: "sb t = sb s" using others_fields(3) [OF t(4)] f(3) by simp
  have "allocated p pd k s b t"
    using b t(2,4,5) v(5,6) blk mark_block [OF len refl ok b(1,2) sb blk [unfolded d_def]] by (simp add: allocated_def)
  then show thesis using that u(1,2,4) v(1,2) t(1) c by (simp add: d_def)
qed

lemma searched_bitmap:
  assumes "searched p pd k s b t"
  shows "bitmap_ok t = bitmap_ok s" "in_use t c = in_use s c" "sb t = sb s"
proof -
  have t: "block t = block s" "others t = others s" "log_area t = log_area s" using assms by (simp_all add: searched_def)
  note f = others_fields [OF t(2)]
  show "in_use t c = in_use s c" for c by (simp add: in_use_def t f)
  then show "bitmap_ok t = bitmap_ok s" by (simp add: bitmap_ok_def t f)
  show "sb t = sb s" by (rule f)
qed

lemma allocated_searched:
  assumes "searched p pd j s b t" "allocated p pd k t c u"
  shows "allocated p pd k s c u"
  using assms searched_bitmap [OF assms(1)] by (simp add: allocated_def searched_def)

text \<open>A round that finds no free block moves on to the next part of the bitmap.\<close>

lemma searched_next:
  assumes inv: "searched p pd k s b t" and b: "b < sb_size (sb s)" "unat (sb_size (sb s)) + 4096 < 2 ^ 32"
    and none: "first_clear (block s (BBLOCK b (sb s))) b (sb_size (sb s)) = None"
    and t: "txn p pd k u" "block u = block t" "others u = others t" "log_area u = log_area t"
  shows "searched p pd k s (b + 4096) u" "unat (b + 4096) = unat b + 4096"
proof -
  have m: "unat b mod 4096 = 0" using inv by (simp add: searched_def)
  show n: "unat (b + 4096) = unat b + 4096" using b by (simp add: unat_add_u32 word_less_nat_alt)
  have "in_use s c" if c: "c < sb_size (sb s)" "c < b + 4096" "\<not> c < b" for c
  proof -
    have r: "unat b \<le> unat c" "unat c < unat b + 4096" "unat c < unat (sb_size (sb s))"
      using c n by (simp_all add: word_less_nat_alt)
    then have "unat c - unat b < min (unat (sb_size (sb s)) - unat b) 4096" by arith
    then have "\<not> is_clear (block s (BBLOCK b (sb s))) (unat c - unat b)"
      using none by (simp add: first_clear_eq [OF b] find_upt)
    then show ?thesis using same_bitmap_block [OF m r(1,2)] by (simp add: in_use_def)
  qed
  moreover have "(unat b + 4096) mod 4096 = 0" using m by simp
  ultimately show "searched p pd k s (b + 4096) u" using inv t n by (simp add: searched_def) blast
qed

lemma first_clear_lowest:
  assumes inv: "searched p pd k s b t" and b: "b < sb_size (sb s)" "unat (sb_size (sb s)) + 4096 < 2 ^ 32"
    and some: "first_clear (block s (BBLOCK b (sb s))) b (sb_size (sb s)) = Some bi"
  shows "b + of_nat bi < sb_size (sb s)" "\<not> in_use s (b + of_nat bi)" "\<forall>c < b + of_nat bi. in_use s c"
    "BBLOCK (b + of_nat bi) (sb s) = BBLOCK b (sb s)" "unat (b + of_nat bi) mod 4096 = bi"
proof -
  have m: "unat b mod 4096 = 0" using inv by (simp add: searched_def)
  have f: "bi < unat (sb_size (sb s)) - unat b" "bi < 4096" "is_clear (block s (BBLOCK b (sb s))) bi"
    "\<forall>j<bi. \<not> is_clear (block s (BBLOCK b (sb s))) j"
    using some by (simp_all add: first_clear_eq [OF b] find_upt)
  have n: "unat (b + of_nat bi) = unat b + bi"
    using b f(2) by (simp add: unat_add_u32 unat_of_nat32 word_less_nat_alt)
  show lt: "b + of_nat bi < sb_size (sb s)" using f(1) n by (simp add: word_less_nat_alt)
  show B: "BBLOCK (b + of_nat bi) (sb s) = BBLOCK b (sb s)" "unat (b + of_nat bi) mod 4096 = bi"
    using same_bitmap_block [OF m, of "b + of_nat bi"] n f(2) by simp_all
  then show "\<not> in_use s (b + of_nat bi)" using f(3) by (simp add: in_use_def)
  show "\<forall>c < b + of_nat bi. in_use s c"
  proof (intro allI impI)
    fix c assume c: "c < b + of_nat bi"
    show "in_use s c"
    proof (cases "c < b")
      case True
      then show ?thesis using inv c lt by (meson less_trans searched_def)
    next
      case False
      then have r: "unat b \<le> unat c" "unat c < unat b + 4096" "unat c - unat b < bi"
        using c n f(2) by (simp_all add: word_less_nat_alt)
      then show ?thesis using same_bitmap_block [OF m r(1,2)] f(4) by (simp add: in_use_def)
    qed
  qed
qed

lemma balloc_round:
  fixes E :: env
  assumes ok: "bitmap_ok s" and inv: "searched p pd (Suc (Suc k)) s b t"
  defines "body \<equiv> \<lambda>b s.
       if b < sb_size (sb s)
       then bnd (bread E 1 (BBLOCK b (sb s)) s) (\<lambda>bp s.
              let d = bdata (bufs s ! bp)
              in case first_clear d b (sb_size (sb s)) of
                   Some bi \<Rightarrow>
                     (let s = set_data bp (d[bi div 8 := d ! (bi div 8) OR bmask bi]) s
                      in seq (log_write bp s) (\<lambda>s.
                         seq (brelse bp s) (\<lambda>s.
                         seq (bzero E 1 (b + of_nat bi) s) (Ok (Inr (b + of_nat bi))))))
                 | None \<Rightarrow> seq (brelse bp s) (Ok (Inl (b + of_nat BPB))))
       else Panic ''balloc: out of blocks''"
  shows "round_ok (\<lambda>b' t'. searched p pd (Suc (Suc k)) s b' t' \<and>
            unat (sb_size (sb s)) + 4096 - unat b' < unat (sb_size (sb s)) + 4096 - unat b)
          (\<lambda>r. (\<exists>b t. r = Ok b t \<and> allocated p pd k s b t) \<or>
               (\<forall>b < sb_size (sb s). in_use s b) \<and> r = Panic ''balloc: out of blocks'') (body b t)"
proof (cases "b < sb_size (sb s)")
  case b: True
  have tx: "txn p pd (Suc (Suc k)) t" "block t = block s" "others t = others s" using inv by (simp_all add: searched_def)
  note sb = searched_bitmap [OF inv]
  have size: "unat (sb_size (sb s)) + 4096 < 2 ^ 32" using ok by (simp add: bitmap_ok_def)
  show ?thesis
  proof (cases "first_clear (block s (BBLOCK b (sb s))) b (sb_size (sb s))")
    case None
    have "BBLOCK b (sb t) < disksize t" using ok b sb(1,3) by (simp add: bitmap_ok_def)
    then obtain bp u where u: "bread E 1 (BBLOCK b (sb t)) t = Ok bp u" "bdata (bufs u ! bp) = block t (BBLOCK b (sb t))"
       "others u = others t" "closes p pd (Suc (Suc k)) t bp u"
      using txn_open [OF tx(1), of _ E thesis] by blast
    then obtain w where w: "brelse bp u = Ok () w" "txn p pd (Suc (Suc k)) w" "block w = block t" "others w = others t"
      "log_area w = log_area t" by (auto simp: closes_def)
    have "body b t = Ok (Inl (b + 4096)) w"
      using b None u(1,2) w(1) sb(3) tx(2) others_fields(3) [OF u(3)] by (simp add: body_def Let_def)
    then show ?thesis using searched_next [OF inv b size None w(2-5)] b by (simp add: word_less_nat_alt)
  next
    case (Some bi)
    note l = first_clear_lowest [OF inv b size Some]
    obtain bp u v w x where u: "bread E 1 (BBLOCK b (sb t)) t = Ok bp u"
       "bdata (bufs u ! bp) = block t (BBLOCK (b + of_nat bi) (sb t))" "log_write bp (set_data bp ((block t (BBLOCK (b + of_nat bi) (sb t)))
           [unat (b + of_nat bi) mod 4096 div 8 := block t (BBLOCK (b + of_nat bi) (sb t)) !
             (unat (b + of_nat bi) mod 4096 div 8) OR bmask (unat (b + of_nat bi) mod 4096)]) u) = Ok () v"
       "brelse bp v = Ok () w" "bzero E 1 (b + of_nat bi) w = Ok () x" "allocated p pd k t (b + of_nat bi) x" "others u = others t"
      using balloc_take [OF tx(1), of "b + of_nat bi" b E thesis] ok sb l by simp
    have "body b t = Ok (Inr (b + of_nat bi)) x"
      using b Some u(1-5) sb(3) tx(2) l(4,5) others_fields(3) [OF u(7)] by (simp add: body_def Let_def)
    then show ?thesis using allocated_searched [OF inv u(6)] by simp
  qed
next
  case False
  then have "\<forall>c < sb_size (sb s). in_use s c" using inv by (auto simp: searched_def)
  then show ?thesis using False searched_bitmap(3) [OF inv] by (simp add: body_def)
qed

lemma balloc_spec:
  assumes "txn p pd (Suc (Suc k)) s" "bitmap_ok s"
  shows "(\<exists>b t. balloc E 1 s = Ok b t \<and> allocated p pd k s b t) \<or>
    (\<forall>b < sb_size (sb s). in_use s b) \<and> balloc E 1 s = Panic ''balloc: out of blocks''"
  unfolding balloc_def
  by (rule loop_with_rule [where I = "searched p pd (Suc (Suc k)) s" and f = "\<lambda>b t. unat (sb_size (sb s)) + 4096 - unat b"])
    (use assms balloc_round [OF assms(2)] in \<open>auto simp: searched_def\<close>)

text \<open>C5: the block allocator. Inside a transaction with room for two more log entries, \<open>balloc\<close> ends. If a block of the file
  system is not marked in the bitmap, \<open>balloc\<close> returns the lowest such block, and then exactly that block is marked
  in addition, it is filled with zeros, no block changes but it and the block of the bitmap that holds its mark, and the
  transaction is still open with the log grown by at most two. If every block is marked it panics.\<close>

theorem balloc_lowest_free:
  assumes "txn p pd (Suc (Suc k)) s" "bitmap_ok s"
  shows "if \<exists>b < sb_size (sb s). \<not> in_use s b
    then \<exists>b t. balloc E 1 s = Ok b t \<and> b < sb_size (sb s) \<and> \<not> in_use s b \<and> (\<forall>c<b. in_use s c) \<and>
       (\<forall>c < sb_size (sb s). in_use t c \<longleftrightarrow> c = b \<or> in_use s c) \<and> block t b = replicate BSIZE 0 \<and>
       (\<forall>n. n \<noteq> b \<longrightarrow> n \<noteq> BBLOCK b (sb s) \<longrightarrow> block t n = block s n) \<and> txn p pd k t
    else balloc E 1 s = Panic ''balloc: out of blocks''"
  using balloc_spec [OF assms, of E] by (auto simp: allocated_def)

section \<open>A concrete file system\<close>

text \<open>A state inside a transaction on the disk \<open>D\<close>, with the given superblock and inode cache; and the
  superblock that mkfs writes for 1000 blocks: log in the blocks 2 to 31, inodes in the blocks 32 to 57, bitmap in block 58.\<close>

definition fs_boot :: "(u32 \<Rightarrow> u8 list) \<Rightarrow> superblock \<Rightarrow> inode list \<Rightarrow> kst" where
  "fs_boot D v ip = (log_boot D)\<lparr>sb := v, icache := ip\<rparr>"

definition sb1000 :: superblock where
  "sb1000 = \<lparr>sb_size = 1000, sb_nblocks = 941, sb_ninodes = 200, sb_nlog = 30, sb_logstart = 2, sb_inodestart = 32, sb_bmapstart = 58\<rparr>"

definition map59 :: "u8 list" where
  "map59 = replicate 7 255 @ [7] @ replicate 504 0"

lemma fs_boot_log:
  "x \<in> log_area (fs_boot D v ip) \<Longrightarrow> x < 32" "log_size (klog (fs_boot D v ip)) = 30"
  "lh_n (lh (klog (fs_boot D v ip))) = 0"
proof -
  let ?t = "fs_boot D v ip"
  have k: "log_start (klog ?t) = 2" "log_size (klog ?t) = 30" "lh_n (lh (klog ?t)) = 0"
    using above_fields(14) [OF above_binit, of "kst0\<lparr>disk := D\<rparr>"]
    by (simp_all add: fs_boot_def log_boot_def upd_klog_def) (simp add: kst0_def)
  then show "log_size (klog ?t) = 30" "lh_n (lh (klog ?t)) = 0" by simp_all
  have "log_block ?t j < 32" if "int j < 29" for j
  proof -
    have "uint (log_block ?t j) = int j + 3"
      unfolding log_block_def k by (subst uint_word_of_int32) (use that in simp_all)
    then show ?thesis using that by (simp add: word_less_def)
  qed
  then show "x < 32" if "x \<in> log_area ?t" using that by (auto simp: log_area_def log_head_def k)
qed

lemma fs_boot_txn:
  assumes "\<And>n. length (D n) = BSIZE"
  shows "txn 0 0 29 (fs_boot D v ip)" "block (fs_boot D v ip) = D" "disksize (fs_boot D v ip) = 1000"
proof -
  let ?s = "log_boot D" let ?t = "fs_boot D v ip"
  note b = log_boot_facts [OF assms]
  have k: "klog ?t = klog ?s" "bufs ?t = bufs ?s" "disk ?t = disk ?s" "disksize ?t = disksize ?s" "slocks ?t = slocks ?s"
    by (simp_all add: fs_boot_def)
  have q: "quiet 0 0 ?t" using b(1) by (simp add: buffers_def quiet_def lock_free_def fs_boot_def)
  have c: "bcache_ok {} ?t" using b(1)
    by (simp add: buffers_def bcache_ok_def links_ok_def buf_ok_def buf_held_def buf_free_def k)
  have p: "pinned ?t = {}" using b(2) by (simp add: pinned_def cached_def k)
  have "block ?t n = D n" for n using block_disk [OF c, of n] p b(4) k(3) by simp
  then show "block ?t = D" by blast
  show "disksize ?t = 1000" using b(5) k(4) by simp
  have "homes ?t = []" by (simp add: homes_def fs_boot_log)
  moreover from this have "log_ok ?t" using b(3,5) k(1,4) by (simp add: log_ok_def geometry_def kst0_def)
  moreover have "outstanding (klog ?t) = 1" "log_size (klog ?t) = 30" "lh_n (lh (klog ?t)) = 0"
    using b(3) k(1) by (simp_all add: kst0_def)
  ultimately show "txn 0 0 29 ?t" using q c p by (simp add: txn_def in_txn_def buffers_def)
qed

lemma map59_clear: "j < 4096 \<Longrightarrow> is_clear map59 j \<longleftrightarrow> 59 \<le> j"
proof -
  assume j: "j < 4096"
  have b: "bit (255 :: u8) k" "bit (7 :: u8) k \<longleftrightarrow> k < 3" if "k < 8" for k
    using that by (simp_all add: numeral_eq_Suc less_Suc_eq) (auto simp: bit_simps)
  consider "j div 8 < 7" | "j div 8 = 7" | "8 \<le> j div 8" by linarith
  then show ?thesis
  proof cases
    case 1
    then show ?thesis using b(1) [of "j mod 8"] by (simp add: is_clear_bit map59_def nth_append)
  next
    case 2
    then have "j = 56 + j mod 8" using div_mult_mod_eq [of j 8] by simp
    then show ?thesis using 2 b(2) [of "j mod 8"] by (simp add: is_clear_bit map59_def nth_append) presburger
  next
    case 3
    then show ?thesis using j by (simp add: is_clear_bit map59_def nth_append)
  qed
qed

lemma fs_boot_bitmap:
  assumes "\<And>n. length (D n) = BSIZE" "D 58 = map59"
  shows "bitmap_ok (fs_boot D sb1000 ip)" "b < 1000 \<Longrightarrow> in_use (fs_boot D sb1000 ip) b \<longleftrightarrow> b < 59"
proof -
  let ?t = "fs_boot D sb1000 ip"
  have sb: "sb ?t = sb1000" by (simp add: fs_boot_def)
  have B: "BBLOCK b sb1000 = 58" if "b < 1000" for b
  proof -
    have "b div 4096 = 0" using that by (simp add: word_unat_eq_iff unat_div_distrib word_less_nat_alt)
    then show ?thesis by (simp add: BBLOCK_def sb1000_def)
  qed
  show u: "in_use ?t b \<longleftrightarrow> b < 59" if "b < 1000" for b
    using that B [OF that] map59_clear [of "unat b"] fs_boot_txn(2) [of D sb1000 ip, OF assms(1)] assms(2)
    by (auto simp: in_use_def sb word_less_nat_alt)
  have size: "sb_size sb1000 = 1000" by (simp add: sb1000_def)
  have "58 \<notin> log_area ?t" using fs_boot_log(1) [of 58 D sb1000 ip] by auto
  moreover have "b \<notin> log_area ?t" if "\<not> b < 59" for b
    using that fs_boot_log(1) [of b D sb1000 ip] less_trans [of b 32 59] by auto
  ultimately show "bitmap_ok ?t"
    using u B fs_boot_txn(3) [of D sb1000 ip, OF assms(1)] by (auto simp: bitmap_ok_def size sb)
qed

theorem balloc_lowest_free_witness:
  "\<exists>t. balloc (\<lambda>_ s. s) 1 (fs_boot (blank(58 := map59)) sb1000 []) = Ok 59 t \<and> in_use t 59 \<and> \<not> in_use t 60 \<and>
     block t 59 = replicate BSIZE 0"
proof -
  let ?D = "blank(58 := map59)" let ?s = "fs_boot ?D sb1000 []"
  have D: "length (?D n) = BSIZE" "?D 58 = map59" for n by (simp_all add: map59_def)
  have "txn 0 0 29 ?s" by (rule fs_boot_txn) (use D in simp)
  then have tx: "txn 0 0 (Suc (Suc 27)) ?s" by simp
  note m = fs_boot_bitmap [of ?D, where ip = "[]", OF D]
  have size: "sb_size (sb ?s) = 1000" by (simp add: fs_boot_def sb1000_def)
  have e: "\<exists>b < sb_size (sb ?s). \<not> in_use ?s b" using m(2) [of 59] by (intro exI [of _ 59]) (simp add: size)
  obtain b t where t: "balloc (\<lambda>_ s. s) 1 ?s = Ok b t" "b < 1000" "\<not> in_use ?s b" "\<forall>c<b. in_use ?s c"
     "\<forall>c<1000. in_use t c \<longleftrightarrow> c = b \<or> in_use ?s c" "block t b = replicate BSIZE 0"
    using balloc_lowest_free [OF tx m(1), of "\<lambda>_ s. s"] unfolding if_P [OF e] unfolding size by blast
  have "\<not> 59 < b" using t(4) m(2) [of 59] by auto
  moreover have "\<not> b < 59" using t(2,3) m(2) by blast
  ultimately have "b = 59" by simp
  then show ?thesis using t(1,5,6) m(2) [of 60] by auto
qed

end
