(* ===== verification/Fs_Files.thy ===== *)
theory Fs_Files
  imports Fs_Blocks
begin

unbundle bit_operations_syntax

text \<open>
  Correctness of the inode content layer of fs.c: the bytes of a file as a list, reading a part of it
  (\<open>readi\<close>), overwriting a part of it (\<open>writei\<close>), and the on-disk inode (\<open>iupdate\<close>, \<open>ilock\<close>).
\<close>

lemma unat_lt_pow32: "unat (x :: u32) < 2 ^ 32"
  by simp

lemma sint_small:
  assumes "unat (x :: u32) < 2 ^ 31"
  shows "sint x = int (unat x)"
proof -
  have "int (unat x) < 2 ^ 31" using iffD2 [OF of_nat_less_iff [where 'a = int] assms] by simp
  then have "sint (word_of_int (int (unat x)) :: u32) = int (unat x)" by (intro sint_word_of_int32) (linarith, simp)
  then show ?thesis by simp
qed

section \<open>Reading a block\<close>

lemma mem_irrelevant:
  "buffers p pd H (s\<lparr>mem := m\<rparr>) = buffers p pd H s" "block (s\<lparr>mem := m\<rparr>) = block s" "pinned (s\<lparr>mem := m\<rparr>) = pinned s"
  "at (s\<lparr>mem := m\<rparr>) b n = at s b n" "above (s\<lparr>mem := m\<rparr>) = (above s)\<lparr>mem := m\<rparr>"
  by (simp_all add: buffers_def quiet_def lock_free_def bcache_ok_def links_ok_def buf_ok_def buf_held_def buf_free_def
    block_def pinned_def cached_def above_def core_upd fun_eq_iff cong: option.case_cong)

lemma in_txn_above:
  assumes "buffers p pd {} t" "pinned t = pinned s" "klog t = klog s" "disksize t = disksize s" "in_txn p pd s"
  shows "in_txn p pd t"
  using assms log_ok_cong [OF assms(3,4)] log_defs_cong(5) [OF assms(3)] by (simp add: in_txn_def)

lemma in_txn_card:
  assumes "in_txn p pd s"
  shows "card (pinned s) < NBUF"
proof -
  have "log_ok s" "pinned s = set (homes s)" using assms by (simp_all add: in_txn_def)
  moreover have "card (set (homes s)) \<le> nlog s" using card_length [of "homes s"] by (simp add: homes_def)
  ultimately show ?thesis by (auto simp: log_ok_def geometry_def)
qed

lemma ready_open:
  assumes tx: "in_txn p pd s" and n: "n < disksize s"
  obtains b u where "bread E 1 n s = Ok b u" "bdata (bufs u ! b) = block s n" "above u = above s"
    "\<And>m. \<exists>t. brelse b (u\<lparr>mem := m\<rparr>) = Ok () t \<and> in_txn p pd t \<and> block t = block s \<and> above t = (above s)\<lparr>mem := m\<rparr>"
proof -
  have x: "buffers p pd {} s" "card (pinned s) < NBUF" using tx in_txn_card by (simp_all add: in_txn_def)
  have "n \<in> pinned s \<or> room {} s" using x room_if [of "{}" s] by (auto simp: buffers_def)
  then obtain b u where u: "bread E 1 n s = Ok b u" "buffers p pd {b} u" "at u b n"
    "block u = block s" "pinned u = pinned s" "above u = above s" "bdata (bufs u ! b) = block s n"
    using bread_spec [OF x(1) n, of E thesis] by auto
  note f = above_fields [OF u(6)]
  have c: "n \<in> pinned u \<or> bdata (bufs u ! b) = disk u n"
    using block_disk [of s n] x(1) u(5,7) f(16) by (auto simp: buffers_def)
  have "\<exists>t. brelse b (u\<lparr>mem := m\<rparr>) = Ok () t \<and> in_txn p pd t \<and> block t = block s \<and> above t = (above s)\<lparr>mem := m\<rparr>" for m
  proof -
    obtain t where t: "brelse b (u\<lparr>mem := m\<rparr>) = Ok () t" "buffers p pd ({b} - {b}) t" "block t = block u" "pinned t = pinned u"
      "above t = above (u\<lparr>mem := m\<rparr>)"
      using brelse_spec [of p pd "{b}" "u\<lparr>mem := m\<rparr>" b n thesis] u(2,3) c by (auto simp: mem_irrelevant)
    have "klog t = klog s" "disksize t = disksize s"
      using above_fields(14,17) [OF t(5)] f(14,17) by simp_all
    moreover have "buffers p pd {} t" "pinned t = pinned s" using t(2,4) u(5) by simp_all
    ultimately have "in_txn p pd t" using tx in_txn_above by blast
    then show ?thesis using t u(4,6) by (simp add: mem_irrelevant)
  qed
  then show thesis using that u(1,6,7) by blast
qed

section \<open>The contents of a file\<close>

text \<open>The disk block that holds part \<open>k\<close> of the file, its bytes, and the file as a list.\<close>

definition fblock :: "kst \<Rightarrow> nat \<Rightarrow> nat \<Rightarrow> u32" where
  "fblock s ip k = (if k < NDIRECT then addrs (ino s ip) ! k
     else get32 (block s (addrs (ino s ip) ! NDIRECT)) (4 * (k - NDIRECT)))"

definition file_byte :: "kst \<Rightarrow> nat \<Rightarrow> nat \<Rightarrow> u8" where
  "file_byte s ip i = block s (fblock s ip (i div BSIZE)) ! (i mod BSIZE)"

definition contents :: "kst \<Rightarrow> nat \<Rightarrow> u8 list" where
  "contents s ip = map (file_byte s ip) [0..<unat (isize (ino s ip))]"

lemma length_contents: "length (contents s ip) = unat (isize (ino s ip))"
  by (simp add: contents_def)

text \<open>The blocks of a file that has them all: they are on the disk and outside the log.\<close>

definition usable :: "kst \<Rightarrow> u32 \<Rightarrow> bool" where
  "usable s a \<longleftrightarrow> a \<noteq> 0 \<and> a < disksize s \<and> a \<notin> log_area s"

definition file_ok :: "kst \<Rightarrow> nat \<Rightarrow> bool" where
  "file_ok s ip \<longleftrightarrow> ip < length (icache s) \<and> i_dev (ino s ip) = 1 \<and> itype (ino s ip) \<noteq> T_DEV \<and>
     unat (isize (ino s ip)) \<le> MAXFILE * BSIZE \<and>
     (\<forall>k. k * BSIZE < unat (isize (ino s ip)) \<longrightarrow> usable s (fblock s ip k)) \<and>
     (NDIRECT * BSIZE < unat (isize (ino s ip)) \<longrightarrow> usable s (addrs (ino s ip) ! NDIRECT))"

lemma bmap_allocated:
  assumes tx: "in_txn p pd s" and ok: "file_ok s ip" and k: "unat bn * BSIZE < unat (isize (ino s ip))"
  obtains t where "bmap E ip bn s = Ok (fblock s ip (unat bn)) t" "in_txn p pd t" "block t = block s" "above t = above s"
proof (cases "bn < of_nat NDIRECT")
  case True
  then have "unat bn < NDIRECT" by (simp add: word_less_nat_alt)
  then show thesis using that [of s] True assms by (auto simp: bmap_def fblock_def file_ok_def usable_def Let_def)
next
  case False
  define j where "j = unat bn - NDIRECT"
  have b: "NDIRECT \<le> unat bn" "unat bn < MAXFILE" using False k ok by (auto simp: word_less_nat_alt file_ok_def)
  have j: "unat (bn - of_nat NDIRECT) = j" using False by (simp add: j_def unat_sub word_le_nat_alt word_less_nat_alt)
  let ?a = "addrs (ino s ip) ! NDIRECT"
  have u: "usable s ?a" "usable s (fblock s ip (unat bn))" "i_dev (ino s ip) = 1" using ok k b(1) by (auto simp: file_ok_def)
  have f: "fblock s ip (unat bn) = get32 (block s ?a) (4 * j)" using b(1) by (simp add: fblock_def j_def)
  have "?a < disksize s" using u(1) by (simp add: usable_def)
  from ready_open [OF tx this] obtain bp v where v: "bread E 1 ?a s = Ok bp v" "bdata (bufs v ! bp) = block s ?a" "above v = above s"
    and c: "\<And>m. \<exists>t. brelse bp (v\<lparr>mem := m\<rparr>) = Ok () t \<and> in_txn p pd t \<and> block t = block s \<and> above t = (above s)\<lparr>mem := m\<rparr>"
    by blast
  obtain t where t: "brelse bp v = Ok () t" "in_txn p pd t" "block t = block s" "above t = (above s)\<lparr>mem := mem v\<rparr>"
    using c [of "mem v"] by auto
  have "above t = above s" using t(4) above_fields(3) [OF v(3)] by (simp add: mem_irrelevant(5) [symmetric])
  moreover have "bn - of_nat NDIRECT < of_nat NINDIRECT" using j b by (simp add: word_less_nat_alt j_def)
  ultimately show thesis
    using that [of t] False u f v t(1-3) j by (simp add: bmap_def usable_def Let_def)
qed

section \<open>readi\<close>

text \<open>The memory after \<open>bs\<close> was copied to the destination \<open>d\<close>.\<close>

definition copied :: "dst \<Rightarrow> memory \<Rightarrow> u8 list \<Rightarrow> memory" where
  "copied d m bs = (case d of ToKernel a \<Rightarrow> store_bytes m a bs | _ \<Rightarrow> m)"

abbreviation in_kernel :: "dst \<Rightarrow> bool" where "in_kernel d \<equiv> \<forall>a. d \<noteq> ToUser a"

lemma copy_to_kernel:
  assumes "in_kernel d" "mem s = copied d m acc" "tot = of_nat (length acc)"
  shows "copy_to d tot bs s = Ok () (s\<lparr>mem := copied d m (acc @ bs)\<rparr>)"
  using assms by (cases d) (auto simp: copy_to_def copied_def store_bytes_append)

lemma file_cong:
  assumes "block t = block s" "icache t = icache s" "disksize t = disksize s" "log_area t = log_area s"
  shows "fblock t ip = fblock s ip" "file_byte t ip = file_byte s ip" "contents t ip = contents s ip" "file_ok t ip = file_ok s ip"
proof -
  show f: "fblock t ip = fblock s ip" by (simp add: fblock_def assms fun_eq_iff)
  then show "file_byte t ip = file_byte s ip" by (simp add: file_byte_def assms fun_eq_iff)
  then show "contents t ip = contents s ip" by (simp add: contents_def assms)
  show "file_ok t ip = file_ok s ip" by (simp add: file_ok_def usable_def f assms)
qed

lemma block_slice:
  assumes "length (block s (fblock s ip (i div BSIZE))) = BSIZE" "i mod BSIZE + m \<le> BSIZE"
  shows "get_bytes (block s (fblock s ip (i div BSIZE))) (i mod BSIZE) m = map (file_byte s ip) [i..<i + m]"
proof (rule nth_equalityI)
  fix j assume "j < length (get_bytes (block s (fblock s ip (i div BSIZE))) (i mod BSIZE) m)"
  then have j: "j < m" by (simp add: get_bytes_def)
  define q r where qr: "q = i div BSIZE" "r = i mod BSIZE"
  define x where "x = r + j"
  have "i + j = x + BSIZE * q" by (simp add: x_def qr)
  moreover have "x < BSIZE" using j assms(2) by (simp add: x_def qr)
  ultimately have "(i + j) div BSIZE = q" "(i + j) mod BSIZE = r + j" by (simp_all add: x_def [symmetric])
  then show "get_bytes (block s (fblock s ip (i div BSIZE))) (i mod BSIZE) m ! j = map (file_byte s ip) [i..<i + m] ! j"
    using j assms by (simp add: get_bytes_def file_byte_def qr)
qed (use assms in simp)

text \<open>The number of bytes one round handles.\<close>

lemma round_size:
  fixes n tot off :: u32
  assumes "tot < n"
  defines "m \<equiv> min (n - tot) (bsize - off mod bsize)"
  shows "unat m = min (unat n - unat tot) (BSIZE - unat off mod BSIZE)" "0 < m" "unat off mod BSIZE + unat m \<le> BSIZE"
    "unat (tot + m) = unat tot + unat m" "unat tot + unat m \<le> unat n"
proof -
  have o: "unat (off mod bsize) = unat off mod BSIZE" by (simp add: unat_mod_distrib)
  have lt: "unat off mod BSIZE < BSIZE" by simp
  have a: "unat (bsize - off mod bsize) = BSIZE - unat off mod BSIZE"
    using o lt by (subst unat_sub) (simp_all add: word_le_nat_alt)
  have b: "unat (n - tot) = unat n - unat tot" using assms(1) by (simp add: unat_sub word_less_nat_alt word_le_nat_alt)
  show m: "unat m = min (unat n - unat tot) (BSIZE - unat off mod BSIZE)"
    using a b by (auto simp: m_def min_def word_le_nat_alt)
  have "0 < unat m" using m lt assms(1) by (simp add: word_less_nat_alt)
  then show "0 < m" by (simp add: word_less_nat_alt)
  show "unat off mod BSIZE + unat m \<le> BSIZE" using m lt by linarith
  have "unat tot < unat n" using assms(1) by (simp add: word_less_nat_alt)
  then show le: "unat tot + unat m \<le> unat n" using m by linarith
  then show "unat (tot + m) = unat tot + unat m"
    using unat_lt_pow32 [of n] by (intro unat_add_u32) linarith
qed

text \<open>The state of \<open>readi\<close> after some rounds.\<close>

definition reading :: "nat \<Rightarrow> int \<Rightarrow> kst \<Rightarrow> nat \<Rightarrow> dst \<Rightarrow> u32 \<Rightarrow> u32 \<Rightarrow> u32 \<times> u32 \<times> u8 list \<Rightarrow> kst \<Rightarrow> bool" where
  "reading p pd s ip d off n l t \<longleftrightarrow> (case l of (tot, o', acc) \<Rightarrow>
     in_txn p pd t \<and> block t = block s \<and> above t = (above s)\<lparr>mem := copied d (mem s) acc\<rparr> \<and>
     tot \<le> n \<and> o' = off + tot \<and> acc = map (file_byte s ip) [unat off..<unat off + unat tot])"

lemma above_mem_fields:
  assumes "above t = (above s)\<lparr>mem := m\<rparr>"
  shows "icache t = icache s" "disksize t = disksize s" "klog t = klog s" "mem t = m" "sb t = sb s"
  using above_fields(3,13,14,15,17) [of t "s\<lparr>mem := m\<rparr>"] assms by (simp_all add: mem_irrelevant)

lemma readi_round:
  assumes ok: "file_ok s ip" and d: "in_kernel d" and n: "unat off + unat n \<le> unat (isize (ino s ip))"
    and inv: "reading p pd s ip d off n (tot, o', acc) t" and lt: "tot < n"
  obtains a bp u v w x where "bmap E ip (o' div bsize) t = Ok a u" "bread E (i_dev (ino u ip)) a u = Ok bp v"
    "copy_to d tot (get_bytes (bdata (bufs v ! bp)) (unat (o' mod bsize)) (unat (min (n - tot) (bsize - o' mod bsize)))) v = Ok () w"
    "brelse bp w = Ok () x"
    "reading p pd s ip d off n (tot + min (n - tot) (bsize - o' mod bsize), o' + min (n - tot) (bsize - o' mod bsize),
       acc @ get_bytes (bdata (bufs v ! bp)) (unat (o' mod bsize)) (unat (min (n - tot) (bsize - o' mod bsize)))) x"
proof -
  define m where "m = min (n - tot) (bsize - o' mod bsize)"
  note ms = round_size [OF lt, of o', folded m_def]
  have tx: "in_txn p pd t" "block t = block s" "above t = (above s)\<lparr>mem := copied d (mem s) acc\<rparr>"
    and o': "o' = off + tot" and acc: "acc = map (file_byte s ip) [unat off..<unat off + unat tot]"
    using inv by (simp_all add: reading_def)
  have uo: "unat o' = unat off + unat tot"
    unfolding o'
  proof (rule unat_add_u32)
    have "unat tot < unat n" using lt by (simp add: word_less_nat_alt)
    then show "unat off + unat tot < 2 ^ 32" using n unat_lt_pow32 [of "isize (ino s ip)"] by linarith
  qed
  note f = above_mem_fields [OF tx(3)]
  have la: "log_area t = log_area s" using log_defs_cong(4) [OF f(3)] .
  note fc = file_cong [OF tx(2) f(1,2) la]
  have k: "unat (o' div bsize) = unat o' div BSIZE" "unat (o' mod bsize) = unat o' mod BSIZE"
    by (simp_all add: unat_div_distrib unat_mod_distrib)
  have in_file: "unat o' < unat (isize (ino s ip))" using uo n lt by (simp add: word_less_nat_alt)
  have kb: "unat (o' div bsize) * BSIZE < unat (isize (ino t ip))"
    using in_file div_times_less_eq_dividend [of "unat o'" BSIZE] by (simp add: k f)
  obtain u where u: "bmap E ip (o' div bsize) t = Ok (fblock t ip (unat o' div BSIZE)) u" "in_txn p pd u" "block u = block t"
      "above u = above t"
    using bmap_allocated [OF tx(1) _ kb, of E thesis] ok fc(4) k(1) by auto
  define a where "a = fblock s ip (unat o' div BSIZE)"
  have au: "above u = (above s)\<lparr>mem := copied d (mem s) acc\<rparr>" using u(4) tx(3) by simp
  note fu = above_mem_fields [OF au]
  have a: "usable s a" using ok kb by (simp add: file_ok_def a_def k f)
  then have "a < disksize u" using fu(2) by (simp add: usable_def)
  then obtain bp v where v: "bread E 1 a u = Ok bp v" "bdata (bufs v ! bp) = block u a" "above v = above u"
    "\<And>m. \<exists>t. brelse bp (v\<lparr>mem := m\<rparr>) = Ok () t \<and> in_txn p pd t \<and> block t = block u \<and> above t = (above u)\<lparr>mem := m\<rparr>"
    using ready_open [OF u(2), of a E thesis] by blast
  have mv: "mem v = copied d (mem s) acc" using above_fields(3) [OF v(3)] fu(4) by simp
  have len: "length (block s a) = BSIZE" using length_block [of "{}" t] tx(1,2) by (simp add: in_txn_def buffers_def)
  define bs where "bs = get_bytes (bdata (bufs v ! bp)) (unat o' mod BSIZE) (unat m)"
  have bs: "bs = map (file_byte s ip) [unat o'..<unat o' + unat m]"
    unfolding bs_def v(2) u(3) tx(2) a_def by (rule block_slice) (use len ms(3) in \<open>simp_all add: a_def\<close>)
  have "tot = of_nat (length acc)" by (simp add: acc)
  from copy_to_kernel [OF d mv this]
  have c: "copy_to d tot bs v = Ok () (v\<lparr>mem := copied d (mem s) (acc @ bs)\<rparr>)" .
  obtain x where x: "brelse bp (v\<lparr>mem := copied d (mem s) (acc @ bs)\<rparr>) = Ok () x" "in_txn p pd x" "block x = block u"
    "above x = (above u)\<lparr>mem := copied d (mem s) (acc @ bs)\<rparr>"
    using v(4) by blast
  have "acc @ bs = map (file_byte s ip) [unat off..<unat off + unat (tot + m)]"
    using upt_add_eq_append [of "unat off" "unat off + unat tot" "unat m"] by (simp add: acc bs uo ms(4) add.assoc)
  then have "reading p pd s ip d off n (tot + m, o' + m, acc @ bs) x"
    using x(2-4) u(3) tx(2) au ms(4,5) by (simp add: reading_def o' word_le_nat_alt add.assoc)
  moreover have "i_dev (ino u ip) = 1" using ok fu(1) by (simp add: file_ok_def)
  ultimately show thesis
    using that [of a u bp v _ x] u(1) v(1) c x(1) fc(1) by (simp add: a_def bs_def m_def k)
qed

lemma readi_spec:
  assumes tx: "in_txn p pd s" and ok: "file_ok s ip" and d: "in_kernel d"
    and off: "off \<le> isize (ino s ip)" "unat off + unat n < 2 ^ 32"
  defines "bs \<equiv> take (unat n) (drop (unat off) (contents s ip))"
  obtains t where "readi E D ip d off n s = Ok (int (length bs), bs) t" "in_txn p pd t" "block t = block s"
    "above t = (above s)\<lparr>mem := copied d (mem s) bs\<rparr>"
proof -
  let ?z = "isize (ino s ip)"
  define n' where "n' = (if off + n > ?z then ?z - off else n)"
  have on: "unat (off + n) = unat off + unat n" using off(2) by (rule unat_add_u32)
  have n': "unat n' = min (unat n) (unat ?z - unat off)"
    using off(1) by (auto simp: n'_def word_less_nat_alt on unat_sub word_le_nat_alt)
  have le: "unat off \<le> unat ?z" using off(1) by (simp add: word_le_nat_alt)
  then have n'z: "unat off + unat n' \<le> unat ?z" using n' by linarith
  have bs: "bs = map (file_byte s ip) [unat off..<unat off + unat n']"
    using n' le by (auto simp: bs_def contents_def drop_map take_map drop_upt take_upt min_def)
  have "unat ?z \<le> 140 * 512" using ok by (simp add: file_ok_def)
  then have len: "int (length bs) = sint n'"
    using n'z by (subst sint_small) (simp_all add: bs)
  have dev: "itype (ino s ip) \<noteq> T_DEV" "\<not> (off > ?z \<or> off + n < off)"
    using ok off(1) on by (auto simp: file_ok_def word_less_nat_alt word_le_nat_alt)
  have run: "\<exists>t. loop_with (\<lambda>(tot, off, acc) s.
           if tot < n'
           then bnd (bmap E ip (off div bsize) s) (\<lambda>a s.
                bnd (bread E (i_dev (ino s ip)) a s) (\<lambda>bp s.
                  let m = min (n' - tot) (bsize - off mod bsize);
                      bs = get_bytes (bdata (bufs s ! bp)) (unat (off mod bsize)) (unat m)
                  in seq (copy_to d tot bs s) (\<lambda>s.
                     seq (brelse bp s) (Ok (Inl (tot + m, off + m, acc @ bs))))))
           else Ok (Inr (sint n', acc)) s) (0, off, []) s = Ok (sint n', bs) t \<and> reading p pd s ip d off n' (n', off + n', bs) t"
    (is "?P (loop_with ?body ?l s)")
  proof (rule loop_with_rule [where I = "reading p pd s ip d off n'" and f = "\<lambda>(tot, _, _) _. unat n' - unat tot"])
    show "reading p pd s ip d off n' ?l s" using tx by (cases d) (simp_all add: reading_def copied_def mem_irrelevant(5) [symmetric])
  next
    fix l t assume inv: "reading p pd s ip d off n' l t"
    obtain tot o' acc where l: "l = (tot, o', acc)" by (cases l)
    show "round_ok (\<lambda>l' s'. reading p pd s ip d off n' l' s' \<and> (case l' of (tot, _, _) \<Rightarrow> \<lambda>_. unat n' - unat tot) s'
        < (case l of (tot, _, _) \<Rightarrow> \<lambda>_. unat n' - unat tot) t) ?P (?body l t)"
    proof (cases "tot < n'")
      case True
      note ms = round_size [OF True, of o']
      show ?thesis
        by (rule readi_round [OF ok d n'z inv [unfolded l] True, of E])
          (use True ms(2,4,5) in \<open>simp add: l Let_def word_less_nat_alt\<close>)
    next
      case False
      then have "tot = n'" using inv by (simp add: l reading_def)
      then show ?thesis using inv bs by (simp add: l reading_def)
    qed
  qed
  show thesis
    using that run dev len unfolding readi_def by (auto simp: reading_def Let_def n'_def [symmetric])
qed

lemma no_wrap32:
  fixes a b :: u32
  shows "a + b < a \<longleftrightarrow> 2 ^ 32 \<le> unat a + unat b"
proof (cases "unat a + unat b < 2 ^ 32")
  case True
  then show ?thesis using unat_add_u32 [OF True] by (simp add: word_less_nat_alt)
next
  case False
  have "unat (a + b) = (unat a + unat b) mod 2 ^ 32" by (simp add: unat_word_ariths)
  also have "\<dots> = (unat a + unat b - 2 ^ 32) mod 2 ^ 32" using False by (intro le_mod_geq) simp
  also have "\<dots> = unat a + unat b - 2 ^ 32"
    using False unat_lt_pow32 [of a] unat_lt_pow32 [of b] by (intro mod_less) linarith
  finally have "unat (a + b) = unat a + unat b - 2 ^ 32" .
  then show ?thesis using False unat_lt_pow32 [of b] unfolding word_less_nat_alt by linarith
qed

text \<open>C11: \<open>readi\<close> of a file that is not a device, for a destination in the kernel. If the offset is past the end of the file
  or offset plus count wraps around, it returns -1 and changes nothing. Otherwise it ends and returns the part of the file's
  contents that starts at the offset and has the length asked for, cut off at the end of the file; these bytes are at the
  destination, and the files and the disk are unchanged.\<close>

theorem readi_returns_contents:
  assumes "in_txn p pd s" "file_ok s ip" "\<forall>a. d \<noteq> ToUser a"
  shows "if off > isize (ino s ip) \<or> off + n < off then readi E D ip d off n s = Ok (- 1, []) s
    else \<exists>t bs. readi E D ip d off n s = Ok (int (length bs), bs) t \<and>
      bs = take (unat n) (drop (unat off) (contents s ip)) \<and> mem t = copied d (mem s) bs \<and>
      in_txn p pd t \<and> block t = block s \<and> contents t ip = contents s ip"
proof (cases "off > isize (ino s ip) \<or> off + n < off")
  case True
  then show ?thesis using assms(2) by (simp add: readi_def file_ok_def)
next
  case False
  then have off: "off \<le> isize (ino s ip)" "unat off + unat n < 2 ^ 32" by (auto simp: no_wrap32)
  obtain t where t: "readi E D ip d off n s = Ok (int (length (take (unat n) (drop (unat off) (contents s ip)))),
      take (unat n) (drop (unat off) (contents s ip))) t" "in_txn p pd t" "block t = block s"
      "above t = (above s)\<lparr>mem := copied d (mem s) (take (unat n) (drop (unat off) (contents s ip)))\<rparr>"
    by (rule readi_spec [OF assms off])
  note f = above_mem_fields [OF t(4)]
  have "contents t ip = contents s ip" by (rule file_cong(3) [OF t(3) f(1,2) log_defs_cong(4) [OF f(3)]])
  then show ?thesis using False t f(4) by auto
qed

text \<open>A file of one block of letters.\<close>

definition demo_inode :: inode where
  "demo_inode = \<lparr>i_dev = 1, inum = 5, iref = 1, iflags = 2, itype = 2, imajor = 0, iminor = 0, nlink = 1, isize = 4,
     addrs = 100 # replicate 12 0\<rparr>"

definition demo_disk :: "u32 \<Rightarrow> u8 list" where
  "demo_disk = blank(58 := map59, 100 := [97, 98, 99, 100] @ replicate 508 0)"

lemma demo_file:
  defines "s \<equiv> fs_boot demo_disk sb1000 [demo_inode]"
  shows "txn 0 0 29 s" "in_txn 0 0 s" "file_ok s 0" "contents s 0 = [97, 98, 99, 100]" "isize (ino s 0) = 4"
    "block s = demo_disk" "fblock s 0 0 = 100"
proof -
  have len: "length (demo_disk n) = BSIZE" for n by (simp add: demo_disk_def map59_def)
  note b = fs_boot_txn [of demo_disk sb1000 "[demo_inode]", OF len, folded s_def]
  show "txn 0 0 29 s" "in_txn 0 0 s" "block s = demo_disk" using b by (simp_all add: txn_def)
  have i: "icache s = [demo_inode]" by (simp add: s_def fs_boot_def)
  show f: "fblock s 0 0 = 100" "isize (ino s 0) = 4" by (simp_all add: fblock_def i demo_inode_def)
  have "100 \<notin> log_area s" using fs_boot_log(1) [of 100 demo_disk sb1000 "[demo_inode]"] by (auto simp: s_def)
  then have "usable s 100" using b(3) by (simp add: usable_def)
  moreover have "k = 0" if "k * BSIZE < 4" for k :: nat using that by (cases k) simp_all
  ultimately show "file_ok s 0" using f by (auto simp: file_ok_def i) (simp_all add: demo_inode_def)
  have "[0..<unat (4::u32)] = [0, 1, 2, 3]" by (simp add: upt_rec)
  then show "contents s 0 = [97, 98, 99, 100]"
    using f by (simp add: contents_def file_byte_def b(2) demo_disk_def)
qed

theorem readi_returns_contents_witness:
  "\<exists>t. readi (\<lambda>_ s. s) (\<lambda>_. \<lparr>dread = None, dwrite = None\<rparr>) 0 (ToKernel 0x80500000) 1 10
     (fs_boot demo_disk sb1000 [demo_inode]) = Ok (3, [98, 99, 100]) t \<and> mem t 0x80500002 = 100"
  using readi_returns_contents [OF demo_file(2,3), of "ToKernel 0x80500000" 1 10 "\<lambda>_ s. s" "\<lambda>_. \<lparr>dread = None, dwrite = None\<rparr>"]
    demo_file(4,5) by (auto simp: copied_def)

section \<open>writei\<close>

text \<open>The bytes at a source in the kernel.\<close>

definition source :: "src \<Rightarrow> memory \<Rightarrow> nat \<Rightarrow> u8 list" where
  "source c m n = (case c of FromKernel a \<Rightarrow> load_bytes m a n | FromLocal bs \<Rightarrow> take n bs | FromUser a \<Rightarrow> [])"

definition has_source :: "src \<Rightarrow> nat \<Rightarrow> bool" where
  "has_source c n = (case c of FromKernel a \<Rightarrow> True | FromLocal bs \<Rightarrow> n \<le> length bs | FromUser a \<Rightarrow> False)"

lemma copy_from_kernel:
  assumes "has_source c (unat n)" "unat tot + unat m \<le> unat n"
  shows "copy_from c tot m s = Ok (get_bytes (source c (mem s) (unat n)) (unat tot) (unat m)) s"
    "length (source c (mem s) (unat n)) = unat n"
proof -
  show "length (source c (mem s) (unat n)) = unat n" using assms by (cases c) (simp_all add: source_def has_source_def)
  show "copy_from c tot m s = Ok (get_bytes (source c (mem s) (unat n)) (unat tot) (unat m)) s"
  proof (cases c)
    case (FromKernel a)
    have "load_bytes (mem s) (a + tot) (unat m) = get_bytes (load_bytes (mem s) a (unat n)) (unat tot) (unat m)"
      using assms(2) by (intro nth_equalityI) (simp_all add: get_bytes_def add.assoc)
    then show ?thesis using FromKernel by (simp add: copy_from_def source_def)
  next
    case (FromLocal bs)
    then show ?thesis using assms by (simp add: copy_from_def source_def get_bytes_def drop_take min_def)
  qed (use assms in \<open>simp add: has_source_def\<close>)
qed

text \<open>The blocks of the file are different from each other and from its indirect block.\<close>

abbreviation parts :: "kst \<Rightarrow> nat \<Rightarrow> nat set" where
  "parts s ip \<equiv> {k. k * BSIZE < unat (isize (ino s ip))}"

definition separate :: "kst \<Rightarrow> nat \<Rightarrow> bool" where
  "separate s ip \<longleftrightarrow> inj_on (fblock s ip) (parts s ip) \<and>
     (NDIRECT * BSIZE < unat (isize (ino s ip)) \<longrightarrow> addrs (ino s ip) ! NDIRECT \<notin> fblock s ip ` parts s ip)"

lemma part_of: "i < unat (isize (ino s ip)) \<Longrightarrow> i div BSIZE \<in> parts s ip"
  using div_times_less_eq_dividend [of i BSIZE] by (simp add: le_less_trans)

text \<open>Changing the data of a part of the file.\<close>

lemma store_part:
  assumes sep: "separate s ip" and k: "k \<in> parts s ip" and t: "block t = (block s)(fblock s ip k := d)" "icache t = icache s"
  shows "j \<in> parts s ip \<Longrightarrow> fblock t ip j = fblock s ip j" "separate t ip"
    "i < unat (isize (ino s ip)) \<Longrightarrow> file_byte t ip i = (if i div BSIZE = k then d ! (i mod BSIZE) else file_byte s ip i)"
proof -
  show f: "fblock t ip j = fblock s ip j" if "j \<in> parts s ip" for j
  proof (cases "j < NDIRECT")
    case False
    then have "NDIRECT * BSIZE < unat (isize (ino s ip))" using that by simp
    then have "addrs (ino s ip) ! NDIRECT \<noteq> fblock s ip k" using sep k by (auto simp: separate_def)
    then show ?thesis using False t by (simp add: fblock_def)
  qed (simp add: fblock_def t)
  have "fblock t ip ` parts s ip = fblock s ip ` parts s ip" by (rule image_cong [OF refl f])
  moreover have "inj_on (fblock t ip) (parts s ip) = inj_on (fblock s ip) (parts s ip)" by (rule inj_on_cong [OF f])
  ultimately show "separate t ip" using sep by (simp add: separate_def t)
  show "file_byte t ip i = (if i div BSIZE = k then d ! (i mod BSIZE) else file_byte s ip i)"
    if "i < unat (isize (ino s ip))"
    using f [OF part_of [OF that]] part_of [OF that] k sep
    by (auto simp: file_byte_def t separate_def inj_on_def)
qed

text \<open>The number of blocks that the bytes from \<open>i\<close> to \<open>e\<close> touch.\<close>

definition span :: "nat \<Rightarrow> nat \<Rightarrow> nat" where
  "span i e = (if i < e then (e + 511) div BSIZE - i div BSIZE else 0)"

lemma span_step:
  assumes "i < e" "m = min (e - i) (BSIZE - i mod BSIZE)"
  shows "span i e = Suc (span (i + m) e)"
proof -
  define q r where qr: "q = i div BSIZE" "r = i mod BSIZE"
  have i: "i = BSIZE * q + r" "r < BSIZE" by (simp_all add: qr)
  show ?thesis
  proof (cases "e - i \<le> BSIZE - r")
    case True
    then have m: "m = e - i" using assms(2) by (simp add: qr)
    have "BSIZE * q + 1 \<le> e" "e \<le> BSIZE * q + BSIZE" using assms(1) i True by linarith+
    then obtain x where x: "e + 511 = x + BSIZE * (q + 1)" "x < BSIZE"
      by (intro that [of "e - (BSIZE * q + 1)"]) simp_all
    have "(e + 511) div BSIZE = q + 1" unfolding x(1) using x(2) by simp
    then show ?thesis using m assms(1) by (simp add: span_def qr)
  next
    case False
    then have m: "m = BSIZE - r" "i + m < e" using assms(1,2) i(2) by (simp_all add: qr)
    then have "(i + m) div BSIZE = Suc q" using i by simp
    moreover have "Suc q \<le> (e + 511) div BSIZE" 
      using m i by (subst less_eq_div_iff_mult_less_eq) simp_all
    ultimately show ?thesis using m(2) assms(1) by (simp add: span_def qr Suc_diff_Suc Suc_le_eq)
  qed
qed

text \<open>The state of \<open>writei\<close> after \<open>tot\<close> bytes.\<close>

definition writing :: "nat \<Rightarrow> int \<Rightarrow> nat \<Rightarrow> kst \<Rightarrow> nat \<Rightarrow> u8 list \<Rightarrow> u32 \<Rightarrow> u32 \<Rightarrow> u32 \<times> u32 \<Rightarrow> kst \<Rightarrow> bool" where
  "writing p pd k s ip bs off n l t \<longleftrightarrow> (case l of (tot, o') \<Rightarrow>
     txn p pd (k + span (unat o') (unat off + unat n)) t \<and> others t = others s \<and> log_area t = log_area s \<and>
     separate t ip \<and> tot \<le> n \<and> unat o' = unat off + unat tot \<and>
     (\<forall>j \<in> parts s ip. fblock t ip j = fblock s ip j) \<and>
     (\<forall>i < unat (isize (ino s ip)). file_byte t ip i =
        (if unat off \<le> i \<and> i < unat off + unat tot then bs ! (i - unat off) else file_byte s ip i)) \<and>
     (\<forall>x. x \<notin> fblock s ip ` parts s ip \<longrightarrow> block t x = block s x))"

lemma txn_in_txn: "txn p pd k s \<Longrightarrow> in_txn p pd s"
  by (simp add: txn_def)

lemma above_txn:
  assumes "in_txn p pd t" "above t = above s" "txn p pd k s"
  shows "txn p pd k t" "log_area t = log_area s" "others t = others s"
proof -
  have k: "klog t = klog s" using above_fields(14) [OF assms(2)] .
  show "txn p pd k t" using assms(1,3) by (simp add: txn_def k)
  show "log_area t = log_area s" by (rule log_defs_cong(4) [OF k])
  show "others t = others s" by (rule others_above [OF assms(2)])
qed

text \<open>The bytes of the part of the file that one round stores.\<close>

lemma file_byte_put:
  assumes "length b = BSIZE" "i mod BSIZE + m \<le> BSIZE" "length bs = m" "j div BSIZE = i div BSIZE"
  shows "put_bytes b (i mod BSIZE) bs ! (j mod BSIZE) = (if i \<le> j \<and> j < i + m then bs ! (j - i) else b ! (j mod BSIZE))"
proof -
  define q r x where qr: "q = i div BSIZE" "r = i mod BSIZE" "x = j mod BSIZE"
  have e: "i = BSIZE * q + r" "j = BSIZE * q + x"
    using assms(4) mult_div_mod_eq [of BSIZE j] by (simp_all add: qr)
  have c: "i \<le> j \<longleftrightarrow> r \<le> x" "j < i + m \<longleftrightarrow> x < r + m" "j - i = x - r" unfolding e by simp_all
  have "x < BSIZE" by (simp add: qr)
  then show ?thesis unfolding c qr(2,3) [symmetric] using assms(1-3) qr(2) by (subst nth_put_bytes) simp_all
qed

lemma same_block:
  assumes "i mod BSIZE + m \<le> BSIZE" "i \<le> j" "j < i + m"
  shows "j div BSIZE = i div BSIZE"
proof -
  define q r where qr: "q = i div BSIZE" "r = i mod BSIZE"
  have i: "i = BSIZE * q + r" by (simp add: qr)
  obtain y where y: "j = i + y" using assms(2) le_Suc_ex by blast
  have "r + y < BSIZE" using assms(1,3) qr(2) y by linarith
  moreover have "j = (r + y) + BSIZE * q" using i y by simp
  ultimately have "j div BSIZE = q" by (metis add.commute add.right_neutral div_less div_mult_self2 zero_neq_numeral)
  then show ?thesis by (simp add: qr)
qed

lemma file_ok_parts:
  assumes "others t = others s" "log_area t = log_area s" "\<forall>j \<in> parts s ip. fblock t ip j = fblock s ip j" "file_ok s ip"
  shows "file_ok t ip"
  using assms others_fields [OF assms(1)] by (simp add: file_ok_def usable_def)

text \<open>The round that stores the bytes \<open>b\<close> at offset \<open>o'\<close>.\<close>

lemma writing_step:
  assumes inv: "writing p pd k s ip bs off n (tot, o') t" and lt: "tot < n" and n: "unat off + unat n \<le> unat (isize (ino s ip))"
    and len: "length bs = unat n" "length (block t (fblock t ip (unat o' div BSIZE))) = BSIZE"
    and m: "m = min (n - tot) (bsize - o' mod bsize)" and b: "b = get_bytes bs (unat tot) (unat m)"
    and x: "block x = (block t)(fblock t ip (unat o' div BSIZE) := put_bytes (block t (fblock t ip (unat o' div BSIZE))) (unat o' mod BSIZE) b)"
    "others x = others t" "log_area x = log_area t" "txn p pd j x" "k + span (unat o') (unat off + unat n) = Suc j"
  shows "writing p pd k s ip bs off n (tot + m, o' + m) x"
proof -
  note ms = round_size [OF lt, of o', folded m]
  have t: "others t = others s" "log_area t = log_area s" "separate t ip" "unat o' = unat off + unat tot"
    and tf: "\<forall>j \<in> parts s ip. fblock t ip j = fblock s ip j" and tx: "\<forall>y. y \<notin> fblock s ip ` parts s ip \<longrightarrow> block t y = block s y"
    and tb: "\<forall>i < unat (isize (ino s ip)). file_byte t ip i =
        (if unat off \<le> i \<and> i < unat off + unat tot then bs ! (i - unat off) else file_byte s ip i)"
    using inv by (simp_all add: writing_def)
  have ic: "icache t = icache s" "icache x = icache s" using others_fields(2) [OF t(1)] others_fields(2) [OF x(2)] by simp_all
  have o': "unat (o' + m) = unat o' + unat m"
    using ms(5) t(4) n unat_lt_pow32 [of "isize (ino s ip)"] by (intro unat_add_u32) linarith
  have in_file: "unat o' < unat (isize (ino s ip))" using t(4) n lt by (simp add: word_less_nat_alt)
  have kk: "unat o' div BSIZE \<in> parts t ip" using part_of [of "unat o'" t ip] in_file ic(1) by simp
  note st = store_part [OF t(3) kk x(1), unfolded ic, OF refl]
  have lb: "length b = unat m" using ms(5) len(1) by (simp add: b get_bytes_def)
  have span: "span (unat o') (unat off + unat n) = Suc (span (unat (o' + m)) (unat off + unat n))"
  proof -
    have "unat m = min (unat off + unat n - unat o') (BSIZE - unat o' mod BSIZE)" using ms(1) t(4) by simp
    moreover have "unat o' < unat off + unat n" using t(4) lt by (simp add: word_less_nat_alt)
    ultimately show ?thesis using span_step o' by simp
  qed
  have "file_byte x ip i = (if unat off \<le> i \<and> i < unat off + unat (tot + m) then bs ! (i - unat off) else file_byte s ip i)"
    if i: "i < unat (isize (ino s ip))" for i
  proof (cases "i div BSIZE = unat o' div BSIZE")
    case True
    have "file_byte x ip i = (if unat o' \<le> i \<and> i < unat o' + unat m then b ! (i - unat o') else file_byte t ip i)"
      using st(3) [of i] i True file_byte_put [OF len(2) ms(3) lb True] by (simp add: file_byte_def)
    moreover have "b ! (i - unat o') = bs ! (i - unat off)" if "unat o' \<le> i" "i < unat o' + unat m"
      using that ms(5) len(1) t(4) by (simp add: b get_bytes_def)
    ultimately show ?thesis using tb i t(4) ms(4) by auto
  next
    case False
    then have "\<not> (unat o' \<le> i \<and> i < unat o' + unat m)" using same_block [OF ms(3)] by blast
    then show ?thesis using st(3) [of i] i False tb t(4) ms(4) by auto
  qed
  moreover have "fblock t ip (unat o' div BSIZE) \<in> fblock s ip ` parts s ip" using tf kk ic(1) by simp
  moreover have "k + span (unat (o' + m)) (unat off + unat n) = j"
    using span x(5) by simp
  ultimately show ?thesis
    using t tf tx x(1-4) st(1,2) ms(4,5) o' ic by (auto simp: writing_def word_le_nat_alt)
qed

lemma writei_round:
  assumes ok: "file_ok s ip" and src: "has_source c (unat n)" and n: "unat off + unat n \<le> unat (isize (ino s ip))"
    and inv: "writing p pd k s ip (source c (mem s) (unat n)) off n (tot, o') t" and lt: "tot < n"
  obtains a bp u v bs w x where "bmap E ip (o' div bsize) t = Ok a u" "bread E (i_dev (ino u ip)) a u = Ok bp v"
    "copy_from c tot (min (n - tot) (bsize - o' mod bsize)) v = Ok bs v"
    "log_write bp (set_data bp (put_bytes (bdata (bufs v ! bp)) (unat (o' mod bsize)) bs) v) = Ok () w"
    "brelse bp w = Ok () x"
    "writing p pd k s ip (source c (mem s) (unat n)) off n
       (tot + min (n - tot) (bsize - o' mod bsize), o' + min (n - tot) (bsize - o' mod bsize)) x"
proof -
  define m where "m = min (n - tot) (bsize - o' mod bsize)"
  note ms = round_size [OF lt, of o', folded m_def]
  have tx: "txn p pd (k + span (unat o') (unat off + unat n)) t" and t: "others t = others s" "log_area t = log_area s"
    and o': "unat o' = unat off + unat tot" and tf: "\<forall>j \<in> parts s ip. fblock t ip j = fblock s ip j"
    using inv unfolding writing_def prod.case by blast+
  have okt: "file_ok t ip" by (rule file_ok_parts [OF t tf ok])
  note f = others_fields [OF t(1)]
  have kd: "unat (o' div bsize) = unat o' div BSIZE" "unat (o' mod bsize) = unat o' mod BSIZE"
    by (simp_all add: unat_div_distrib unat_mod_distrib)
  have in_file: "unat o' < unat off + unat n" "unat o' < unat (isize (ino t ip))"
    using o' n lt f(2) by (simp_all add: word_less_nat_alt)
  then have kb: "unat (o' div bsize) * BSIZE < unat (isize (ino t ip))"
    using div_times_less_eq_dividend [of "unat o'" BSIZE] by (simp add: kd)
  define a where "a = fblock t ip (unat o' div BSIZE)"
  obtain u where u: "bmap E ip (o' div bsize) t = Ok a u" "in_txn p pd u" "block u = block t" "above u = above t"
    using bmap_allocated [OF txn_in_txn [OF tx] okt kb, of E thesis] kd(1) by (auto simp: a_def)
  obtain j where j: "k + span (unat o') (unat off + unat n) = Suc j" using span_step [OF in_file(1) refl] by simp
  note ut = above_txn [OF u(2,4) tx, unfolded j]
  note fu = others_fields [OF ut(3)]
  have a: "usable t a" using okt kb by (simp add: file_ok_def a_def kd)
  then have "a < disksize u" "a \<notin> log_area u" using fu(4) ut(2) by (simp_all add: usable_def)
  then obtain bp v where v: "bread E 1 a u = Ok bp v" "bdata (bufs v ! bp) = block u a" "others v = others u"
    "\<And>d. length d = BSIZE \<Longrightarrow> stores p pd j u a bp v d"
    using txn_open [OF ut(1), of a E thesis] by blast
  define bs where "bs = get_bytes (source c (mem s) (unat n)) (unat tot) (unat m)"
  have mv: "mem v = mem s" using others_fields(1) [OF v(3)] fu(1) f(1) by simp
  note cf = copy_from_kernel [OF src ms(5), of v, unfolded mv]
  have lb: "length bs = unat m" using cf(2) ms(5) by (simp add: bs_def)
  have len: "length (block t a) = BSIZE" using length_block [of "{}" t] txnD(1) [OF tx] by (simp add: buffers_def)
  have "length (put_bytes (block t a) (unat o' mod BSIZE) bs) = BSIZE"
    using len lb ms(3) by (subst length_put_bytes) simp_all
  from v(4) [OF this] obtain w x where w: "log_write bp (set_data bp (put_bytes (block t a) (unat o' mod BSIZE) bs) v) = Ok () w"
    "brelse bp w = Ok () x" "txn p pd j x" "block x = (block u)(a := put_bytes (block t a) (unat o' mod BSIZE) bs)"
    "others x = others u" "log_area x = log_area u"
    unfolding stores_def by blast
  have "writing p pd k s ip (source c (mem s) (unat n)) off n (tot + m, o' + m) x"
    by (rule writing_step [OF inv lt n cf(2) _ m_def bs_def _ _ _ w(3) j])
      (use len w(4-6) u(3) ut(2,3) in \<open>simp_all add: a_def\<close>)
  moreover have "i_dev (ino u ip) = 1" using okt fu(2) by (simp add: file_ok_def)
  ultimately show thesis
    using that [of a u bp v bs w x] u(1,3) v(1,2) cf(1) w(1,2) kd(2) by (simp add: m_def bs_def)
qed

lemma writei_spec:
  assumes tx: "txn p pd (k + span (unat off) (unat off + unat n)) s" and ok: "file_ok s ip" "separate s ip"
    and src: "has_source c (unat n)" and n: "unat off + unat n \<le> unat (isize (ino s ip))"
  obtains t where "writei E D ip c off n s = Ok (int (unat n)) t"
    "writing p pd k s ip (source c (mem s) (unat n)) off n (n, off + n) t"
proof -
  let ?bs = "source c (mem s) (unat n)" let ?z = "isize (ino s ip)"
  have on: "unat (off + n) = unat off + unat n"
    using n unat_lt_pow32 [of ?z] by (intro unat_add_u32) linarith
  have z: "unat ?z \<le> 71680" using ok(1) by (simp add: file_ok_def)
  have g: "itype (ino s ip) \<noteq> T_DEV" "\<not> (off > ?z \<or> off + n < off)" "\<not> off + n > of_nat (MAXFILE * BSIZE)"
    using ok(1) n z on by (auto simp: file_ok_def word_less_nat_alt word_le_nat_alt)
  have sn: "sint n = int (unat n)" using n z by (intro sint_small) simp
  have run: "\<exists>t. loop_with (\<lambda>(tot, off) s.
             if tot < n
             then bnd (bmap E ip (off div bsize) s) (\<lambda>a s.
                  bnd (bread E (i_dev (ino s ip)) a s) (\<lambda>bp s.
                    let m = min (n - tot) (bsize - off mod bsize)
                    in bnd (copy_from c tot m s) (\<lambda>bs s.
                         let s = set_data bp (put_bytes (bdata (bufs s ! bp)) (unat (off mod bsize)) bs) s
                         in seq (log_write bp s) (\<lambda>s.
                            seq (brelse bp s) (Ok (Inl (tot + m, off + m)))))))
             else Ok (Inr off) s) (0, off) s = Ok (off + n) t \<and> writing p pd k s ip ?bs off n (n, off + n) t"
    (is "?P (loop_with ?body ?l s)")
  proof (rule loop_with_rule [where I = "writing p pd k s ip ?bs off n" and f = "\<lambda>(tot, _) _. unat n - unat tot"])
    show "writing p pd k s ip ?bs off n ?l s" using tx ok(2) by (auto simp: writing_def)
  next
    fix l t assume inv: "writing p pd k s ip ?bs off n l t"
    obtain tot o' where l: "l = (tot, o')" by (cases l)
    show "round_ok (\<lambda>l' s'. writing p pd k s ip ?bs off n l' s' \<and> (case l' of (tot, _) \<Rightarrow> \<lambda>_. unat n - unat tot) s'
        < (case l of (tot, _) \<Rightarrow> \<lambda>_. unat n - unat tot) t) ?P (?body l t)"
    proof (cases "tot < n")
      case True
      note ms = round_size [OF True, of o']
      show ?thesis
        by (rule writei_round [OF ok(1) src n inv [unfolded l] True, of E])
          (use True ms(2,4,5) in \<open>simp add: l Let_def word_less_nat_alt\<close>)
    next
      case False
      have "tot \<le> n" "unat o' = unat off + unat tot" using inv unfolding l writing_def prod.case by blast+
      then have "tot = n" "o' = off + n" using False on by (auto simp: word_unat_eq_iff)
      then show ?thesis using inv by (simp add: l)
    qed
  qed
  then obtain t where t: "loop_with ?body ?l s = Ok (off + n) t" "writing p pd k s ip ?bs off n (n, off + n) t" by blast
  have h: "others t = others s" using t(2) unfolding writing_def prod.case by blast
  have "\<not> off + n > isize (ino t ip)" using n on others_fields(2) [OF h] by (simp add: word_less_nat_alt)
  then show thesis using that [of t] g sn t unfolding writei_def by (simp add: Let_def)
qed

text \<open>What an overwritten file contains.\<close>

lemma writing_contents:
  assumes "writing p pd k s ip bs off n (n, off + n) t" "length bs = unat n" "unat off + unat n \<le> unat (isize (ino s ip))"
  shows "contents t ip = take (unat off) (contents s ip) @ bs @ drop (unat off + unat n) (contents s ip)"
    "txn p pd k t" "others t = others s" "log_area t = log_area s" "separate t ip"
    "\<forall>x. x \<notin> fblock s ip ` parts s ip \<longrightarrow> block t x = block s x" "\<forall>j \<in> parts s ip. fblock t ip j = fblock s ip j"
proof -
  have b: "\<forall>i < unat (isize (ino s ip)). file_byte t ip i =
        (if unat off \<le> i \<and> i < unat off + unat n then bs ! (i - unat off) else file_byte s ip i)"
    and o': "unat (off + n) = unat off + unat n" "txn p pd (k + span (unat (off + n)) (unat off + unat n)) t"
    and r: "others t = others s" "log_area t = log_area s" "separate t ip"
    "\<forall>x. x \<notin> fblock s ip ` parts s ip \<longrightarrow> block t x = block s x" "\<forall>j \<in> parts s ip. fblock t ip j = fblock s ip j"
    using assms(1) unfolding writing_def prod.case by blast+
  show "txn p pd k t" using o' by (simp add: span_def)
  show "contents t ip = take (unat off) (contents s ip) @ bs @ drop (unat off + unat n) (contents s ip)"
    using b assms(2,3) others_fields(2) [OF r(1)]
    by (intro nth_equalityI) (auto simp: contents_def nth_append min_def)
qed (use assms(1) in \<open>unfold writing_def prod.case, blast\<close>)+

text \<open>C4: \<open>writei\<close> inside a file, from a source in the kernel, implements the update of a byte array. In a transaction with room
  for the blocks that the bytes touch it ends and returns the count; the file's contents are the old contents with the bytes of the
  source from the offset on; the inode cache, the memory and every block that does not hold data of this file are
  unchanged; and the transaction has used at most one log entry for each block touched.\<close>

theorem writei_updates_contents:
  assumes "txn p pd (k + span (unat off) (unat off + unat n)) s" "file_ok s ip" "separate s ip"
    and "has_source c (unat n)" "unat off + unat n \<le> unat (isize (ino s ip))"
  shows "\<exists>t. writei E D ip c off n s = Ok (int (unat n)) t \<and>
    contents t ip = take (unat off) (contents s ip) @ source c (mem s) (unat n) @ drop (unat off + unat n) (contents s ip) \<and>
    icache t = icache s \<and> mem t = mem s \<and> (\<forall>x. x \<notin> fblock s ip ` parts s ip \<longrightarrow> block t x = block s x) \<and>
    txn p pd k t \<and> file_ok t ip \<and> separate t ip"
proof -
  obtain t where t: "writei E D ip c off n s = Ok (int (unat n)) t"
    "writing p pd k s ip (source c (mem s) (unat n)) off n (n, off + n) t"
    by (rule writei_spec [OF assms])
  have len: "length (source c (mem s) (unat n)) = unat n" using copy_from_kernel(2) [of c n 0 0 s] assms(4) by simp
  note w = writing_contents [OF t(2) len assms(5)]
  show ?thesis using t(1) w file_ok_parts [OF w(3,4,7) assms(2)] others_fields(1,2) [OF w(3)] by blast
qed

lemma demo_separate: "separate (fs_boot demo_disk sb1000 [demo_inode]) 0"
  "txn 0 0 (28 + span (unat (1::u32)) (unat (1::u32) + unat (2::u32))) (fs_boot demo_disk sb1000 [demo_inode])"
proof -
  have "parts (fs_boot demo_disk sb1000 [demo_inode]) 0 = {0}" using demo_file(5) by auto
  then show "separate (fs_boot demo_disk sb1000 [demo_inode]) 0" using demo_file(5) by (simp add: separate_def)
qed (use demo_file(1) in \<open>simp add: span_def\<close>)

theorem writei_updates_contents_witness:
  "\<exists>t. writei (\<lambda>_ s. s) (\<lambda>_. \<lparr>dread = None, dwrite = None\<rparr>) 0 (FromLocal [120, 121]) 1 2
     (fs_boot demo_disk sb1000 [demo_inode]) = Ok 2 t \<and> contents t 0 = [97, 120, 121, 100]"
  using writei_updates_contents [OF demo_separate(2) demo_file(3) demo_separate(1), of "FromLocal [120, 121]" "\<lambda>_ s. s"
      "\<lambda>_. \<lparr>dread = None, dwrite = None\<rparr>"] demo_file(4,5)
  by (auto simp: has_source_def source_def)

text \<open>C32: what \<open>writei\<close> has written inside a file, \<open>readi\<close> at the same offset and count returns.\<close>

theorem writei_readi_roundtrip:
  assumes "txn p pd (k + span (unat off) (unat off + unat n)) s" "file_ok s ip" "separate s ip"
    and "has_source c (unat n)" "unat off + unat n \<le> unat (isize (ino s ip))"
  shows "\<exists>t u. writei E D ip c off n s = Ok (int (unat n)) t \<and>
    readi E D ip ToLocal off n t = Ok (int (unat n), source c (mem s) (unat n)) u"
proof -
  obtain t where t: "writei E D ip c off n s = Ok (int (unat n)) t"
    "writing p pd k s ip (source c (mem s) (unat n)) off n (n, off + n) t"
    by (rule writei_spec [OF assms])
  have len: "length (source c (mem s) (unat n)) = unat n" using copy_from_kernel(2) [of c n 0 0 s] assms(4) by simp
  note w = writing_contents [OF t(2) len assms(5)]
  have z: "isize (ino t ip) = isize (ino s ip)" using others_fields(2) [OF w(3)] by simp
  have b: "take (unat n) (drop (unat off) (contents t ip)) = source c (mem s) (unat n)"
    using assms(5) len length_contents [of s ip] by (simp add: w(1))
  have off: "off \<le> isize (ino t ip)" "unat off + unat n < 2 ^ 32"
    using assms(5) unat_lt_pow32 [of "isize (ino s ip)"] unfolding z word_le_nat_alt by linarith+
  obtain u where "readi E D ip ToLocal off n t = Ok (int (length (source c (mem s) (unat n))), source c (mem s) (unat n)) u"
    using readi_spec [OF txn_in_txn [OF w(2)] file_ok_parts [OF w(3,4,7) assms(2)] _ off, of ToLocal E D thesis] b by auto
  then show ?thesis using t(1) len by auto
qed

theorem writei_readi_roundtrip_witness:
  "\<exists>t u. writei (\<lambda>_ s. s) (\<lambda>_. \<lparr>dread = None, dwrite = None\<rparr>) 0 (FromLocal [120, 121]) 1 2
     (fs_boot demo_disk sb1000 [demo_inode]) = Ok 2 t \<and>
   readi (\<lambda>_ s. s) (\<lambda>_. \<lparr>dread = None, dwrite = None\<rparr>) 0 ToLocal 1 2 t = Ok (2, [120, 121]) u"
  using writei_readi_roundtrip [OF demo_separate(2) demo_file(3) demo_separate(1), of "FromLocal [120, 121]" "\<lambda>_ s. s"
      "\<lambda>_. \<lparr>dread = None, dwrite = None\<rparr>"] demo_file(5)
  by (auto simp: has_source_def source_def)

end
