(* ===== verification/Fs_Names.thy ===== *)
theory Fs_Names
  imports Fs_Blocks
begin

unbundle bit_operations_syntax

text \<open>
  Correctness of the name layer of fs.c: \<open>skipelem\<close> against a reference definition of the elements of a
  path, the inode cache (\<open>iget\<close>, \<open>idup\<close>), and the on-disk inode (\<open>iupdate\<close>).
\<close>

section \<open>Path elements\<close>

text \<open>The reference: cut the path at every slash and drop the empty pieces.\<close>

fun pieces :: "u8 list \<Rightarrow> u8 list list" where
  "pieces [] = [[]]"
| "pieces (c # cs) = (if c = slash then [] # pieces cs else (c # hd (pieces cs)) # tl (pieces cs))"

definition elements :: "u8 list \<Rightarrow> u8 list list" where
  "elements path = filter (\<lambda>e. e \<noteq> []) (pieces path)"

lemma pieces_nonempty [simp]: "pieces path \<noteq> []"
  by (cases path) simp_all

lemma elements_Nil [simp]: "elements [] = []"
  by (simp add: elements_def)

lemma elements_slashes [simp]: "elements (dropWhile (\<lambda>c. c = slash) path) = elements path"
  by (induction path) (simp_all add: elements_def)

lemma pieces_word:
  "pieces path = takeWhile (\<lambda>c. c \<noteq> slash) path #
     (if dropWhile (\<lambda>c. c \<noteq> slash) path = [] then [] else pieces (tl (dropWhile (\<lambda>c. c \<noteq> slash) path)))"
  by (induction path) auto

lemma elements_word:
  assumes "path \<noteq> []" "hd path \<noteq> slash"
  shows "elements path = takeWhile (\<lambda>c. c \<noteq> slash) path # elements (dropWhile (\<lambda>c. c \<noteq> slash) path)"
proof -
  let ?r = "dropWhile (\<lambda>c. c \<noteq> slash) path"
  have w: "takeWhile (\<lambda>c. c \<noteq> slash) path \<noteq> []" using assms by (cases path) simp_all
  have "elements ?r = (if ?r = [] then [] else elements (tl ?r))"
  proof (cases ?r)
    case (Cons c cs)
    then have "c = slash" using hd_dropWhile [of "\<lambda>c. c \<noteq> slash" path] by simp
    then show ?thesis by (simp add: Cons elements_def)
  next
    case Nil
    then show ?thesis by (metis elements_Nil)
  qed
  then show ?thesis using w by (auto simp: elements_def pieces_word [of path])
qed

lemma elements_empty: "dropWhile (\<lambda>c. c = slash) q = [] \<longleftrightarrow> elements (dropWhile (\<lambda>c. c = slash) q) = []"
proof (cases "dropWhile (\<lambda>c. c = slash) q")
  case (Cons d ds)
  then have "d \<noteq> slash" using hd_dropWhile [of "\<lambda>c. c = slash" q] by simp
  then show ?thesis using elements_word [of "d # ds"] unfolding Cons by simp
next
  case Nil
  then show ?thesis by (metis elements_Nil)
qed

text \<open>The string in \<open>name\<close>.\<close>

definition name_of :: "u8 list \<Rightarrow> u8 list" where
  "name_of name = takeWhile (\<lambda>c. c \<noteq> 0) name"

lemma skipelem_shorter:
  assumes "skipelem path name = Some (path', name')"
  shows "length path' < length path"
proof -
  let ?p = "dropWhile (\<lambda>c. c = slash) path"
  have p: "?p \<noteq> []" "path' = dropWhile (\<lambda>c. c = slash) (dropWhile (\<lambda>c. c \<noteq> slash) ?p)"
    using assms by (auto simp: skipelem_def Let_def split: if_splits)
  have "length path' \<le> length (dropWhile (\<lambda>c. c \<noteq> slash) ?p)" unfolding p(2) by (rule length_dropWhile_le)
  also have "\<dots> < length ?p"
  proof (cases ?p)
    case (Cons c cs)
    then have "c \<noteq> slash" using hd_dropWhile [of "\<lambda>c. c = slash" path] by simp
    then show ?thesis by (simp add: Cons le_imp_less_Suc length_dropWhile_le)
  qed (use p(1) in simp)
  also have "\<dots> \<le> length path" by (rule length_dropWhile_le)
  finally show ?thesis .
qed

lemma name_of_put:
  assumes "0 \<notin> set e" "length name = DIRSIZ"
  defines "name' \<equiv> (if length e \<ge> DIRSIZ then put_bytes name 0 (take DIRSIZ e) else (put_bytes name 0 e)[length e := 0])"
  shows "name_of name' = take DIRSIZ e" "length name' = DIRSIZ"
proof -
  have z: "\<forall>c \<in> set e. c \<noteq> 0" using assms(1) by auto
  show "length name' = DIRSIZ" using assms(2) by (simp add: name'_def)
  show "name_of name' = take DIRSIZ e"
  proof (cases "length e \<ge> DIRSIZ")
    case True
    then have "name' = take DIRSIZ e" using assms(2) by (simp add: name'_def put_bytes_def)
    moreover have "\<forall>c \<in> set (take DIRSIZ e). c \<noteq> 0" using z in_set_takeD by fast
    ultimately show ?thesis unfolding name_of_def by (simp only: takeWhile_eq_all_conv)
  next
    case False
    then obtain x xs where "drop (length e) name = x # xs" using assms(2) by (cases "drop (length e) name") simp_all
    then have "name' = e @ 0 # xs" using False by (simp add: name'_def put_bytes_def)
    then show ?thesis using False z by (simp add: name_of_def takeWhile_append)
  qed
qed

lemma skipelem_eq:
  assumes "dropWhile (\<lambda>c. c = slash) path = q" "q \<noteq> []"
  shows "skipelem path name = Some (dropWhile (\<lambda>c. c = slash) (dropWhile (\<lambda>c. c \<noteq> slash) q),
    let e = takeWhile (\<lambda>c. c \<noteq> slash) q
    in if length e \<ge> DIRSIZ then put_bytes name 0 (take DIRSIZ e) else (put_bytes name 0 e)[length e := 0])"
  using assms by (simp add: skipelem_def Let_def)

text \<open>C18: \<open>skipelem\<close> against the reference that cuts the path at the slashes. It returns 0 exactly when the path has no element.
  Otherwise \<open>name\<close> is the first element, cut to \<open>DIRSIZ\<close> bytes and terminated when shorter; the rest of the
  path has exactly the other elements, is empty exactly when there are none (which is how \<open>nameiparent\<close> knows
  the last element), and is shorter, so the loop of \<open>namex\<close> over the path ends.\<close>

theorem skipelem_elements:
  assumes "0 \<notin> set path" "length name = DIRSIZ"
  shows "case elements path of
      [] \<Rightarrow> skipelem path name = None
    | e # es \<Rightarrow> \<exists>path' name'. skipelem path name = Some (path', name') \<and> name_of name' = take DIRSIZ e \<and> length name' = DIRSIZ \<and>
        elements path' = es \<and> (path' = [] \<longleftrightarrow> es = []) \<and> length path' < length path"
proof (cases "dropWhile (\<lambda>c. c = slash) path")
  case Nil
  then have "elements path = []" by (metis elements_slashes elements_Nil)
  then show ?thesis using Nil by (simp add: skipelem_def)
next
  case q: (Cons c cs)
  let ?q = "c # cs" let ?e = "takeWhile (\<lambda>c. c \<noteq> slash) ?q" let ?r = "dropWhile (\<lambda>c. c = slash) (dropWhile (\<lambda>c. c \<noteq> slash) ?q)"
  have c: "c \<noteq> slash" using hd_dropWhile [of "\<lambda>c. c = slash" path] q by simp
  have el: "elements path = ?e # elements ?r"
    using elements_word [of ?q] c elements_slashes [of path] by (simp add: q)
  have "set ?q \<subseteq> set path" unfolding q [symmetric] by (rule subsetI) (rule set_dropWhileD)
  moreover have "set ?e \<subseteq> set ?q" by (rule subsetI) (rule set_takeWhileD [THEN conjunct1])
  ultimately have n: "0 \<notin> set ?e" using assms(1) by blast
  define r where "r = ?r"
  have "r = [] \<longleftrightarrow> elements r = []" unfolding r_def by (rule elements_empty)
  moreover have "elements path = ?e # elements r" using el by (simp add: r_def)
  moreover have "skipelem path name = Some (r, let e = ?e
      in if length e \<ge> DIRSIZ then put_bytes name 0 (take DIRSIZ e) else (put_bytes name 0 e)[length e := 0])"
    unfolding r_def by (rule skipelem_eq [OF q]) simp
  moreover from this have "length r < length path" by (rule skipelem_shorter)
  ultimately show ?thesis using name_of_put [OF n assms(2)] by (auto simp: Let_def)
qed

theorem skipelem_elements_witness:
  "\<exists>name'. skipelem [47, 97, 47, 47, 98, 99] (replicate 14 9) = Some ([98, 99], name') \<and> name_of name' = [97]"
proof -
  have "elements [47, 97, 47, 47, 98, 99] = [[97], [98, 99]]" by (simp add: elements_def)
  then show ?thesis
    using skipelem_elements [of "[47, 97, 47, 47, 98, 99]" "replicate 14 9"] by (auto simp: skipelem_def Let_def)
qed

section \<open>The inode cache\<close>

text \<open>Entry \<open>i\<close> is in use for inode \<open>n\<close> of device \<open>dev\<close>; no inode has two entries in use.\<close>

definition icached :: "kst \<Rightarrow> u32 \<Rightarrow> u32 \<Rightarrow> nat \<Rightarrow> bool" where
  "icached s dev n i \<longleftrightarrow> i < length (icache s) \<and> iref (ino s i) > 0 \<and> i_dev (ino s i) = dev \<and> inum (ino s i) = n"

definition icache_ok :: "kst \<Rightarrow> bool" where
  "icache_ok s \<longleftrightarrow> (\<forall>dev n i j. icached s dev n i \<longrightarrow> icached s dev n j \<longrightarrow> i = j)"

lemma icache_cs:
  assumes q: "quiet p pd s"
  shows "release L_icache (upd_inode i f (enter L_icache s)) = Ok () (leave L_icache (upd_inode i f (enter L_icache s)))"
    "quiet p pd (leave L_icache (upd_inode i f (enter L_icache s)))"
    "core (leave L_icache (upd_inode i f (enter L_icache s))) = core (upd_inode i f s)"
  by (rule quiet_leave [OF q]; simp add: upd_inode_def)+ (simp add: upd_inode_def core_upd core_sel)

lemma iget_found:
  assumes q: "quiet p pd s" and ok: "icache_ok s" and i: "icached s dev n i"
  obtains t where "iget dev n s = Ok i t" "quiet p pd t" "core t = core (upd_inode i (\<lambda>ip. ip\<lparr>iref := iref ip + 1\<rparr>) s)"
proof -
  obtain j where j: "find_idx (\<lambda>ip. iref ip > 0 \<and> i_dev ip = dev \<and> inum ip = n) (icache s) = Some j"
    using find_idx_ex [of i "icache s" "\<lambda>ip. iref ip > 0 \<and> i_dev ip = dev \<and> inum ip = n"] i by (auto simp: icached_def)
  then have "icached s dev n j" by (simp add: find_idx_Some icached_def)
  then have "j = i" using ok i by (simp add: icache_ok_def)
  then show ?thesis
    using that j icache_cs [OF q, of i "\<lambda>ip. ip\<lparr>iref := iref ip + 1\<rparr>"] by (simp add: iget_def quiet_acquire [OF q] Let_def)
qed

lemma iget_new:
  assumes q: "quiet p pd s" and none: "\<forall>i. \<not> icached s dev n i"
  shows "case find_idx (\<lambda>ip. iref ip = 0) (icache s) of
      None \<Rightarrow> iget dev n s = Panic ''iget: no inodes''
    | Some i \<Rightarrow> \<exists>t. iget dev n s = Ok i t \<and> quiet p pd t \<and>
        core t = core (upd_inode i (\<lambda>ip. ip\<lparr>i_dev := dev, inum := n, iref := 1, iflags := 0\<rparr>) s)"
proof -
  have "find_idx (\<lambda>ip. iref ip > 0 \<and> i_dev ip = dev \<and> inum ip = n) (icache s) = None"
    using none by (auto simp: icached_def in_set_conv_nth)
  then show ?thesis
    using icache_cs [OF q, of _ "\<lambda>ip. ip\<lparr>i_dev := dev, inum := n, iref := 1, iflags := 0\<rparr>"]
    by (auto simp: iget_def quiet_acquire [OF q] Let_def simp del: find_idx_None split: option.split)
qed

text \<open>C19: the inode cache never holds an inode twice. If no inode has two entries in use, \<open>iget\<close> returns the entry
  of the inode asked for, with one more reference, or a free entry that it makes the inode's, not valid yet and with one
  reference; every other entry is unchanged, still no inode has two entries in use, and the next \<open>iget\<close> of the
  same inode returns the same entry. It panics exactly when the inode is not cached and no entry is free.\<close>

theorem iget_unique_entry:
  assumes q: "quiet p pd s" and ok: "icache_ok s"
  shows "if (\<exists>i. icached s dev n i) \<or> (\<exists>i < length (icache s). iref (ino s i) = 0)
    then \<exists>i t u. iget dev n s = Ok i t \<and> icached t dev n i \<and> icache_ok t \<and> quiet p pd t \<and>
      (\<forall>j. j \<noteq> i \<longrightarrow> ino t j = ino s j) \<and> iget dev n t = Ok i u \<and>
      (if icached s dev n i then ino t i = (ino s i)\<lparr>iref := iref (ino s i) + 1\<rparr>
       else iref (ino s i) = 0 \<and> iref (ino t i) = 1 \<and> iflags (ino t i) = 0)
    else iget dev n s = Panic ''iget: no inodes''"
proof (cases "\<exists>i. icached s dev n i")
  case True
  then obtain i where i: "icached s dev n i" by blast
  obtain t where t: "iget dev n s = Ok i t" "quiet p pd t" "core t = core (upd_inode i (\<lambda>ip. ip\<lparr>iref := iref ip + 1\<rparr>) s)"
    by (rule iget_found [OF q ok i])
  have ic: "icache t = (icache s)[i := (ino s i)\<lparr>iref := iref (ino s i) + 1\<rparr>]"
    using core_fields(14) [OF t(3)] by (simp add: upd_inode_def)
  have c: "icached t d m j = icached s d m j" for d m j
    using i by (cases "j = i") (auto simp: icached_def ic)
  have okt: "icache_ok t" using ok by (simp add: icache_ok_def c)
  obtain u where "iget dev n t = Ok i u" using iget_found [OF t(2) okt, of dev n i thesis] c i by auto
  then show ?thesis using True t i okt c ic by (auto simp: icached_def intro!: exI [of _ i])
next
  case False
  note new = iget_new [OF q, of dev n]
  show ?thesis
  proof (cases "find_idx (\<lambda>ip. iref ip = 0) (icache s)")
    case None
    then have "\<not> (\<exists>i < length (icache s). iref (ino s i) = 0)" using nth_mem by fastforce
    then show ?thesis using False new None by auto
  next
    case (Some i)
    then have i: "i < length (icache s)" "iref (ino s i) = 0" by (simp_all add: find_idx_Some)
    obtain t where t: "iget dev n s = Ok i t" "quiet p pd t"
      "core t = core (upd_inode i (\<lambda>ip. ip\<lparr>i_dev := dev, inum := n, iref := 1, iflags := 0\<rparr>) s)"
      using new False Some by auto
    have ic: "icache t = (icache s)[i := (ino s i)\<lparr>i_dev := dev, inum := n, iref := 1, iflags := 0\<rparr>]"
      using core_fields(14) [OF t(3)] by (simp add: upd_inode_def)
    have c: "icached t d m j \<longleftrightarrow> (if j = i then d = dev \<and> m = n else icached s d m j)" for d m j
      using i by (cases "j = i") (auto simp: icached_def ic)
    have okt: "icache_ok t" using ok False by (auto simp: icache_ok_def c split: if_splits)
    obtain u where "iget dev n t = Ok i u" using iget_found [OF t(2) okt, of dev n i thesis] c by auto
    then show ?thesis using False t i okt c ic by (auto intro!: exI [of _ i])
  qed
qed

theorem iget_unique_entry_witness:
  "\<exists>t u. iget 1 7 (kst0\<lparr>icache := replicate 2 ((icache kst0 ! 0)\<lparr>iref := 0\<rparr>)\<rparr>) = Ok 0 t \<and> iref (ino t 0) = 1 \<and> iget 1 7 t = Ok 0 u"
proof -
  let ?s = "kst0\<lparr>icache := replicate 2 ((icache kst0 ! 0)\<lparr>iref := 0\<rparr>)\<rparr>"
  have q: "quiet 0 0 ?s" by (simp add: quiet_def lock_free_def kst0_def cpu0_def spin0_def proc0_def)
  have n: "\<not> icached ?s d m i" for d m i by (auto simp: icached_def)
  have ok: "icache_ok ?s" by (simp add: icache_ok_def n)
  have "iget 1 7 ?s = Ok i t \<Longrightarrow> i = 0" for i t
    using iget_new [OF q, of 1 7] n by (auto simp: numeral_2_eq_2)
  moreover have e: "(\<exists>i. icached ?s 1 7 i) \<or> (\<exists>i < length (icache ?s). iref (ino ?s i) = 0)"
    by (intro disjI2 exI [of _ 0]) simp
  moreover obtain i t u where "iget 1 7 ?s = Ok i t" "iget 1 7 t = Ok i u" "iref (ino t i) = 1"
    using iget_unique_entry [OF q ok, of 1 7] n unfolding if_P [OF e] by auto
  ultimately show ?thesis by blast
qed

section \<open>The inode on disk\<close>

text \<open>The values that fit the fields of \<open>struct dinode\<close>.\<close>

definition dinode_fits :: "dinode \<Rightarrow> bool" where
  "dinode_fits v \<longleftrightarrow> (\<forall>i \<in> {d_type v, d_major v, d_minor v, d_nlink v}. - (2 ^ 15) \<le> i \<and> i < 2 ^ 15) \<and> length (d_addrs v) = Suc NDIRECT"

lemma sint_word_of_int16: "- (2 ^ 15) \<le> i \<Longrightarrow> i < 2 ^ 15 \<Longrightarrow> sint (word_of_int i :: u16) = i"
  by (simp add: sint_sbintrunc' signed_take_bit_int_eq_self)

lemma length_concat32: "length (concat (map bytes32 ws)) = 4 * length ws"
  by (induction ws) simp_all

lemma concat32_nth:
  "i < length ws \<Longrightarrow> take 4 (drop (4 * i) (concat (map bytes32 ws))) = bytes32 (ws ! i)"
proof (induction ws arbitrary: i)
  case (Cons w ws)
  then show ?case by (cases i) simp_all
qed simp

lemma get32_put_words:
  assumes "off + 4 * length ws \<le> length d" "i < length ws"
  shows "get32 (put_bytes d off (concat (map bytes32 ws))) (off + 4 * i) = ws ! i"
proof -
  have "get_bytes (put_bytes d off (concat (map bytes32 ws))) (off + 4 * i) 4 = take 4 (drop (4 * i) (concat (map bytes32 ws)))"
    using assms by (intro nth_equalityI) (auto simp: get_bytes_def nth_put_bytes length_concat32)
  then show ?thesis using concat32_nth [OF assms(2)] by (simp add: get32_def)
qed

lemma length_put_dinode:
  "dinode_fits v \<Longrightarrow> off + 64 \<le> length d \<Longrightarrow> length (put_dinode v off d) = length d"
  by (simp add: put_dinode_def Let_def length_concat32 dinode_fits_def)

lemma get_put_dinode:
  assumes v: "dinode_fits v" and off: "off + 64 \<le> length d"
  shows "get_dinode (put_dinode v off d) off = v"
proof -
  define e where "e = put32 (put16 (put16 (put16 (put16 d off (word_of_int (d_type v))) (off + 2) (word_of_int (d_major v)))
      (off + 4) (word_of_int (d_minor v))) (off + 6) (word_of_int (d_nlink v))) (off + 8) (d_size v)"
  have len: "length e = length d" using off by (simp add: e_def)
  have p: "put_dinode v off d = put_bytes e (off + 12) (concat (map bytes32 (d_addrs v)))"
    by (simp add: put_dinode_def Let_def e_def)
  have l: "length (d_addrs v) = 13" using v by (simp add: dinode_fits_def)
  have g: "get16 (put_dinode v off d) (off + i) = get16 e (off + i)" if "i \<le> 6" for i
    using that off len l unfolding p get16_def by (subst get_put_bytes_other) (simp_all add: length_concat32)
  have z: "get32 (put_dinode v off d) (off + 8) = get32 e (off + 8)"
    using off len l unfolding p get32_def by (subst get_put_bytes_other) (simp_all add: length_concat32)
  have a: "map (\<lambda>i. get32 (put_dinode v off d) (off + 12 + 4 * i)) [0..<Suc NDIRECT] = d_addrs v"
    using off len l unfolding p by (intro nth_equalityI) (simp_all add: get32_put_words del: upt_Suc)
  have "get16 e off = word_of_int (d_type v)" "get16 e (off + 2) = word_of_int (d_major v)"
    "get16 e (off + 4) = word_of_int (d_minor v)" "get16 e (off + 6) = word_of_int (d_nlink v)" "get32 e (off + 8) = d_size v"
    using off by (simp_all add: e_def get_put16_other get_put32_other)
  then show ?thesis
    using g [of 0] g [of 2] g [of 4] g [of 6] z a v by (simp add: get_dinode_def dinode_fits_def sint_word_of_int16 del: upt_Suc)
qed

lemma put_dinode_outside:
  assumes "dinode_fits v" "off + 64 \<le> length d" "i < off \<or> off + 64 \<le> i" "i < length d"
  shows "put_dinode v off d ! i = d ! i"
  using assms
  by (auto simp: put_dinode_def Let_def put16_def put32_def length_concat32 dinode_fits_def nth_put_bytes)

lemma get_dinode_cong:
  assumes "off + 64 \<le> length d" "length e = length d" "\<And>i. off \<le> i \<Longrightarrow> i < off + 64 \<Longrightarrow> e ! i = d ! i"
  shows "get_dinode e off = get_dinode d off"
proof -
  have g: "get_bytes e (off + i) n = get_bytes d (off + i) n" if "i + n \<le> 64" for i n
    using that assms by (intro nth_equalityI) (simp_all add: get_bytes_def)
  show ?thesis
    using g [of 0 2] g [of 2 2] g [of 4 2] g [of 6 2] g [of 8 4]
    by (auto simp: get_dinode_def get16_def get32_def g add.assoc simp del: upt_Suc)
qed

text \<open>Inode \<open>n\<close> as it is on disk.\<close>

definition disk_inode :: "kst \<Rightarrow> u32 \<Rightarrow> dinode" where
  "disk_inode s n = get_dinode (block s (IBLOCK n (sb s))) (dinode_off n)"

lemma IBLOCK_eq: "IBLOCK b v = IBLOCK c v \<longleftrightarrow> unat b div 8 = unat c div 8"
proof -
  have "IBLOCK b v = IBLOCK c v \<longleftrightarrow> b div 8 = c div 8" by (simp add: IBLOCK_def)
  then show ?thesis by (simp add: word_unat_eq_iff unat_div_distrib)
qed

lemma dinode_slots:
  assumes "m \<noteq> n" "IBLOCK m v = IBLOCK n v"
  shows "dinode_off m + 64 \<le> dinode_off n \<or> dinode_off n + 64 \<le> dinode_off m"
proof -
  have "unat m mod 8 \<noteq> unat n mod 8"
    using assms by (metis IBLOCK_eq div_mult_mod_eq word_unat_eq_iff)
  then show ?thesis by (auto simp: dinode_off_def)
qed

lemma dinode_off_bound: "dinode_off n + 64 \<le> BSIZE"
proof -
  have "unat n mod 8 < 8" by simp
  then show ?thesis unfolding dinode_off_def by linarith
qed

text \<open>C21: \<open>iupdate\<close> writes the inode back. In a transaction with room for one more log entry it ends, the inode
  on disk then has exactly the fields of the cached inode, every other inode on disk and every block but the one with this
  inode is unchanged, and so is the inode cache.\<close>

theorem iupdate_writes_back:
  assumes tx: "txn p pd (Suc k) s" and ip: "i_dev (ino s ip) = 1" "dinode_fits (inode_dinode (ino s ip))"
    and blk: "IBLOCK (inum (ino s ip)) (sb s) < disksize s" "IBLOCK (inum (ino s ip)) (sb s) \<notin> log_area s"
  shows "\<exists>t. iupdate E ip s = Ok () t \<and> disk_inode t (inum (ino s ip)) = inode_dinode (ino s ip) \<and>
    (\<forall>m. m \<noteq> inum (ino s ip) \<longrightarrow> disk_inode t m = disk_inode s m) \<and>
    (\<forall>x. x \<noteq> IBLOCK (inum (ino s ip)) (sb s) \<longrightarrow> block t x = block s x) \<and> icache t = icache s \<and> txn p pd k t"
proof -
  let ?n = "inum (ino s ip)" let ?b = "IBLOCK ?n (sb s)" let ?d = "put_dinode (inode_dinode (ino s ip)) (dinode_off ?n) (block s ?b)"
  have len: "length (block s x) = BSIZE" for x using length_block [of "{}" s] txnD(1) [OF tx] by (simp add: buffers_def)
  have off: "dinode_off m + 64 \<le> length (block s x)" for m x using dinode_off_bound len by simp
  obtain bp u where u: "bread E 1 ?b s = Ok bp u" "bdata (bufs u ! bp) = block s ?b" "others u = others s"
    "\<And>d. length d = BSIZE \<Longrightarrow> stores p pd k s ?b bp u d"
    using txn_open [OF tx blk(1), of E thesis] blk(2) by blast
  have ld: "length ?d = BSIZE" using length_put_dinode [OF ip(2) off] len by simp
  from u(4) [OF ld] obtain w t where t: "log_write bp (set_data bp ?d u) = Ok () w" "brelse bp w = Ok () t"
    "txn p pd k t" "block t = (block s)(?b := ?d)" "others t = others s"
    unfolding stores_def by blast
  have "icache u = icache s" "sb t = sb s" "icache t = icache s"
    using others_fields(2) [OF u(3)] others_fields(2,3) [OF t(5)] by simp_all
  moreover have "disk_inode t m = disk_inode s m" if m: "m \<noteq> ?n" for m
  proof (cases "IBLOCK m (sb s) = ?b")
    case True
    have "get_dinode ?d (dinode_off m) = get_dinode (block s ?b) (dinode_off m)"
    proof (rule get_dinode_cong [OF off])
      fix i assume i: "dinode_off m \<le> i" "i < dinode_off m + 64"
      then have "i < length (block s ?b)" using dinode_off_bound [of m] len [of ?b] by linarith
      then show "?d ! i = block s ?b ! i" using i dinode_slots [OF m True] by (intro put_dinode_outside [OF ip(2) off]) auto
    qed (simp add: ld len)
    then show ?thesis using True t(4) \<open>sb t = sb s\<close> by (simp add: disk_inode_def)
  qed (use t(4) \<open>sb t = sb s\<close> in \<open>simp add: disk_inode_def\<close>)
  ultimately show ?thesis
    using u(1,2) t ip(1) get_put_dinode [OF ip(2) off] by (auto simp: iupdate_def Let_def disk_inode_def)
qed

theorem iupdate_writes_back_witness:
  "\<exists>t. iupdate (\<lambda>_ s. s) 0 (fs_boot blank sb1000 [\<lparr>i_dev = 1, inum = 5, iref = 1, iflags = 2, itype = 2, imajor = 0, iminor = 0,
       nlink = 1, isize = 4, addrs = 100 # replicate 12 0\<rparr>]) = Ok () t \<and>
     d_size (disk_inode t 5) = 4 \<and> d_size (disk_inode t 6) = 0"
proof -
  let ?i = "\<lparr>i_dev = 1, inum = 5, iref = 1, iflags = 2, itype = 2, imajor = 0, iminor = 0,
       nlink = 1, isize = 4, addrs = 100 # replicate 12 0\<rparr>"
  let ?s = "fs_boot blank sb1000 [?i]"
  have b: "txn 0 0 29 ?s" "block ?s = blank" "disksize ?s = 1000" by (rule fs_boot_txn; simp)+
  have tx: "txn 0 0 (Suc 28) ?s" using b(1) by simp
  have i: "ino ?s 0 = ?i" "sb ?s = sb1000" by (simp_all add: fs_boot_def)
  have I: "IBLOCK 5 sb1000 = 32" "IBLOCK 6 sb1000 = 32" by (simp_all add: IBLOCK_def sb1000_def)
  have "32 \<notin> log_area ?s" using fs_boot_log(1) [of 32 blank sb1000 "[?i]"] by auto
  then obtain t where t: "iupdate (\<lambda>_ s. s) 0 ?s = Ok () t" "disk_inode t 5 = inode_dinode ?i" "disk_inode t 6 = disk_inode ?s 6"
    using iupdate_writes_back [OF tx, of 0 "\<lambda>_ s. s"] b(3) I by (auto simp: i dinode_fits_def inode_dinode_def)
  have "d_size (disk_inode ?s 6) = 0"
    by (simp add: disk_inode_def b(2) get_dinode_def get32_def get_bytes_def dinode_off_def word32_def drop_replicate take_replicate)
  then show ?thesis using t by (auto simp: inode_dinode_def)
qed

end
