(* ===== verification/Pipe.thy ===== *)
theory Pipe
  imports Quiet
begin

unbundle bit_operations_syntax

text \<open>
  Pipes (pipe.c): a ring buffer of \<open>PIPESIZE\<close> bytes in a page of its own, with the two counters
  \<open>nread\<close> and \<open>nwrite\<close> that only grow (modulo \<open>2^32\<close>). \<open>pipealloc\<close>, which needs the file
  table, is in theory File. The bytes come from and go to user memory through the page tables.
\<close>

section \<open>The ring buffer\<close>

text \<open>\<open>p->data[p->nwrite++ % PIPESIZE] = c\<close> and \<open>p->data[p->nread++ % PIPESIZE]\<close>.\<close>

definition pipe_put :: "u8 \<Rightarrow> pipe \<Rightarrow> pipe" where
  "pipe_put c p = p\<lparr>pdata := (pdata p)[unat (nwrite p) mod PIPESIZE := c], nwrite := nwrite p + 1\<rparr>"

definition pipe_get :: "pipe \<Rightarrow> u8 \<times> pipe" where
  "pipe_get p = (pdata p ! (unat (nread p) mod PIPESIZE), p\<lparr>nread := nread p + 1\<rparr>)"

definition pipe_full :: "pipe \<Rightarrow> bool" where
  "pipe_full p \<longleftrightarrow> nwrite p = nread p + of_nat PIPESIZE"

definition pipe_empty :: "pipe \<Rightarrow> bool" where
  "pipe_empty p \<longleftrightarrow> nread p = nwrite p"

section \<open>Operations\<close>

definition pipeclose :: "u32 \<Rightarrow> int \<Rightarrow> kst \<Rightarrow> unit kres" where
  "pipeclose p w s =
     seq (acquire (L_pipe p) s) (\<lambda>s.
     seq (if w \<noteq> 0
          then wakeup (Ch_nread p) (upd_pipe p (\<lambda>q. q\<lparr>writeopen := 0\<rparr>) s)
          else wakeup (Ch_nwrite p) (upd_pipe p (\<lambda>q. q\<lparr>readopen := 0\<rparr>) s)) (\<lambda>s.
       if readopen (pipes s p) = 0 \<and> writeopen (pipes s p) = 0
       then seq (release (L_pipe p) s) (kfree p)
       else release (L_pipe p) s))"

text \<open>The wait \<open>while(p->nwrite == p->nread + PIPESIZE)\<close>; the value says whether to go on.\<close>

definition await_room :: "env \<Rightarrow> u32 \<Rightarrow> kst \<Rightarrow> bool kres" where
  "await_room E p =
     loop (\<lambda>s.
       if pipe_full (pipes s p)
       then with_proc s (\<lambda>i.
              if readopen (pipes s p) = 0 \<or> killed (ptable s ! i) \<noteq> 0
              then seq (release (L_pipe p) s) (Ok (Some False))
              else seq (wakeup (Ch_nread p) s) (\<lambda>s.
                   seq (sleep E (Ch_nwrite p) (Some (L_pipe p)) s) (Ok None)))
       else Ok (Some True) s)"

definition pipewrite :: "env \<Rightarrow> u32 \<Rightarrow> u32 \<Rightarrow> int \<Rightarrow> kst \<Rightarrow> int kres" where
  "pipewrite E p addr n s =
     seq (acquire (L_pipe p) s)
       (loop_with (\<lambda>i s.
          if int i < n
          then bnd (await_room E p s) (\<lambda>ok s.
                 if ok
                 then bnd (uread (addr + of_nat i) 1 s) (\<lambda>bs s.
                        Ok (Inl (Suc i)) (upd_pipe p (pipe_put (bs ! 0)) s))
                 else Ok (Inr (- 1)) s)
          else seq (wakeup (Ch_nread p) s) (\<lambda>s.
               seq (release (L_pipe p) s) (Ok (Inr n)))) 0)"

definition await_data :: "env \<Rightarrow> u32 \<Rightarrow> kst \<Rightarrow> bool kres" where
  "await_data E p =
     loop (\<lambda>s.
       if pipe_empty (pipes s p) \<and> writeopen (pipes s p) \<noteq> 0
       then with_proc s (\<lambda>i.
              if killed (ptable s ! i) \<noteq> 0
              then seq (release (L_pipe p) s) (Ok (Some False))
              else seq (sleep E (Ch_nread p) (Some (L_pipe p)) s) (Ok None))
       else Ok (Some True) s)"

definition piperead :: "env \<Rightarrow> u32 \<Rightarrow> u32 \<Rightarrow> int \<Rightarrow> kst \<Rightarrow> int kres" where
  "piperead E p addr n s =
     seq (acquire (L_pipe p) s) (\<lambda>s.
     bnd (await_data E p s) (\<lambda>ok s.
       if \<not> ok then Ok (- 1) s
       else bnd (loop_with (\<lambda>i s.
                   if int i < n \<and> \<not> pipe_empty (pipes s p)
                   then let (c, q) = pipe_get (pipes s p);
                            s = upd_pipe p (\<lambda>_. q) s
                        in seq (uwrite (addr + of_nat i) [c] s) (Ok (Inl (Suc i)))
                   else Ok (Inr (int i)) s) 0 s) (\<lambda>i s.
            seq (wakeup (Ch_nwrite p) s) (\<lambda>s.
            seq (release (L_pipe p) s) (Ok i)))))"

section \<open>The pipe is a bounded queue\<close>

definition pipe_ok :: "pipe \<Rightarrow> bool" where
  "pipe_ok p \<longleftrightarrow> length (pdata p) = PIPESIZE \<and> unat (nwrite p - nread p) \<le> PIPESIZE"

text \<open>The bytes in the pipe, oldest first.\<close>

definition pipe_bytes :: "pipe \<Rightarrow> u8 list" where
  "pipe_bytes p = map (\<lambda>i. pdata p ! (unat (nread p + of_nat i) mod PIPESIZE)) [0..<unat (nwrite p - nread p)]"


text \<open>Ring positions: \<open>PIPESIZE\<close> divides \<open>2^32\<close>, so the wrap-around of the counters does not show.\<close>

lemma ring_pos: "unat ((a :: u32) + of_nat i) mod PIPESIZE = (unat a + i) mod PIPESIZE"
proof -
  have "unat (a + of_nat i) = (unat a + i) mod 2 ^ 32" by (simp add: unat_word_ariths unat_of_nat mod_add_right_eq)
  then show ?thesis by (simp add: mod_mod_cancel)
qed

lemma ring_distinct:
  assumes "i < k" "k < PIPESIZE"
  shows "(a + i) mod PIPESIZE \<noteq> (a + k) mod PIPESIZE"
proof
  assume "(a + i) mod PIPESIZE = (a + k) mod PIPESIZE"
  then have "PIPESIZE dvd k - i" using assms(1) by (metis add_diff_cancel_left add_less_cancel_left less_imp_le mod_eq_dvd_iff_nat)
  then show False using assms by (auto dest: dvd_imp_le)
qed

lemma pipe_nth:
  assumes "i < unat (nwrite p - nread p)"
  shows "pipe_bytes p ! i = pdata p ! ((unat (nread p) + i) mod PIPESIZE)"
  using assms by (simp add: pipe_bytes_def ring_pos)

lemma length_pipe_bytes [simp]: "length (pipe_bytes p) = unat (nwrite p - nread p)"
  by (simp add: pipe_bytes_def)

lemma pipe_full_iff: "pipe_full p \<longleftrightarrow> unat (nwrite p - nread p) = PIPESIZE"
proof -
  have "pipe_full p \<longleftrightarrow> nwrite p - nread p = of_nat PIPESIZE" by (auto simp: pipe_full_def algebra_simps)
  also have "\<dots> \<longleftrightarrow> unat (nwrite p - nread p) = unat (of_nat PIPESIZE :: u32)" by (rule word_unat_eq_iff)
  finally show ?thesis by simp
qed

lemma pipe_empty_iff: "pipe_empty p \<longleftrightarrow> unat (nwrite p - nread p) = 0"
  by (auto simp: pipe_empty_def unat_eq_0)

lemma pipe_put_spec:
  assumes "pipe_ok p" "\<not> pipe_full p"
  shows "pipe_ok (pipe_put c p)" "pipe_bytes (pipe_put c p) = pipe_bytes p @ [c]"
proof -
  let ?k = "unat (nwrite p - nread p)" and ?q = "pipe_put c p"
  have k: "?k < PIPESIZE" using assms by (simp add: pipe_full_iff pipe_ok_def)
  have "nwrite ?q - nread ?q = (nwrite p - nread p) + 1" by (simp add: pipe_put_def)
  also have "unat \<dots> = Suc ?k" using k by (subst unat_add_u32) simp_all
  finally have k': "unat (nwrite ?q - nread ?q) = Suc ?k" .
  then show "pipe_ok ?q" using assms k by (simp add: pipe_ok_def pipe_put_def)
  have pos: "unat (nwrite p) mod PIPESIZE = (unat (nread p) + ?k) mod PIPESIZE"
    using ring_pos [of "nread p" ?k] by simp
  show "pipe_bytes ?q = pipe_bytes p @ [c]"
  proof (rule nth_equalityI)
    fix i assume "i < length (pipe_bytes ?q)"
    then have i: "i < Suc ?k" using k' by simp
    have "pipe_bytes ?q ! i = pdata ?q ! ((unat (nread p) + i) mod PIPESIZE)"
      using i k' by (subst pipe_nth) (simp_all add: pipe_put_def)
    also have "\<dots> = (pipe_bytes p @ [c]) ! i"
    proof (cases "i = ?k")
      case True
      then show ?thesis using pos assms(1) by (simp add: pipe_put_def nth_append pipe_ok_def)
    next
      case False
      then have "i < ?k" using i by simp
      then show ?thesis
        using ring_distinct [OF \<open>i < ?k\<close> k, of "unat (nread p)"] pos by (simp add: pipe_put_def nth_append pipe_nth)
    qed
    finally show "pipe_bytes ?q ! i = (pipe_bytes p @ [c]) ! i" .
  qed (simp add: k')
qed

lemma pipe_get_spec:
  assumes "pipe_ok p" "\<not> pipe_empty p"
  shows "pipe_ok (snd (pipe_get p))" "pipe_bytes p = fst (pipe_get p) # pipe_bytes (snd (pipe_get p))"
proof -
  let ?k = "unat (nwrite p - nread p)" and ?q = "snd (pipe_get p)"
  have k: "0 < ?k" using assms(2) by (simp add: pipe_empty_iff)
  have "nwrite ?q - nread ?q = (nwrite p - nread p) - 1" by (simp add: pipe_get_def)
  also have "unat \<dots> = ?k - 1" using k by (intro unat_minus_one) auto
  finally have k': "unat (nwrite ?q - nread ?q) = ?k - 1" .
  then show "pipe_ok ?q" using assms(1) by (auto simp: pipe_ok_def pipe_get_def)
  show "pipe_bytes p = fst (pipe_get p) # pipe_bytes ?q"
  proof (rule nth_equalityI)
    fix i assume "i < length (pipe_bytes p)"
    then have i: "i < ?k" by simp
    show "pipe_bytes p ! i = (fst (pipe_get p) # pipe_bytes ?q) ! i"
    proof (cases i)
      case 0
      then show ?thesis using k by (simp add: pipe_nth pipe_get_def)
    next
      case (Suc j)
      have "pipe_bytes ?q ! j = pdata p ! ((unat (nread p + 1) + j) mod PIPESIZE)"
        using i Suc k' by (subst pipe_nth) (simp_all add: pipe_get_def)
      also have "(unat (nread p + 1) + j) mod PIPESIZE = (unat (nread p) + i) mod PIPESIZE"
        using ring_pos [of "nread p" 1] Suc by (metis add.assoc mod_add_left_eq of_nat_1 plus_1_eq_Suc)
      finally show ?thesis using i Suc by (simp add: pipe_nth)
    qed
  qed (use k k' in simp)
qed


section \<open>Queues\<close>

text \<open>What the writers and readers of a bounded queue may rely on.\<close>

locale bounded_queue =
  fixes put :: "'a \<Rightarrow> 'q \<Rightarrow> 'q" and get :: "'q \<Rightarrow> 'a \<times> 'q" and isfull :: "'q \<Rightarrow> bool" and isempty :: "'q \<Rightarrow> bool"
    and ok :: "'q \<Rightarrow> bool" and elems :: "'q \<Rightarrow> 'a list" and cap :: nat
  assumes put_elems: "ok q \<Longrightarrow> \<not> isfull q \<Longrightarrow> ok (put x q) \<and> elems (put x q) = elems q @ [x]"
    and get_elems: "ok q \<Longrightarrow> \<not> isempty q \<Longrightarrow> ok (snd (get q)) \<and> elems q = fst (get q) # elems (snd (get q))"
    and full_cap: "ok q \<Longrightarrow> isfull q \<longleftrightarrow> length (elems q) = cap"
    and empty_nil: "ok q \<Longrightarrow> isempty q \<longleftrightarrow> elems q = []"
    and bound: "ok q \<Longrightarrow> length (elems q) \<le> cap"

text \<open>Interleaved writers and readers: a writer that finds the queue full and a reader that finds
  it empty has to wait, which leaves the queue alone. The result is what was accepted, what
  was delivered and the queue at the end.\<close>

datatype 'a qop = Put 'a | Get

fun qrun :: "('a \<Rightarrow> 'q \<Rightarrow> 'q) \<Rightarrow> ('q \<Rightarrow> 'a \<times> 'q) \<Rightarrow> ('q \<Rightarrow> bool) \<Rightarrow> ('q \<Rightarrow> bool) \<Rightarrow> 'a qop list \<Rightarrow> 'q \<Rightarrow>
    'a list \<times> 'a list \<times> 'q" where
  "qrun put get isfull isempty [] q = ([], [], q)"
| "qrun put get isfull isempty (Put x # ops) q =
     (if isfull q then qrun put get isfull isempty ops q
      else let (ins, outs, q) = qrun put get isfull isempty ops (put x q) in (x # ins, outs, q))"
| "qrun put get isfull isempty (Get # ops) q =
     (if isempty q then qrun put get isfull isempty ops q
      else let (x, q) = get q; (ins, outs, q) = qrun put get isfull isempty ops q in (ins, x # outs, q))"

context bounded_queue
begin

lemma qrun_fifo:
  "ok q \<Longrightarrow> qrun put get isfull isempty ops q = (ins, outs, q') \<Longrightarrow> ok q' \<and> elems q @ ins = outs @ elems q'"
proof (induction ops arbitrary: q ins outs)
  case (Cons x ops)
  show ?case
  proof (cases x)
    case (Put b)
    then show ?thesis using Cons.prems put_elems [of q b] Cons.IH [of "put b q"] Cons.IH [of q]
      by (auto split: if_splits prod.splits)
  next
    case Get
    then show ?thesis using Cons.prems get_elems [of q] Cons.IH [of "snd (get q)"] Cons.IH [of q]
      by (auto split: if_splits prod.splits)
  qed
qed simp

end

interpretation pq: bounded_queue pipe_put pipe_get pipe_full pipe_empty pipe_ok pipe_bytes PIPESIZE
proof
  fix q :: pipe assume ok: "pipe_ok q"
  show "pipe_full q \<longleftrightarrow> length (pipe_bytes q) = PIPESIZE" by (simp add: pipe_full_iff)
  show "pipe_empty q \<longleftrightarrow> pipe_bytes q = []" by (metis length_0_conv length_pipe_bytes pipe_empty_iff)
  show "length (pipe_bytes q) \<le> PIPESIZE" using ok by (simp add: pipe_ok_def)
qed (simp_all add: pipe_put_spec pipe_get_spec(1), metis pipe_get_spec(2))

text \<open>C7: The ring buffer of a pipe is a FIFO queue of at most \<open>PIPESIZE\<close> bytes, also when its two
  counters wrap around: in every interleaving of writers and readers that respect the tests
  of \<open>pipewrite\<close> and \<open>piperead\<close>, the bytes that were in the pipe followed by those accepted
  are exactly the bytes delivered followed by those still in it.\<close>

theorem pipe_fifo:
  assumes "pipe_ok p" "qrun pipe_put pipe_get pipe_full pipe_empty ops p = (ins, outs, q)"
  shows "pipe_ok q \<and> length (pipe_bytes q) \<le> PIPESIZE \<and> pipe_bytes p @ ins = outs @ pipe_bytes q"
  using pq.qrun_fifo [OF assms] pq.bound [of q] by blast

definition pipe_wrapping :: pipe where
  "pipe_wrapping = \<lparr>pdata = replicate 512 0, nread = 0xFFFFFFFF, nwrite = 0xFFFFFFFF, readopen = 1, writeopen = 1\<rparr>"

theorem pipe_fifo_witness:
  "pipe_ok pipe_wrapping \<and>
   (case qrun pipe_put pipe_get pipe_full pipe_empty [Get, Put 7, Put 8, Get] pipe_wrapping of
      (ins, outs, q) \<Rightarrow> ins = [7, 8] \<and> outs = [7] \<and> nwrite q = 1 \<and> pipe_bytes pipe_wrapping @ ins = outs @ pipe_bytes q)"
proof -
  have ok: "pipe_ok pipe_wrapping" by (simp add: pipe_ok_def pipe_wrapping_def)
  define r where "r = qrun pipe_put pipe_get pipe_full pipe_empty [Get, Put 7, Put 8, Get] pipe_wrapping"
  have q: "qrun pipe_put pipe_get pipe_full pipe_empty [Get, Put 7, Put 8, Get] pipe_wrapping =
      (fst r, fst (snd r), snd (snd r))" unfolding r_def [symmetric] by simp
  have "fst r = [7, 8]" "fst (snd r) = [7]" "nwrite (snd (snd r)) = 1"
    unfolding r_def by (simp_all add: pipe_put_def pipe_get_def pipe_full_def pipe_empty_def pipe_wrapping_def)
  then show ?thesis unfolding q prod.case using pipe_fifo [OF ok q] ok by simp
qed

end
