(* ===== verification/File.thy ===== *)
theory File
  imports Fs Pipe
begin

text \<open>
  Open files (file.c): the system-wide table of reference-counted file structures, and reading and
  writing through them, to an inode or a pipe. \<open>pipealloc\<close> of pipe.c, which needs the table, is
  here too. A file pointer is an index into \<open>ftable.file\<close>. Buffers are addresses of the
  running process.
\<close>

abbreviation fil :: "kst \<Rightarrow> nat \<Rightarrow> filerec" where "fil s f \<equiv> ftable s ! f"

definition with_ptr :: "'p option \<Rightarrow> ('p \<Rightarrow> 'a kres) \<Rightarrow> 'a kres" where
  "with_ptr po k = (case po of None \<Rightarrow> Fault ''null pointer'' | Some p \<Rightarrow> k p)"

definition fileinit :: "kst \<Rightarrow> kst" where
  "fileinit s = initlock L_ftable ''ftable'' s"

definition filealloc :: "kst \<Rightarrow> nat option kres" where
  "filealloc s =
     seq (acquire L_ftable s) (\<lambda>s.
       case find_idx (\<lambda>f. fref f = 0) (ftable s) of
         Some f \<Rightarrow> seq (release L_ftable (upd_file f (\<lambda>v. v\<lparr>fref := 1\<rparr>) s)) (Ok (Some f))
       | None \<Rightarrow> seq (release L_ftable s) (Ok None))"

definition filedup :: "nat \<Rightarrow> kst \<Rightarrow> nat kres" where
  "filedup f s =
     seq (acquire L_ftable s) (\<lambda>s.
       if fref (fil s f) < 1 then Panic ''filedup''
       else seq (release L_ftable (upd_file f (\<lambda>v. v\<lparr>fref := fref v + 1\<rparr>) s)) (Ok f))"

definition fileclose :: "env \<Rightarrow> nat \<Rightarrow> kst \<Rightarrow> unit kres" where
  "fileclose E f s =
     seq (acquire L_ftable s) (\<lambda>s.
       if fref (fil s f) < 1 then Panic ''fileclose''
       else let s = upd_file f (\<lambda>v. v\<lparr>fref := fref v - 1\<rparr>) s
       in if fref (fil s f) > 0 then release L_ftable s
          else let ff = fil s f;
                   s = upd_file f (\<lambda>v. v\<lparr>fref := 0, ftype := FD_NONE\<rparr>) s
               in seq (release L_ftable s) (\<lambda>s.
                    case ftype ff of
                      FD_PIPE \<Rightarrow> with_ptr (fpipe ff) (\<lambda>p. pipeclose p (sint (writable ff)) s)
                    | FD_INODE \<Rightarrow>
                        seq (begin_op E s) (\<lambda>s.
                        seq (with_ptr (fip ff) (\<lambda>ip. iput E ip s)) (end_op E))
                    | FD_NONE \<Rightarrow> Ok () s))"

definition filestat :: "env \<Rightarrow> nat \<Rightarrow> u32 \<Rightarrow> kst \<Rightarrow> int kres" where
  "filestat E f st s =
     (if ftype (fil s f) = FD_INODE
      then seq (ilock E (fip (fil s f)) s) (\<lambda>s.
           seq (with_ptr (fip (fil s f)) (\<lambda>ip. stati ip st s)) (\<lambda>s.
           seq (iunlock (fip (fil s f)) s) (Ok 0)))
      else Ok (- 1) s)"

definition fileread :: "env \<Rightarrow> devtab \<Rightarrow> nat \<Rightarrow> u32 \<Rightarrow> int \<Rightarrow> kst \<Rightarrow> int kres" where
  "fileread E D f addr n s =
     (if readable (fil s f) = 0 then Ok (- 1) s
      else case ftype (fil s f) of
        FD_PIPE \<Rightarrow> with_ptr (fpipe (fil s f)) (\<lambda>p. piperead E p addr n s)
      | FD_INODE \<Rightarrow>
          seq (ilock E (fip (fil s f)) s) (\<lambda>s.
          with_ptr (fip (fil s f)) (\<lambda>ip.
          bnd (readi E D ip (ToUser addr) (foff (fil s f)) (word_of_int n) s) (\<lambda>(r, _) s.
            let s = (if r > 0 then upd_file f (\<lambda>v. v\<lparr>foff := foff v + word_of_int r\<rparr>) s else s)
            in seq (iunlock (fip (fil s f)) s) (Ok r))))
      | FD_NONE \<Rightarrow> Panic ''fileread'')"

text \<open>\<open>max\<close>, the number of bytes written per transaction.\<close>

definition write_max :: int where
  "write_max = ((LOGSIZE - 1 - 1 - 2) div 2) * 512"

definition filewrite :: "env \<Rightarrow> devtab \<Rightarrow> nat \<Rightarrow> u32 \<Rightarrow> int \<Rightarrow> kst \<Rightarrow> int kres" where
  "filewrite E D f addr n s =
     (if writable (fil s f) = 0 then Ok (- 1) s
      else case ftype (fil s f) of
        FD_PIPE \<Rightarrow> with_ptr (fpipe (fil s f)) (\<lambda>p. pipewrite E p addr n s)
      | FD_INODE \<Rightarrow>
          bnd (loop_with (\<lambda>i s.
                 if i < n
                 then let n1 = (if n - i > write_max then write_max else n - i)
                      in seq (begin_op E s) (\<lambda>s.
                         seq (ilock E (fip (fil s f)) s) (\<lambda>s.
                         with_ptr (fip (fil s f)) (\<lambda>ip.
                         bnd (writei E D ip (FromUser (addr + word_of_int i)) (foff (fil s f)) (word_of_int n1) s) (\<lambda>r s.
                           let s = (if r > 0 then upd_file f (\<lambda>v. v\<lparr>foff := foff v + word_of_int r\<rparr>) s else s)
                           in seq (iunlock (fip (fil s f)) s) (\<lambda>s.
                              seq (end_op E s) (\<lambda>s.
                                if r < 0 then Ok (Inr i) s
                                else if r \<noteq> n1 then Panic ''short filewrite''
                                else Ok (Inl (i + r)) s))))))
                 else Ok (Inr i) s) 0 s) (\<lambda>i. Ok (if i = n then n else - 1))
      | FD_NONE \<Rightarrow> Panic ''filewrite'')"

text \<open>\<open>pipealloc\<close>: the result and the two files. The exit \<open>bad\<close> comes with the pipe (if any) and the
  files allocated so far.\<close>

definition close_opt :: "env \<Rightarrow> nat option \<Rightarrow> kst \<Rightarrow> unit kres" where
  "close_opt E fo s = (case fo of None \<Rightarrow> Ok () s | Some f \<Rightarrow> fileclose E f s)"

definition pipealloc_bad :: "env \<Rightarrow> u32 \<Rightarrow> nat option \<Rightarrow> nat option \<Rightarrow> kst \<Rightarrow> (nat \<times> nat) option kres" where
  "pipealloc_bad E p f0 f1 s =
     seq (if p \<noteq> 0 then kfree p s else Ok () s) (\<lambda>s.
     seq (close_opt E f0 s) (\<lambda>s.
     seq (close_opt E f1 s) (Ok None)))"

definition pipealloc :: "env \<Rightarrow> kst \<Rightarrow> (nat \<times> nat) option kres" where
  "pipealloc E s =
     bnd (filealloc s) (\<lambda>f0 s. case f0 of
       None \<Rightarrow> pipealloc_bad E 0 None None s
     | Some f0 \<Rightarrow>
     bnd (filealloc s) (\<lambda>f1 s. case f1 of
       None \<Rightarrow> pipealloc_bad E 0 (Some f0) None s
     | Some f1 \<Rightarrow>
     bnd (kalloc s) (\<lambda>p s.
       if p = 0 then pipealloc_bad E 0 (Some f0) (Some f1) s
       else let s = upd_pipe p (\<lambda>q. q\<lparr>readopen := 1, writeopen := 1, nwrite := 0, nread := 0\<rparr>) s;
                s = initlock (L_pipe p) ''pipe'' s;
                s = upd_file f0 (\<lambda>v. v\<lparr>ftype := FD_PIPE, readable := 1, writable := 0, fpipe := Some p\<rparr>) s;
                s = upd_file f1 (\<lambda>v. v\<lparr>ftype := FD_PIPE, readable := 0, writable := 1, fpipe := Some p\<rparr>) s
            in Ok (Some (f0, f1)) s)))"

end
