(* ===== verification/Vm.thy ===== *)
theory Vm
  imports Mmu
begin

unbundle bit_operations_syntax

text \<open>
  Address spaces (vm.c): the page walk that may allocate page tables, the mapping of ranges, the
  kernel part of every address space, growing, shrinking, copying and freeing the user part, and
  copying into another address space. \<open>loaduvm\<close>, which reads from a file, is in theory Exec;
  \<open>switchuvm\<close> and \<open>switchkvm\<close> are in theory Sched.
\<close>

section \<open>Segments\<close>

text \<open>\<open>struct segdesc\<close> with its bit fields at their widths, and the macro \<open>SEG\<close>.\<close>

record segdesc =
  lim_15_0 :: "16 word"
  base_15_0 :: "16 word"
  base_23_16 :: "8 word"
  seg_type :: "4 word"
  seg_s :: "1 word"
  seg_dpl :: "2 word"
  seg_p :: "1 word"
  lim_19_16 :: "4 word"
  seg_avl :: "1 word"
  seg_rsv1 :: "1 word"
  seg_db :: "1 word"
  seg_g :: "1 word"
  base_31_24 :: "8 word"

definition SEG :: "4 word \<Rightarrow> u32 \<Rightarrow> u32 \<Rightarrow> 2 word \<Rightarrow> segdesc" where
  "SEG ty base lim dpl =
     \<lparr>lim_15_0 = ucast (drop_bit 12 lim AND 0xffff), base_15_0 = ucast (base AND 0xffff),
      base_23_16 = ucast (drop_bit 16 base AND 0xff), seg_type = ty, seg_s = 1, seg_dpl = dpl, seg_p = 1,
      lim_19_16 = ucast (drop_bit 28 lim), seg_avl = 0, seg_rsv1 = 0, seg_db = 1, seg_g = 1,
      base_31_24 = ucast (drop_bit 24 base)\<rparr>"

text \<open>\<open>seginit\<close> on the executing CPU, whose \<open>c->cpu\<close> lies at \<open>cpuaddr\<close>: the segment table it
  loads, by index, and the state with no current process.\<close>

definition seginit :: "u32 \<Rightarrow> (nat \<rightharpoonup> segdesc) \<Rightarrow> kst \<Rightarrow> (nat \<rightharpoonup> segdesc) \<times> kst" where
  "seginit cpuaddr gdt s =
     (gdt(1 \<mapsto> SEG (0x8 OR 0x2) 0 0xffffffff 0,
          2 \<mapsto> SEG 0x2 0 0xffffffff 0,
          4 \<mapsto> SEG (0x8 OR 0x2) 0 0xffffffff 3,
          5 \<mapsto> SEG 0x2 0 0xffffffff 3,
          3 \<mapsto> SEG 0x2 cpuaddr 8 0),
      upd_cpu (\<lambda>c. c\<lparr>cproc := None\<rparr>) s)"

section \<open>Page tables\<close>

abbreviation EXTMEM :: u32 where "EXTMEM \<equiv> 0x100000"
abbreviation DEVSPACE :: u32 where "DEVSPACE \<equiv> 0xFE000000"
abbreviation KERNLINK :: u32 where "KERNLINK \<equiv> KERNBASE + EXTMEM"
abbreviation NPDENTRIES :: nat where "NPDENTRIES \<equiv> 1024"

definition upd_mem :: "(memory \<Rightarrow> memory) \<Rightarrow> kst \<Rightarrow> kst" where
  "upd_mem f s = s\<lparr>mem := f (mem s)\<rparr>"

definition printk :: "string \<Rightarrow> kst \<Rightarrow> kst" where
  "printk msg s = s\<lparr>console := Cprintf msg [] # console s\<rparr>"

text \<open>The address of the entry for \<open>va\<close>, or 0.\<close>

definition walkpgdir :: "u32 \<Rightarrow> u32 \<Rightarrow> bool \<Rightarrow> kst \<Rightarrow> u32 kres" where
  "walkpgdir pd va alloc s =
     (let pde = pde_at pd va; e = load32 (mem s) pde
      in if e AND PTE_P \<noteq> 0 then Ok (P2V (PTE_ADDR e) + 4 * PTX va) s
         else if \<not> alloc then Ok 0 s
         else bnd (kalloc s) (\<lambda>pgtab s.
           if pgtab = 0 then Ok 0 s
           else let s = upd_mem (\<lambda>m. memset m pgtab 0 PGSIZE) s;
                    s = upd_mem (\<lambda>m. store32 m pde (V2P pgtab OR PTE_P OR PTE_W OR PTE_U)) s
                in Ok (pgtab + 4 * PTX va) s))"

definition mappages :: "u32 \<Rightarrow> u32 \<Rightarrow> u32 \<Rightarrow> u32 \<Rightarrow> u32 \<Rightarrow> kst \<Rightarrow> int kres" where
  "mappages pd va len pa perms s =
     (let last = PGROUNDDOWN (va + len - 1)
      in loop_with (\<lambda>(a, pa) s.
           bnd (walkpgdir pd a True s) (\<lambda>pte s.
             if pte = 0 then Ok (Inr (- 1)) s
             else if load32 (mem s) pte AND PTE_P \<noteq> 0 then Panic ''remap''
             else let s = upd_mem (\<lambda>m. store32 m pte (pa OR perms OR PTE_P)) s
                  in if a = last then Ok (Inr 0) s
                     else Ok (Inl (a + PGSIZE, pa + PGSIZE)) s)) (PGROUNDDOWN va, pa) s)"

section \<open>The kernel part\<close>

record kmap =
  virt :: u32
  phys_start :: u32
  phys_end :: u32
  perm :: u32

definition kmaps :: "symbols \<Rightarrow> kmap list" where
  "kmaps y =
    [\<lparr>virt = KERNBASE, phys_start = 0, phys_end = EXTMEM, perm = PTE_W\<rparr>,
     \<lparr>virt = KERNLINK, phys_start = V2P KERNLINK, phys_end = V2P (sym_data y), perm = 0\<rparr>,
     \<lparr>virt = sym_data y, phys_start = V2P (sym_data y), phys_end = PHYSTOP, perm = PTE_W\<rparr>,
     \<lparr>virt = DEVSPACE, phys_start = DEVSPACE, phys_end = 0, perm = PTE_W\<rparr>]"

fun map_all :: "u32 \<Rightarrow> kmap list \<Rightarrow> kst \<Rightarrow> u32 kres" where
  "map_all pd [] s = Ok pd s"
| "map_all pd (k # ks) s =
     bnd (mappages pd (virt k) (phys_end k - phys_start k) (phys_start k) (perm k) s) (\<lambda>r s.
       if r < 0 then Ok 0 s else map_all pd ks s)"

definition setupkvm :: "kst \<Rightarrow> u32 kres" where
  "setupkvm s =
     bnd (kalloc s) (\<lambda>pd s.
       if pd = 0 then Ok 0 s
       else let s = upd_mem (\<lambda>m. memset m pd 0 PGSIZE) s
            in if P2V PHYSTOP > DEVSPACE then Panic ''PHYSTOP too high''
               else map_all pd (kmaps (syms s)) s)"

definition kvmalloc :: "kst \<Rightarrow> unit kres" where
  "kvmalloc s = bnd (setupkvm s) (\<lambda>pd s. Ok () (switchkvm (s\<lparr>kpgdir := pd\<rparr>)))"

section \<open>The user part\<close>

text \<open>\<open>inituvm\<close> uses the page without a check; with no page left the store to address 0 faults.\<close>

definition inituvm :: "u32 \<Rightarrow> u32 \<Rightarrow> u32 \<Rightarrow> kst \<Rightarrow> unit kres" where
  "inituvm pd init n s =
     (if n \<ge> PGSIZE then Panic ''inituvm: more than a page''
      else bnd (kalloc s) (\<lambda>pg s.
        if pg = 0 then Panic ''trap''
        else bnd (mappages pd 0 PGSIZE (V2P pg) (PTE_W OR PTE_U) (upd_mem (\<lambda>m. memset m pg 0 PGSIZE) s)) (\<lambda>_ s.
             Ok () (upd_mem (\<lambda>m. memmove m pg init n) s))))"

definition deallocuvm :: "u32 \<Rightarrow> u32 \<Rightarrow> u32 \<Rightarrow> kst \<Rightarrow> u32 kres" where
  "deallocuvm pd oldsz newsz s =
     (if newsz \<ge> oldsz then Ok oldsz s
      else loop_with (\<lambda>a s.
        if a < oldsz
        then bnd (walkpgdir pd a False s) (\<lambda>pte s.
               if pte = 0 then Ok (Inl (PGADDR (PDX a + 1) 0 0 - PGSIZE + PGSIZE)) s
               else let e = load32 (mem s) pte
                    in if e AND PTE_P \<noteq> 0
                       then let pa = PTE_ADDR e
                            in if pa = 0 then Panic ''kfree''
                               else seq (kfree (P2V pa) s) (\<lambda>s.
                                    Ok (Inl (a + PGSIZE)) (upd_mem (\<lambda>m. store32 m pte 0) s))
                       else Ok (Inl (a + PGSIZE)) s)
        else Ok (Inr newsz) s) (PGROUNDUP newsz) s)"

definition allocuvm :: "u32 \<Rightarrow> u32 \<Rightarrow> u32 \<Rightarrow> kst \<Rightarrow> u32 kres" where
  "allocuvm pd oldsz newsz s =
     (if newsz \<ge> KERNBASE then Ok 0 s
      else if newsz < oldsz then Ok oldsz s
      else loop_with (\<lambda>a s.
        if a < newsz
        then bnd (kalloc s) (\<lambda>pg s.
               if pg = 0
               then bnd (deallocuvm pd newsz oldsz (printk ''allocuvm out of memory'' s)) (\<lambda>_. Ok (Inr 0))
               else bnd (mappages pd a PGSIZE (V2P pg) (PTE_W OR PTE_U)
                           (upd_mem (\<lambda>m. memset m pg 0 PGSIZE) s)) (\<lambda>r s.
                      if r < 0
                      then bnd (deallocuvm pd newsz oldsz (printk ''allocuvm out of memory (2)'' s)) (\<lambda>_ s.
                           seq (kfree pg s) (Ok (Inr 0)))
                      else Ok (Inl (a + PGSIZE)) s))
        else Ok (Inr newsz) s) (PGROUNDUP oldsz) s)"

definition freevm :: "u32 \<Rightarrow> kst \<Rightarrow> unit kres" where
  "freevm pd s =
     (if pd = 0 then Panic ''freevm: no pgdir''
      else bnd (deallocuvm pd KERNBASE 0 s) (\<lambda>_ s.
           seq (for_each (\<lambda>i s.
                  let e = load32 (mem s) (pd + 4 * of_nat i)
                  in if e AND PTE_P \<noteq> 0 then kfree (P2V (PTE_ADDR e)) s else Ok () s) [0..<NPDENTRIES] s)
               (kfree pd)))"

definition clearpteu :: "u32 \<Rightarrow> u32 \<Rightarrow> kst \<Rightarrow> unit kres" where
  "clearpteu pd uva s =
     bnd (walkpgdir pd uva False s) (\<lambda>pte s.
       if pte = 0 then Panic ''clearpteu''
       else Ok () (upd_mem (\<lambda>m. store32 m pte (load32 m pte AND NOT PTE_U)) s))"

definition copyuvm :: "u32 \<Rightarrow> u32 \<Rightarrow> kst \<Rightarrow> u32 kres" where
  "copyuvm pd n s =
     bnd (setupkvm s) (\<lambda>d s.
       if d = 0 then Ok 0 s
       else loop_with (\<lambda>i s.
              if i < n
              then bnd (walkpgdir pd i False s) (\<lambda>pte s.
                     if pte = 0 then Panic ''copyuvm: pte should exist''
                     else let e = load32 (mem s) pte
                          in if e AND PTE_P = 0 then Panic ''copyuvm: page not present''
                             else bnd (kalloc s) (\<lambda>pg s.
                               if pg = 0 then seq (freevm d s) (Ok (Inr 0))
                               else bnd (mappages d i PGSIZE (V2P pg) (PTE_FLAGS e)
                                          (upd_mem (\<lambda>m. memmove m pg (P2V (PTE_ADDR e)) PGSIZE) s)) (\<lambda>r s.
                                    if r < 0 then seq (freevm d s) (Ok (Inr 0))
                                    else Ok (Inl (i + PGSIZE)) s)))
              else Ok (Inr d) s) 0 s)"

text \<open>\<open>uva2ka\<close> dereferences the entry without testing for a missing page table.\<close>

definition uva2ka :: "u32 \<Rightarrow> u32 \<Rightarrow> kst \<Rightarrow> u32 kres" where
  "uva2ka pd uva s =
     bnd (walkpgdir pd uva False s) (\<lambda>pte s.
       if pte = 0 then Fault ''uva2ka: null pte''
       else let e = load32 (mem s) pte
            in if e AND PTE_P = 0 then Ok 0 s
               else if e AND PTE_U = 0 then Ok 0 s
               else Ok (P2V (PTE_ADDR e)) s)"

text \<open>The source buffer is given by its bytes.\<close>

definition copyout :: "u32 \<Rightarrow> u32 \<Rightarrow> u8 list \<Rightarrow> kst \<Rightarrow> int kres" where
  "copyout pd va p s =
     loop_with (\<lambda>(va, buf) s.
       if buf \<noteq> []
       then let va0 = PGROUNDDOWN va
            in bnd (uva2ka pd va0 s) (\<lambda>pa0 s.
                 if pa0 = 0 then Ok (Inr (- 1)) s
                 else let n = min (unat (PGSIZE - (va - va0))) (length buf);
                          s = upd_mem (\<lambda>m. store_bytes m (pa0 + (va - va0)) (take n buf)) s
                      in Ok (Inl (va0 + PGSIZE, drop n buf)) s)
       else Ok (Inr 0) s) (va, p) s"

section \<open>Entries of a table\<close>

text \<open>A table is a page of 1024 entries; two entries share no byte.\<close>

abbreviation entry :: "u32 \<Rightarrow> nat \<Rightarrow> u32" where "entry P i \<equiv> P + 4 * of_nat i"

lemma entry_byte: "entry P i + of_nat k = P + of_nat (4 * i + k)"
  by simp

lemma page_offset: "n < 4096 \<Longrightarrow> unat (P + of_nat n - P :: u32) = n"
  by (simp add: unat_of_nat32)

lemma entry_in_page: "i < 1024 \<Longrightarrow> k < 4 \<Longrightarrow> in_block P 4096 (entry P i + of_nat k)"
  unfolding entry_byte in_block_def using page_offset [of "4 * i + k" P] by simp

lemma entry_apart:
  assumes "P mod PGSIZE = 0" "Q mod PGSIZE = 0" "i < 1024" "j < 1024" "\<not> (P = Q \<and> i = j)" "k < 4"
  shows "\<not> in_block (entry P i) 4 (entry Q j + of_nat k)"
proof
  let ?x = "entry Q j + of_nat k" and ?r = "unat (entry Q j + of_nat k - entry P i)"
  assume "in_block (entry P i) 4 ?x"
  then have r: "?r < 4" by (simp add: in_block_def)
  have "?x = entry P i + of_nat ?r" by simp
  then have eq: "Q + of_nat (4 * j + k) = P + of_nat (4 * i + ?r)" unfolding entry_byte .
  show False
  proof (cases "P = Q")
    case True
    with eq have "unat (P + of_nat (4 * j + k) - P) = unat (P + of_nat (4 * i + ?r) - P)" by simp
    then have "4 * j + k = 4 * i + ?r"
      using page_offset [of "4 * j + k" P] page_offset [of "4 * i + ?r" P] assms(3,4,6) r by simp
    moreover have "\<And>r. 4 * j + k = 4 * i + r \<Longrightarrow> r < 4 \<Longrightarrow> i = j" using assms(6) by presburger
    ultimately show False using assms(5) r True by blast
  next
    case False
    have "in_block P 4096 (P + of_nat (4 * i + ?r))"
      using page_offset [of "4 * i + ?r" P] assms(3) r by (simp add: in_block_def)
    then show False using page_disjoint [OF assms(1,2), of "4 * j + k"] False assms(4,6) eq by simp
  qed
qed

lemma load32_entry:
  assumes "P mod PGSIZE = 0" "Q mod PGSIZE = 0" "i < 1024" "j < 1024"
  shows "load32 (store32 m (entry P i) v) (entry Q j) = (if P = Q \<and> i = j then v else load32 m (entry Q j))"
proof (cases "P = Q \<and> i = j")
  case False
  have "load32 (store32 m (entry P i) v) (entry Q j) = load32 m (entry Q j)"
    by (rule load32_cong, rule store32_outside, rule entry_apart [OF assms False])
  then show ?thesis by (simp only: if_not_P [OF False])
qed simp

lemma load32_page_cong:
  assumes "P mod PGSIZE = 0" "Q mod PGSIZE = 0" "P \<noteq> Q" "j < 1024" "\<And>a. \<not> in_block P 4096 a \<Longrightarrow> m' a = m a"
  shows "load32 m' (entry Q j) = load32 m (entry Q j)"
proof (rule load32_cong, rule assms(5))
  fix k :: nat assume "k < 4"
  then show "\<not> in_block P 4096 (entry Q j + of_nat k)"
    unfolding entry_byte using assms(3,4) by (intro page_disjoint [OF assms(1,2)]) auto
qed

lemma memset_outside: "\<not> in_block P 4096 a \<Longrightarrow> memset m P c PGSIZE a = m a"
  by (simp add: memset_eq store_bytes_outside)

lemma load32_zeroed:
  assumes "j < 1024"
  shows "load32 (memset m P 0 PGSIZE) (entry P j) = 0"
proof -
  have "memset m P 0 PGSIZE (entry P j + of_nat k) = 0" if "k < 4" for k
    using entry_in_page [OF assms that, of P] by (simp add: memset_eq store_bytes_at in_block_def)
  then have "load_bytes (memset m P 0 PGSIZE) (entry P j) 4 = replicate 4 0"
    by (intro nth_equalityI) simp_all
  then show ?thesis by (simp add: load32_def word32_def)
qed

section \<open>Well-formed page directories\<close>

abbreviation present :: "u32 \<Rightarrow> bool" where "present e \<equiv> e AND PTE_P \<noteq> 0"
abbreviation table :: "u32 \<Rightarrow> u32" where "table e \<equiv> P2V (PTE_ADDR e)"
abbreviation pde :: "memory \<Rightarrow> u32 \<Rightarrow> nat \<Rightarrow> u32" where "pde m pd i \<equiv> load32 m (entry pd i)"

definition pdi :: "u32 \<Rightarrow> nat" where "pdi va = unat (PDX va)"
definition pti :: "u32 \<Rightarrow> nat" where "pti va = unat (PTX va)"

definition pte :: "memory \<Rightarrow> u32 \<Rightarrow> u32 \<Rightarrow> u32" where
  "pte m pd va = load32 m (entry (table (pde m pd (pdi va))) (pti va))"

text \<open>The page tables are pages of their own, none of them at address 0: the directory is not one of its
  tables and no two entries of the directory share a table.\<close>

definition vm_ok :: "memory \<Rightarrow> u32 \<Rightarrow> bool" where
  "vm_ok m pd \<longleftrightarrow> pd mod PGSIZE = 0 \<and>
     (\<forall>i<1024. present (pde m pd i) \<longrightarrow> table (pde m pd i) \<noteq> pd \<and> table (pde m pd i) \<noteq> 0) \<and>
     (\<forall>i<1024. \<forall>j<1024. present (pde m pd i) \<longrightarrow> present (pde m pd j) \<longrightarrow>
        table (pde m pd i) = table (pde m pd j) \<longrightarrow> i = j)"

definition tables :: "memory \<Rightarrow> u32 \<Rightarrow> u32 set" where
  "tables m pd = {table (pde m pd i) | i. i < 1024 \<and> present (pde m pd i)}"

lemma index_less: "pdi va < 1024" "pti va < 1024"
proof -
  have m: "(0x3FF :: u32) = mask 10" by (simp add: mask_eq_exp_minus_1)
  have "unat (x AND 0x3FF :: u32) < 1024" for x
    unfolding m take_bit_eq_mask [symmetric] by (simp add: take_bit_eq_mod unat_mod)
  then show "pdi va < 1024" "pti va < 1024" by (simp_all add: pdi_def pti_def PDX_def PTX_def)
qed

lemma at_entry: "pde_at pd va = entry pd (pdi va)" "pte_at m pd va = entry (table (pde m pd (pdi va))) (pti va)"
  by (simp_all add: pde_at_def pte_at_def pdi_def pti_def)

lemma translate_entries:
  "translate m pd w va =
     (if present (pde m pd (pdi va)) \<and> (w \<longrightarrow> pde m pd (pdi va) AND PTE_W \<noteq> 0) \<and>
         present (pte m pd va) \<and> (w \<longrightarrow> pte m pd va AND PTE_W \<noteq> 0)
      then Some (P2V (PTE_ADDR (pte m pd va)) + (va AND 0xFFF)) else None)"
  by (auto simp: translate_def Let_def at_entry pte_def)

lemma translate_cong:
  assumes "pde m' pd (pdi va) = pde m pd (pdi va)" "present (pde m pd (pdi va)) \<Longrightarrow> pte m' pd va = pte m pd va"
  shows "translate m' pd w va = translate m pd w va"
  using assms by (cases "present (pde m pd (pdi va))") (simp_all add: translate_entries)

lemma P2V_aligned: "P2V a mod PGSIZE = 0 \<longleftrightarrow> a mod PGSIZE = 0"
proof -
  have "unat (P2V a) mod 4096 = (unat a + 4096 * 524288) mod 4294967296 mod 4096"
    by (simp add: P2V_def unat_word_ariths)
  also have "\<dots> = (unat a + 4096 * 524288) mod 4096" by (rule mod_mod_cancel) simp
  also have "\<dots> = unat a mod 4096" by (rule mod_mult_self2)
  finally have "unat (P2V a mod PGSIZE) = unat (a mod PGSIZE)" by (simp add: unat_mod)
  then show ?thesis by (metis unat_eq_0)
qed

lemma V2P_P2V: "V2P a = P2V a" "P2V (P2V a) = a"
  by (simp_all add: V2P_def P2V_def)

lemma table_aligned: "table e mod PGSIZE = 0"
proof -
  have "PTE_ADDR e = PGROUNDDOWN e" by (simp add: PTE_ADDR_def PGROUNDDOWN_def)
  then have "unat (PTE_ADDR e mod PGSIZE) = 0" by (simp add: unat_mod unat_PGROUNDDOWN)
  then show ?thesis by (simp add: unat_eq_0 P2V_aligned)
qed

lemma same_entries_same_page:
  assumes "pdi va = pdi va'" "pti va = pti va'"
  shows "PGROUNDDOWN va = PGROUNDDOWN va'"
proof (rule bit_word_eqI)
  have m: "(0x3FF :: u32) = mask 10" and m12: "(0xFFF :: u32) = mask 12" by (simp_all add: mask_eq_exp_minus_1)
  have d: "PDX va = PDX va'" "PTX va = PTX va'" using assms by (simp_all add: pdi_def pti_def word_unat_eq_iff)
  fix n assume n: "n < LENGTH(32)"
  have p: "bit (PTX v) k \<longleftrightarrow> k < 10 \<and> bit v (12 + k)" and q: "bit (PDX v) k \<longleftrightarrow> k < 10 \<and> bit v (22 + k)" for v k
    unfolding PTX_def PDX_def m by (auto simp: bit_simps)
  have "bit va n = bit va' n" if "12 \<le> n"
  proof (cases "n < 22")
    case True
    then show ?thesis using that p [of va "n - 12"] p [of va' "n - 12"] d by auto
  next
    case False
    then show ?thesis using n q [of va "n - 22"] q [of va' "n - 22"] d by auto
  qed
  then show "bit (PGROUNDDOWN va) n = bit (PGROUNDDOWN va') n"
    using n unfolding PGROUNDDOWN_def by (auto simp: m12 bit_simps not_less)
qed

section \<open>Mapping one page\<close>

lemma kmem_inv_write:
  assumes "kmem_inv s xs" "P mod PGSIZE = 0" "P \<notin> set xs" "\<And>a. \<not> in_block P 4096 a \<Longrightarrow> f (mem s) a = mem s a"
  shows "kmem_inv (upd_mem f s) xs"
proof -
  note d = kmem_invD [OF assms(1)]
  have "free_chain (f (mem s)) (freelist s) xs = free_chain (mem s) (freelist s) xs"
    using d(3) by (intro free_chain_outside [OF assms(2,3) _ assms(4)]) (auto simp: page_ok_def)
  then show ?thesis using d
    by (intro kmem_invI [of _ _ s]) (simp_all add: upd_mem_def cpu_ok_def lock_free_def)
qed

lemma store32_entry_outside:
  "i < 1024 \<Longrightarrow> \<not> in_block P 4096 a \<Longrightarrow> store32 m (entry P i) v a = m a"
proof (rule store32_outside, rule notI)
  assume i: "i < 1024" and out: "\<not> in_block P 4096 a" and "in_block (entry P i) 4 a"
  then have k: "unat (a - entry P i) < 4" by (simp add: in_block_def)
  have "a = entry P i + of_nat (unat (a - entry P i))" by simp
  then show False using entry_in_page [OF i k, of P] out by simp
qed

text \<open>An entry made of a page address and flags.\<close>

lemma entry_bits:
  assumes "X mod PGSIZE = 0" "f AND NOT 0xFFF = 0" "g AND NOT 0xFFF = 0"
  shows "PTE_ADDR (X OR f) = X" "(X OR f) AND g = f AND g"
proof -
  have m: "(0xFFF :: u32) = mask 12" by (simp add: mask_eq_exp_minus_1)
  have low: "X AND 0xFFF = 0"
    using assms(1) unfolding m take_bit_eq_mask [symmetric] by (simp add: take_bit_eq_mod)
  have "X AND NOT 0xFFF = PGROUNDDOWN X" by (simp add: PGROUNDDOWN_def)
  then have "X AND NOT 0xFFF = X" using assms(1) by (simp add: PGROUNDDOWN_eq)
  then show "PTE_ADDR (X OR f) = X"
    using assms(2) by (simp add: PTE_ADDR_def bit.conj_disj_distrib2)
  have "g = g AND (0xFFF OR NOT 0xFFF)" by simp
  also have "\<dots> = g AND 0xFFF" using assms(3) by (simp only: bit.conj_disj_distrib or.right_neutral)
  finally have "X AND g = (X AND 0xFFF) AND g" by (metis and.assoc and.commute)
  then show "(X OR f) AND g = f AND g" using low by (simp add: bit.conj_disj_distrib2)
qed

definition vm_inv :: "kst \<Rightarrow> u32 \<Rightarrow> u32 list \<Rightarrow> bool" where
  "vm_inv s pd xs \<longleftrightarrow> kmem_inv s xs \<and> vm_ok (mem s) pd \<and> pd \<notin> set xs \<and> tables (mem s) pd \<inter> set xs = {}"

lemma vm_invD:
  assumes "vm_inv s pd xs"
  shows "kmem_inv s xs" "vm_ok (mem s) pd" "pd mod PGSIZE = 0" "pd \<notin> set xs"
    "\<And>i. i < 1024 \<Longrightarrow> present (pde (mem s) pd i) \<Longrightarrow> table (pde (mem s) pd i) \<noteq> pd \<and> table (pde (mem s) pd i) \<noteq> 0 \<and> table (pde (mem s) pd i) \<notin> set xs"
  using assms by (auto simp: vm_inv_def vm_ok_def tables_def)

text \<open>Writing an entry of a page table.\<close>

lemma store_pte:
  assumes inv: "vm_inv s pd xs" and p: "present (pde (mem s) pd (pdi va))"
    and t_def: "t = upd_mem (\<lambda>m. store32 m (entry (table (pde (mem s) pd (pdi va))) (pti va)) v) s"
  shows "vm_inv t pd xs" "\<And>i. i < 1024 \<Longrightarrow> pde (mem t) pd i = pde (mem s) pd i" "pte (mem t) pd va = v"
    "\<And>w va'. PGROUNDDOWN va' \<noteq> PGROUNDDOWN va \<Longrightarrow> translate (mem t) pd w va' = translate (mem s) pd w va'"
proof -
  let ?T = "table (pde (mem s) pd (pdi va))"
  note d = vm_invD [OF inv]
  note i = index_less
  have T: "?T mod PGSIZE = 0" "?T \<noteq> pd" "?T \<notin> set xs" using table_aligned d(5) [OF i(1) p] by auto
  have mem: "load32 (mem t) (entry Q j) = (if ?T = Q \<and> pti va = j then v else load32 (mem s) (entry Q j))"
    if "Q mod PGSIZE = 0" "j < 1024" for Q j
    using load32_entry [OF T(1) that(1) i(2) that(2)] by (simp add: t_def upd_mem_def)
  show pd: "pde (mem t) pd k = pde (mem s) pd k" if "k < 1024" for k using mem [OF d(3) that] T(2) by simp
  have "kmem_inv t xs" unfolding t_def
    using T i(2) by (intro kmem_inv_write [OF d(1)]) (auto intro: store32_entry_outside)
  moreover have "vm_ok (mem t) pd" "tables (mem t) pd = tables (mem s) pd"
    using d(2) by (simp add: vm_ok_def pd, unfold tables_def, intro Collect_cong ex_cong1, auto simp: pd)
  ultimately show "vm_inv t pd xs" using inv by (simp add: vm_inv_def)
  show "pte (mem t) pd va = v" unfolding pte_def pd [OF i(1)] by (simp only: mem [OF T(1) i(2)]) simp
  fix w va' assume "PGROUNDDOWN va' \<noteq> PGROUNDDOWN va"
  then have ne: "pdi va' \<noteq> pdi va \<or> pti va' \<noteq> pti va" using same_entries_same_page by blast
  have "pte (mem t) pd va' = pte (mem s) pd va'" if "present (pde (mem s) pd (pdi va'))"
  proof -
    have "table (pde (mem s) pd (pdi va')) = ?T \<Longrightarrow> pdi va' = pdi va"
      using d(2) i(1) that p unfolding vm_ok_def by blast
    then show ?thesis using ne unfolding pte_def pd [OF i(1)] by (auto simp: mem [OF table_aligned i(2)])
  qed
  then show "translate (mem t) pd w va' = translate (mem s) pd w va'"
    by (rule translate_cong [OF pd [OF i(1)]])
qed

text \<open>A new page table.\<close>

lemma walkpgdir_present:
  assumes "present (pde (mem s) pd (pdi va))"
  shows "walkpgdir pd va al s = Ok (entry (table (pde (mem s) pd (pdi va))) (pti va)) s"
  using assms by (simp add: walkpgdir_def Let_def at_entry pti_def)

lemma walkpgdir_new:
  assumes inv: "vm_inv s pd (x # xs)" and np: "\<not> present (pde (mem s) pd (pdi va))"
  obtains t where "walkpgdir pd va True s = Ok (entry x (pti va)) t" "vm_inv t pd xs"
    "present (pde (mem t) pd (pdi va))" "pde (mem t) pd (pdi va) AND PTE_W \<noteq> 0" "table (pde (mem t) pd (pdi va)) = x"
    "pte (mem t) pd va = 0" "\<And>w va'. translate (mem t) pd w va' = translate (mem s) pd w va'" "syms t = syms s"
proof -
  note d = vm_invD [OF inv]
  obtain s1 where s1: "kalloc s = Ok x s1" "kmem_inv s1 xs" "mem s1 = mem s" "syms s1 = syms s"
    using kalloc_spec [OF d(1)] by auto
  have ok: "page_ok s x" using kmem_invD(3) [OF d(1)] by simp
  have x: "x mod PGSIZE = 0" "x \<noteq> 0" "x \<notin> set xs" "pd \<noteq> x"
    using ok page_ok_nonzero [OF ok] kmem_invD(2) [OF d(1)] d(4) by (simp_all add: page_ok_def)
  define e where "e = V2P x OR PTE_P OR PTE_W OR PTE_U"
  define z where "z = upd_mem (\<lambda>m. memset m x 0 PGSIZE) s1"
  define t where "t = upd_mem (\<lambda>m. store32 m (entry pd (pdi va)) e) z"
  have e: "present e" "e AND PTE_W \<noteq> 0" "table e = x"
    using entry_bits [of "V2P x" "PTE_P OR PTE_W OR PTE_U" PTE_P] entry_bits [of "V2P x" "PTE_P OR PTE_W OR PTE_U" PTE_W] x(1)
    by (simp_all add: e_def V2P_P2V P2V_aligned or.assoc)
  have run: "walkpgdir pd va True s = Ok (entry x (pti va)) t"
    using np s1(1) x(2) by (simp add: walkpgdir_def Let_def at_entry pti_def t_def z_def e_def)
  have zer: "load32 (mem z) (entry Q j) = (if Q = x then 0 else load32 (mem s) (entry Q j))"
    if "Q mod PGSIZE = 0" "j < 1024" for Q j
    using load32_page_cong [OF x(1) that(1) _ that(2), of "memset (mem s) x 0 PGSIZE" "mem s"] load32_zeroed [OF that(2)]
    by (auto simp: z_def upd_mem_def s1(3) memset_outside)
  have mem: "load32 (mem t) (entry Q j) = (if Q = pd \<and> j = pdi va then e else if Q = x then 0 else load32 (mem s) (entry Q j))"
    if "Q mod PGSIZE = 0" "j < 1024" for Q j
    using load32_entry [OF d(3) that(1) index_less(1) that(2), of "mem z"] zer [OF that] by (auto simp: t_def upd_mem_def)
  have pd: "pde (mem t) pd i = (if i = pdi va then e else pde (mem s) pd i)" if "i < 1024" for i
    using mem [OF d(3) that] x(4) by auto
  have kz: "kmem_inv z xs" unfolding z_def by (rule kmem_inv_write [OF s1(2) x(1,3)]) (rule memset_outside)
  have "pd \<notin> set xs" using d(4) by simp
  then have "kmem_inv t xs" unfolding t_def
    by (rule kmem_inv_write [OF kz d(3)]) (rule store32_entry_outside [OF index_less(1)])
  moreover have "vm_ok (mem t) pd"
  proof -
    have "table (pde (mem s) pd i) \<noteq> x" if "i < 1024" "present (pde (mem s) pd i)" for i using d(5) [OF that] by auto
    then show ?thesis using d(2,3) x(2,4) e unfolding vm_ok_def by (auto simp: pd) blast
  qed
  moreover have "tables (mem t) pd \<subseteq> insert x (tables (mem s) pd)"
    by (auto simp: tables_def pd e(3) split: if_splits)
  ultimately have inv': "vm_inv t pd xs" using inv x(3) by (auto simp: vm_inv_def)
  have p0: "pte (mem t) pd va' = 0" if "pdi va' = pdi va" for va'
    using mem [OF x(1) index_less(2)] x(4) by (auto simp: pte_def pd index_less that e(3))
  have "translate (mem t) pd w va' = translate (mem s) pd w va'" for w va'
  proof (cases "pdi va' = pdi va")
    case True
    then show ?thesis using np p0 [OF True] by (simp add: translate_entries)
  next
    case False
    then have "pte (mem t) pd va' = pte (mem s) pd va'" if "present (pde (mem s) pd (pdi va'))"
      using d(5) [OF index_less(1) that] by (auto simp: pte_def pd index_less mem table_aligned)
    then show ?thesis using False by (intro translate_cong) (simp_all add: pd index_less)
  qed
  then show ?thesis
    using that [OF run inv'] e p0 [OF refl] by (simp add: pd index_less t_def z_def upd_mem_def s1(4))
qed

text \<open>The loop of \<open>mappages\<close> for one page, once its page table is there.\<close>

lemma PGROUNDDOWN_aligned: "va mod PGSIZE = 0 \<Longrightarrow> PGROUNDDOWN va = va"
  by (simp add: PGROUNDDOWN_eq)

lemma PGROUNDDOWN_in_page:
  assumes "va mod PGSIZE = 0" "i < 4096"
  shows "PGROUNDDOWN (va + of_nat i) = va" "(va + of_nat i) AND 0xFFF = of_nat i"
proof -
  have v: "unat va mod 4096 = 0" using unat_mod_page [OF assms(1)] by simp
  note sp = same_page [of va i, unfolded v, simplified, OF assms(2)]
  obtain q where "unat va = 4096 * q" using unat_mod_page [OF assms(1)] by (rule dvdE)
  then have "unat (PGROUNDDOWN (va + of_nat i)) = unat va"
    using sp(1) assms(2) by (simp add: unat_PGROUNDDOWN)
  then show "PGROUNDDOWN (va + of_nat i) = va" by (simp add: word_unat_eq_iff)
  have m: "(0xFFF :: u32) = mask 12" by (simp add: mask_eq_exp_minus_1)
  have "va AND 0xFFF = 0" using assms(1) unfolding m take_bit_eq_mask [symmetric] by (simp add: take_bit_eq_mod)
  then show "(va + of_nat i) AND 0xFFF = of_nat i" using sp(3) by simp
qed

lemma last_page: "va mod PGSIZE = 0 \<Longrightarrow> PGROUNDDOWN (va + PGSIZE - 1) = va"
  using PGROUNDDOWN_in_page(1) [of va 4095] by (simp add: algebra_simps)

lemma entry_nonzero:
  assumes "P mod PGSIZE = 0" "P \<noteq> 0" "i < 1024"
  shows "entry P i \<noteq> 0"
proof
  assume "entry P i = 0"
  then have "in_block P 4096 0" using entry_in_page [OF assms(3), of 0 P] by simp
  then show False using page_disjoint [OF assms(1) _ not_sym [OF assms(2)], of 0] by simp
qed

lemma map_one:
  assumes inv: "vm_inv u pd ys" and p: "present (pde (mem u) pd (pdi va))" and np: "\<not> present (pte (mem u) pd va)"
    and va: "va mod PGSIZE = 0" and pa: "pa mod PGSIZE = 0" and perm: "perms AND NOT 0xFFF = 0"
    and w: "walkpgdir pd va True s = Ok (entry (table (pde (mem u) pd (pdi va))) (pti va)) u"
  shows "\<exists>t. mappages pd va PGSIZE pa perms s = Ok 0 t \<and> vm_inv t pd ys \<and>
      (\<forall>i<4096. translate (mem t) pd False (va + of_nat i) = Some (P2V pa + of_nat i)) \<and>
      (\<forall>w va'. PGROUNDDOWN va' \<noteq> va \<longrightarrow> translate (mem t) pd w va' = translate (mem u) pd w va')"
proof -
  let ?T = "table (pde (mem u) pd (pdi va))" and ?v = "pa OR perms OR PTE_P"
  let ?t = "upd_mem (\<lambda>m. store32 m (entry ?T (pti va)) ?v) u"
  note st = store_pte [OF inv p refl, where v = "pa OR perms OR PTE_P"]
  have nz: "entry ?T (pti va) \<noteq> 0"
    using entry_nonzero [OF table_aligned _ index_less(2)] vm_invD(5) [OF inv index_less(1) p] by blast
  have run: "mappages pd va PGSIZE pa perms s = Ok 0 ?t"
    using np nz unfolding mappages_def Let_def PGROUNDDOWN_aligned [OF va] last_page [OF va]
    by (subst loop_with_unfold) (simp add: w pte_def)
  have b: "PTE_ADDR ?v = pa" "present ?v"
    using entry_bits [OF pa, of "perms OR PTE_P" PTE_P] perm by (simp_all add: or.assoc bit.conj_disj_distrib2)
  have "translate (mem ?t) pd False (va + of_nat i) = Some (P2V pa + of_nat i)" if "i < 4096" for i
  proof -
    have same: "pdi (va + of_nat i) = pdi va" "pti (va + of_nat i) = pti va"
      using PDX_PTX_same_page [of va i] that unat_mod_page [OF va] by (simp_all add: pdi_def pti_def)
    then have "pte (mem ?t) pd (va + of_nat i) = ?v" using st(3) by (simp add: pte_def)
    then show ?thesis
      using b p st(2) [OF index_less(1)] by (simp add: translate_entries same PGROUNDDOWN_in_page(2) [OF va that])
  qed
  then show ?thesis using run st(1,4) PGROUNDDOWN_aligned [OF va] by auto
qed

lemma mappages_full:
  assumes "vm_inv s pd []" "\<not> present (pde (mem s) pd (pdi va))" "va mod PGSIZE = 0"
  shows "\<exists>t. mappages pd va PGSIZE pa perms s = Ok (- 1) t \<and> mem t = mem s"
proof -
  obtain t where t: "kalloc s = Ok 0 t" "mem t = mem s" using kalloc_spec [OF vm_invD(1) [OF assms(1)]] by auto
  have "walkpgdir pd (PGROUNDDOWN va) True s = Ok 0 t"
    using assms(2,3) t(1) by (simp add: walkpgdir_def Let_def at_entry PGROUNDDOWN_aligned)
  then show ?thesis unfolding mappages_def Let_def by (subst loop_with_unfold) (simp add: t(2))
qed

text \<open>C12: Mapping a page. With well-formed page tables whose pages are not on the free list, \<open>mappages\<close> of
  one page that is not mapped yet succeeds when its page table exists or a page for it can be
  allocated, and returns -1 otherwise. After success every address of the page translates to the
  physical page with the given permissions, no other address changes its translation, and the
  page tables are well-formed again.\<close>

theorem mappages_page:
  assumes inv: "vm_inv s pd xs" and va: "va mod PGSIZE = 0" and pa: "pa mod PGSIZE = 0"
    and perm: "perms AND NOT 0xFFF = 0" and new: "translate (mem s) pd False va = None"
  shows "if present (pde (mem s) pd (pdi va)) \<or> xs \<noteq> []
    then \<exists>t ys. mappages pd va PGSIZE pa perms s = Ok 0 t \<and> vm_inv t pd ys \<and> set ys \<subseteq> set xs \<and>
      (\<forall>i<4096. translate (mem t) pd False (va + of_nat i) = Some (P2V pa + of_nat i)) \<and>
      (\<forall>w va'. PGROUNDDOWN va' \<noteq> va \<longrightarrow> translate (mem t) pd w va' = translate (mem s) pd w va')
    else \<exists>t. mappages pd va PGSIZE pa perms s = Ok (- 1) t \<and> mem t = mem s"
proof (cases "present (pde (mem s) pd (pdi va))")
  case True
  then have p: "\<not> present (pte (mem s) pd va)" using new by (simp add: translate_entries split: if_splits)
  obtain t where "mappages pd va PGSIZE pa perms s = Ok 0 t" "vm_inv t pd xs"
    "\<forall>i<4096. translate (mem t) pd False (va + of_nat i) = Some (P2V pa + of_nat i)"
    "\<forall>w va'. PGROUNDDOWN va' \<noteq> va \<longrightarrow> translate (mem t) pd w va' = translate (mem s) pd w va'"
    using map_one [OF inv True p va pa perm walkpgdir_present [OF True]] by blast
  then show ?thesis using True by (intro iffD2 [OF if_P]) blast+
next
  case False
  show ?thesis
  proof (cases xs)
    case Nil
    then show ?thesis using mappages_full [of s pd va pa perms] inv False va by simp
  next
    case (Cons x ys)
    obtain t where "walkpgdir pd va True s = Ok (entry x (pti va)) t" "vm_inv t pd ys"
      "present (pde (mem t) pd (pdi va))" "table (pde (mem t) pd (pdi va)) = x" "pte (mem t) pd va = 0"
      "\<And>w va'. translate (mem t) pd w va' = translate (mem s) pd w va'"
      using walkpgdir_new [of s pd x ys va thesis] inv Cons False by simp
    then obtain t' where "mappages pd va PGSIZE pa perms s = Ok 0 t'" "vm_inv t' pd ys"
      "\<forall>i<4096. translate (mem t') pd False (va + of_nat i) = Some (P2V pa + of_nat i)"
      "\<forall>w va'. PGROUNDDOWN va' \<noteq> va \<longrightarrow> translate (mem t') pd w va' = translate (mem s) pd w va'"
      using map_one [of t pd ys va pa perms s] va pa perm by auto
    moreover have "set ys \<subseteq> set xs" using Cons by auto
    ultimately show ?thesis using Cons by (intro iffD2 [OF if_P]) blast+
  qed
qed

lemma load32_zeros: "load32 (\<lambda>_. 0) a = 0"
  by (simp add: load32_def load_bytes_def word32_def)

theorem mappages_page_witness:
  "\<exists>t. mappages 0x80200000 0x1000 PGSIZE 0x300000 6 (kst0\<lparr>freelist := 0x80101000\<rparr>) = Ok 0 t \<and>
     translate (mem t) 0x80200000 False 0x1005 = Some 0x80300005 \<and>
     translate (mem t) 0x80200000 False 0x2000 = None"
proof -
  let ?s = "kst0\<lparr>freelist := 0x80101000\<rparr>"
  have m: "mem ?s = (\<lambda>_. 0)" by (simp add: kst0_def)
  have "kmem_inv ?s [0x80101000]"
    by (simp add: kmem_inv_def load32_zeros page_ok_def kst0_def V2P_def cpu_ok_def lock_free_def spin0_def cpu0_def)
  then have inv: "vm_inv ?s 0x80200000 [0x80101000]"
    by (simp add: vm_inv_def vm_ok_def tables_def m load32_zeros)
  have none: "translate (mem ?s) pd w va = None" for pd w va
    by (simp add: translate_entries m load32_zeros)
  obtain t where t: "mappages 0x80200000 0x1000 PGSIZE 0x300000 6 ?s = Ok 0 t"
    "\<And>i. i < 4096 \<Longrightarrow> translate (mem t) 0x80200000 False (0x1000 + of_nat i) = Some (P2V 0x300000 + of_nat i)"
    "\<And>w va. PGROUNDDOWN va \<noteq> 0x1000 \<Longrightarrow> translate (mem t) 0x80200000 w va = translate (mem ?s) 0x80200000 w va"
    using mappages_page [OF inv, of "0x1000" "0x300000" 6] none by auto
  have "PGROUNDDOWN 0x2000 = 0x2000" by (simp add: PGROUNDDOWN_eq)
  then show ?thesis using t(1) t(2) [of 5] t(3) [of "0x2000" False] none by (simp add: P2V_def)
qed

section \<open>The walk of the kernel and the walk of the hardware\<close>


section \<open>Shrinking ends\<close>

text \<open>What freeing does not touch.\<close>

abbreviation frame :: "kst \<Rightarrow> kst \<Rightarrow> bool" where
  "frame s t \<equiv> ptable t = ptable s \<and> curproc t = curproc s \<and> mycpu t = mycpu s"

definition kfree_ready :: "kst \<Rightarrow> bool" where
  "kfree_ready s \<longleftrightarrow> cpu_ok s \<and> lock_free L_kmem s"

lemma kfree_outcome:
  assumes "kfree_ready s"
  shows "kfree v s = Panic ''kfree'' \<or> (\<exists>t. kfree v s = Ok () t \<and> kfree_ready t \<and> frame s t)"
proof (cases "v mod PGSIZE \<noteq> 0 \<or> v < sym_end (syms s) \<or> V2P v \<ge> PHYSTOP")
  case False
  let ?s = "s\<lparr>mem := memset (mem s) v 1 PGSIZE\<rparr>"
  have ok: "cpu_ok ?s" "lock_free L_kmem ?s" using assms by (simp_all add: kfree_ready_def cpu_ok_def lock_free_def)
  obtain u t where u: "u = ?s \<or> u = enter L_kmem ?s" and run: "kmem_locked (push_free v) ?s = Ok (fst (push_free v u)) t"
    and t: "t = snd (push_free v u) \<or> t = leave L_kmem (snd (push_free v u))" "cpu_ok t" "lock_free L_kmem t"
    using kmem_locked_runs [OF kpush.locked_op_axioms ok] by blast
  have "frame s t" using u t(1) by (auto simp: push_free_def)
  then show ?thesis using False run t(2,3) by (auto simp: kfree_def kfree_ready_def)
qed (simp add: kfree_def)

text \<open>The next address of the loop of \<open>deallocuvm\<close> is larger.\<close>

lemma next_page_larger:
  assumes "a < KERNBASE"
  shows "unat (a + PGSIZE) = unat a + 4096" "unat a < unat (PGADDR (PDX a + 1) 0 0)"
proof -
  have a: "unat a < 2147483648" using assms by (simp add: word_less_nat_alt)
  then show "unat (a + PGSIZE) = unat a + 4096" by (simp add: unat_word_ariths)
  have m: "(0x3FF :: u32) = mask 10" by (simp add: mask_eq_exp_minus_1)
  have "unat (PDX a) = unat a div 4194304 mod 1024"
    unfolding PDX_def m take_bit_eq_mask [symmetric] by (simp add: take_bit_eq_mod unat_mod drop_bit_eq_div unat_div)
  moreover have "unat a div 4194304 < 512" using a by (simp add: less_mult_imp_div_less)
  ultimately have p: "unat (PDX a) = unat a div 4194304" "unat (PDX a) < 512" by simp_all
  have "PGADDR (PDX a + 1) 0 0 = (PDX a + 1) * 4194304" by (simp add: PGADDR_def push_bit_eq_mult)
  then have "unat (PGADDR (PDX a + 1) 0 0) = (unat a div 4194304 + 1) * 4194304"
    using p by (simp add: unat_word_ariths)
  then show "unat a < unat (PGADDR (PDX a + 1) 0 0)" 
    using div_mult_mod_eq [of "unat a" 4194304] dividend_less_div_times [of 4194304 "unat a"] by simp
qed

lemma walkpgdir_find: "\<exists>a. walkpgdir pd va False s = Ok a s"
  by (simp add: walkpgdir_def Let_def)

lemma deallocuvm_outcome:
  assumes "kfree_ready s" "oldsz \<le> KERNBASE"
  shows "deallocuvm pd oldsz newsz s = Panic ''kfree'' \<or>
    (\<exists>t. deallocuvm pd oldsz newsz s = Ok (if newsz \<ge> oldsz then oldsz else newsz) t \<and> kfree_ready t \<and> frame s t)"
proof (cases "newsz \<ge> oldsz")
  case False
  let ?P = "\<lambda>r. r = Panic ''kfree'' \<or> (\<exists>t. r = Ok newsz t \<and> kfree_ready t \<and> frame s t)"
  have "?P (deallocuvm pd oldsz newsz s)"
    unfolding deallocuvm_def if_not_P [OF False]
  proof (rule loop_with_rule [where I = "\<lambda>_ t. kfree_ready t \<and> frame s t" and f = "\<lambda>a _. unat oldsz - unat a"])
    fix a u assume I: "kfree_ready u \<and> frame s u"
    obtain e where w: "walkpgdir pd a False u = Ok e u" using walkpgdir_find by blast
    note k = kfree_outcome [OF conjunct1 [OF I], of "P2V (PTE_ADDR (load32 (mem u) e))"]
    have up: "unat oldsz - unat a' < unat oldsz - unat a" if "a < oldsz" "unat a < unat a'" for a'
      using that by (simp add: word_less_nat_alt)
    have n: "unat a < unat (a + PGSIZE)" "unat a < unat (PGADDR (PDX a + 1) 0 0)" if "a < oldsz"
      using next_page_larger [of a] that assms(2) by auto
    show "round_ok (\<lambda>a' u'. (kfree_ready u' \<and> frame s u') \<and> unat oldsz - unat a' < unat oldsz - unat a) ?P
        (if a < oldsz
        then bnd (walkpgdir pd a False u) (\<lambda>pte s.
               if pte = 0 then Ok (Inl (PGADDR (PDX a + 1) 0 0 - PGSIZE + PGSIZE)) s
               else let e = load32 (mem s) pte
                    in if e AND PTE_P \<noteq> 0
                       then let pa = PTE_ADDR e
                            in if pa = 0 then Panic ''kfree''
                               else seq (kfree (P2V pa) s) (\<lambda>s.
                                    Ok (Inl (a + PGSIZE)) (upd_mem (\<lambda>m. store32 m pte 0) s))
                       else Ok (Inl (a + PGSIZE)) s)
        else Ok (Inr newsz) u)"
      using I k up n unfolding w by (auto simp: Let_def seq_def upd_mem_def kfree_ready_def cpu_ok_def lock_free_def)
  qed (use assms(1) in simp)
  then show ?thesis using False by simp
qed (use assms(1) in \<open>simp add: deallocuvm_def\<close>)

lemma for_each_outcome:
  assumes "\<And>i u. I u \<Longrightarrow> body i u = Panic m \<or> (\<exists>t. body i u = Ok () t \<and> I t)" "I s"
  shows "for_each body is s = Panic m \<or> (\<exists>t. for_each body is s = Ok () t \<and> I t)"
  using assms(2)
proof (induction "is" arbitrary: s)
  case (Cons i "is")
  show ?case using assms(1) [OF Cons.prems, of i]
  proof
    assume "\<exists>t. body i s = Ok () t \<and> I t"
    then obtain t where "body i s = Ok () t" "I t" by blast
    then show ?thesis using Cons.IH [of t] by (simp add: seq_def)
  qed (simp add: seq_def)
qed simp

lemma freevm_outcome:
  assumes "kfree_ready s" "pd \<noteq> 0"
  shows "freevm pd s = Panic ''kfree'' \<or> (\<exists>t. freevm pd s = Ok () t \<and> kfree_ready t \<and> frame s t)"
proof -
  let ?I = "\<lambda>u. kfree_ready u \<and> frame s u"
  let ?b = "\<lambda>i u. let e = load32 (mem u) (pd + 4 * of_nat i) in if e AND PTE_P \<noteq> 0 then kfree (P2V (PTE_ADDR e)) u else Ok () u"
  have b: "?b i u = Panic ''kfree'' \<or> (\<exists>t. ?b i u = Ok () t \<and> ?I t)" if "?I u" for i :: nat and u
    using that kfree_outcome [of u "P2V (PTE_ADDR (load32 (mem u) (pd + 4 * of_nat i)))"] by (auto simp: Let_def)
  have rest: "seq (for_each ?b [0..<NPDENTRIES] u) (kfree pd) = Panic ''kfree'' \<or>
      (\<exists>t. seq (for_each ?b [0..<NPDENTRIES] u) (kfree pd) = Ok () t \<and> ?I t)" if u: "?I u" for u
    using for_each_outcome [of ?I ?b "''kfree''" u "[0..<NPDENTRIES]", OF b u] kfree_outcome [of _ pd]
    by (fastforce simp: seq_def)
  have "deallocuvm pd KERNBASE 0 s = Panic ''kfree'' \<or> (\<exists>t. deallocuvm pd KERNBASE 0 s = Ok 0 t \<and> ?I t)"
    using deallocuvm_outcome [OF assms(1), of KERNBASE pd 0] by simp
  then show ?thesis
  proof
    assume "\<exists>t. deallocuvm pd KERNBASE 0 s = Ok 0 t \<and> ?I t"
    then obtain t where t: "deallocuvm pd KERNBASE 0 s = Ok 0 t" "?I t" by blast
    show ?thesis unfolding freevm_def if_not_P [OF assms(2)] t(1) bnd.simps by (rule rest [OF t(2)])
  qed (simp add: freevm_def assms(2))
qed



end
