(* ===== verification/Proc.thy ===== *)
theory Proc
  imports File Vm
begin

unbundle bit_operations_syntax

text \<open>
  The life of a process (proc.c): allocation of a slot, the first process, growing, \<open>fork\<close>,
  \<open>exit\<close>, \<open>wait\<close>, the first return of a new process, and the process listing. The scheduler and
  sleeping are in theory Sched, signals in theory Signals.
\<close>

section \<open>Creation\<close>

definition pinit :: "kst \<Rightarrow> kst" where
  "pinit s = initlock L_ptable ''ptable'' s"

text \<open>The kernel stack from its top: the trap frame (76 bytes), the return address \<open>trapret\<close>,
  the context (20 bytes).\<close>

definition allocproc :: "kst \<Rightarrow> nat option kres" where
  "allocproc s =
     seq (acquire L_ptable s) (\<lambda>s.
       case find_idx (\<lambda>p. pstate p = UNUSED) (ptable s) of
         None \<Rightarrow> seq (release L_ptable s) (Ok None)
       | Some p \<Rightarrow>
           (let s = upd_proc p (\<lambda>q. q\<lparr>pstate := EMBRYO, pid := nextpid s\<rparr>) s;
                s = s\<lparr>nextpid := nextpid s + 1\<rparr>
            in seq (release L_ptable s) (\<lambda>s.
               bnd (kalloc s) (\<lambda>k s.
                 let s = upd_proc p (\<lambda>q. q\<lparr>kstack := k\<rparr>) s
                 in if k = 0 then Ok None (upd_proc p (\<lambda>q. q\<lparr>pstate := UNUSED\<rparr>) s)
                    else let sp = k + KSTACKSIZE - 76;
                             s = upd_proc p (\<lambda>q. q\<lparr>tfp := sp\<rparr>) s;
                             sp = sp - 4;
                             s = upd_mem (\<lambda>m. store32 m sp (sym_trapret (syms s))) s;
                             sp = sp - 20;
                             s = upd_proc p (\<lambda>q. q\<lparr>contextp := sp,
                                   ctx := \<lparr>ctx_edi = 0, ctx_esi = 0, ctx_ebx = 0, ctx_ebp = 0,
                                           ctx_eip = sym_forkret (syms s)\<rparr>\<rparr>) s
                         in Ok (Some p) s))))"

definition bytes_of :: "string \<Rightarrow> u8 list" where
  "bytes_of str = map (\<lambda>c. of_nat (of_char c)) str"

definition user_tf :: trapframe where
  "user_tf = tf0\<lparr>tf_cs := push_bit 3 4 OR 3, tf_ds := push_bit 3 5 OR 3, tf_es := push_bit 3 5 OR 3,
     tf_ss := push_bit 3 5 OR 3, tf_eflags := FL_IF, tf_esp := PGSIZE, tf_eip := 0\<rparr>"

definition userinit :: "env \<Rightarrow> devtab \<Rightarrow> kst \<Rightarrow> unit kres" where
  "userinit E D s =
     bnd (allocproc s) (\<lambda>po s.
       let s = s\<lparr>initproc := po\<rparr>
       in with_ptr po (\<lambda>p.
          bnd (setupkvm s) (\<lambda>pd s.
            let s = upd_proc p (\<lambda>q. q\<lparr>pgdir := pd\<rparr>) s
            in if pd = 0 then Panic ''userinit: out of memory?''
               else seq (inituvm pd (sym_initcode (syms s)) (sym_initcode_size (syms s)) s) (\<lambda>s.
                 let s = upd_proc p (\<lambda>q. q\<lparr>sz := PGSIZE, tf := user_tf,
                           pname := safestrcpy (pname q) (chars (bytes_of ''initcode'')) 16\<rparr>) s
                 in bnd (namei E D [slash] s) (\<lambda>ip s.
                      let s = upd_proc p (\<lambda>q. q\<lparr>cwd := ip\<rparr>) s;
                          s = initHandlers p s
                      in seq (acquire L_ptable s) (\<lambda>s.
                         release L_ptable (upd_proc p (\<lambda>q. q\<lparr>pstate := RUNNABLE\<rparr>) s)))))))"

definition growproc :: "int \<Rightarrow> kst \<Rightarrow> int kres" where
  "growproc n s = with_proc s (\<lambda>p.
     let z = sz (ptable s ! p); pd = pgdir (ptable s ! p)
     in bnd (if n > 0 then allocuvm pd z (z + word_of_int n) s
             else if n < 0 then deallocuvm pd z (z + word_of_int n) s
             else Ok z s) (\<lambda>z s.
          if n \<noteq> 0 \<and> z = 0 then Ok (- 1) s
          else seq (switchuvm (Some p) (upd_proc p (\<lambda>q. q\<lparr>sz := z\<rparr>) s)) (Ok 0)))"

definition fork :: "kst \<Rightarrow> int kres" where
  "fork s = with_proc s (\<lambda>p.
     bnd (allocproc s) (\<lambda>npo s. case npo of
       None \<Rightarrow> Ok (- 1) s
     | Some np \<Rightarrow>
         bnd (copyuvm (pgdir (ptable s ! p)) (sz (ptable s ! p)) s) (\<lambda>pd s.
           let s = upd_proc np (\<lambda>q. q\<lparr>pgdir := pd\<rparr>) s
           in if pd = 0
              then seq (kfree (kstack (ptable s ! np)) s) (\<lambda>s.
                   Ok (- 1) (upd_proc np (\<lambda>q. q\<lparr>kstack := 0, pstate := UNUSED\<rparr>) s))
              else let me = ptable s ! p;
                       s = upd_proc np (\<lambda>q. q\<lparr>sz := sz me, parent := Some p, tf := (tf me)\<lparr>tf_eax := 0\<rparr>\<rparr>) s
                   in seq (for_each (\<lambda>i s.
                             case ofile (ptable s ! p) ! i of
                               None \<Rightarrow> Ok () s
                             | Some f \<Rightarrow> bnd (filedup f s) (\<lambda>f s.
                                 Ok () (upd_proc np (\<lambda>q. q\<lparr>ofile := (ofile q)[i := Some f]\<rparr>) s))) [0..<NOFILE] s) (\<lambda>s.
                      bnd (idup (cwd (ptable s ! p)) s) (\<lambda>ip s.
                        let s = upd_proc np (\<lambda>q. q\<lparr>cwd := Some ip,
                                  pname := safestrcpy (pname q) (chars (pname (ptable s ! p))) 16\<rparr>) s;
                            pd = pid (ptable s ! np);
                            s = upd_proc np (\<lambda>q. q\<lparr>signals := signals (ptable s ! p), pending := 0\<rparr>) s
                        in seq (acquire L_ptable s) (\<lambda>s.
                           seq (release L_ptable (upd_proc np (\<lambda>q. q\<lparr>pstate := RUNNABLE\<rparr>) s)) (Ok pd)))))))"

section \<open>End\<close>

definition chan_of :: "nat option \<Rightarrow> channel" where
  "chan_of po = (case po of None \<Rightarrow> Chan0 | Some p \<Rightarrow> Ch_proc p)"

text \<open>The loop of \<open>exit\<close> that passes the children to init, one slot.\<close>

definition adopt :: "nat \<Rightarrow> nat \<Rightarrow> kst \<Rightarrow> kst" where
  "adopt me p s =
     (if parent (ptable s ! p) = Some me
      then let s = upd_proc p (\<lambda>q. q\<lparr>parent := initproc s\<rparr>) s
           in if pstate (ptable s ! p) = ZOMBIE then wakeup1 (chan_of (initproc s)) s else s
      else s)"

definition exit :: "env \<Rightarrow> kst \<Rightarrow> unit kres" where
  "exit E s =
     (if curproc s = initproc s then Panic ''init exiting''
      else with_proc s (\<lambda>me.
        seq (for_each (\<lambda>fd s.
               case ofile (ptable s ! me) ! fd of
                 None \<Rightarrow> Ok () s
               | Some f \<Rightarrow> seq (fileclose E f s) (\<lambda>s.
                   Ok () (upd_proc me (\<lambda>q. q\<lparr>ofile := (ofile q)[fd := None]\<rparr>) s))) [0..<NOFILE] s) (\<lambda>s.
        seq (begin_op E s) (\<lambda>s.
        seq (with_ptr (cwd (ptable s ! me)) (\<lambda>ip. iput E ip s)) (\<lambda>s.
        seq (end_op E s) (\<lambda>s.
        let s = upd_proc me (\<lambda>q. q\<lparr>cwd := None\<rparr>) s
        in seq (acquire L_ptable s) (\<lambda>s.
             let s = wakeup1 (chan_of (parent (ptable s ! me))) s;
                 s = fold (adopt me) [0..<NPROC] s;
                 s = upd_proc me (\<lambda>q. q\<lparr>pstate := ZOMBIE\<rparr>) s
             in seq (sched E s) (\<lambda>_. Panic ''zombie exit'')))))))) "

text \<open>What \<open>wait\<close> does with the zombie child \<open>p\<close>.\<close>

definition reap :: "nat \<Rightarrow> kst \<Rightarrow> int kres" where
  "reap p s =
     (let pd = pid (ptable s ! p)
      in seq (kfree (kstack (ptable s ! p)) s) (\<lambda>s.
         seq (freevm (pgdir (ptable s ! p)) (upd_proc p (\<lambda>q. q\<lparr>kstack := 0\<rparr>) s)) (\<lambda>s.
           let s = upd_proc p (\<lambda>q. q\<lparr>pid := 0, parent := None, pname := (pname q)[0 := 0], killed := 0,
                     pstate := UNUSED\<rparr>) s
           in seq (release L_ptable s) (Ok pd))))"

definition wait :: "env \<Rightarrow> kst \<Rightarrow> int kres" where
  "wait E s =
     with_proc s (\<lambda>me.
       seq (acquire L_ptable s)
         (loop (\<lambda>s.
            case find_idx (\<lambda>q. parent q = Some me \<and> pstate q = ZOMBIE) (ptable s) of
              Some p \<Rightarrow> bnd (reap p s) (\<lambda>pd. Ok (Some pd))
            | None \<Rightarrow>
                if \<not> (\<exists>q\<in>set (ptable s). parent q = Some me) \<or> killed (ptable s ! me) \<noteq> 0
                then seq (release L_ptable s) (Ok (Some (- 1)))
                else seq (sleep E (Ch_proc me) (Some L_ptable) s) (Ok None))))"

section \<open>The first run of a new process, and the listing\<close>

definition forkret :: "env \<Rightarrow> kst \<Rightarrow> unit kres" where
  "forkret E s =
     seq (release L_ptable s) (\<lambda>s.
       if first s \<noteq> 0
       then seq (iinit E 1 (s\<lparr>first := 0\<rparr>)) (initlog E 1)
       else Ok () s)"

primrec state_name :: "procstate \<Rightarrow> string" where
  "state_name UNUSED = ''unused''"
| "state_name EMBRYO = ''embryo''"
| "state_name SLEEPING = ''sleep ''"
| "state_name RUNNABLE = ''runble''"
| "state_name RUNNING = ''run   ''"
| "state_name ZOMBIE = ''zombie''"

definition cprint :: "string \<Rightarrow> int list \<Rightarrow> kst \<Rightarrow> kst" where
  "cprint fmt args s = s\<lparr>console := Cprintf fmt args # console s\<rparr>"

text \<open>The string arguments of a message are put in place of their \<open>%s\<close>.\<close>

definition string_of :: "u8 list \<Rightarrow> string" where
  "string_of bs = map (\<lambda>b. char_of (unat b)) (takeWhile (\<lambda>b. b \<noteq> 0) bs)"

definition procdump :: "kst \<Rightarrow> kst" where
  "procdump s =
     fold (\<lambda>p s.
       if pstate p = UNUSED then s
       else let s = cprint (''%d '' @ state_name (pstate p) @ '' '' @ string_of (pname p)) [pid p] s;
                s = (if pstate p = SLEEPING
                     then fold (\<lambda>pc. cprint '' %p'' [uint pc])
                            (takeWhile (\<lambda>pc. pc \<noteq> 0) (getcallerpcs (mem s) (ctx_ebp (ctx p) + 8))) s
                     else s)
            in cprint [CHR 0x0A] [] s) (ptable s) s"

end
