(* ===== verification/Sysarg.thy ===== *)
theory Sysarg
  imports Proc
begin

unbundle bit_operations_syntax

text \<open>
  The arguments of a system call (syscall.c): integers, pointers and strings fetched from the memory
  of the running process, which the process table bounds by \<open>sz\<close>. The C functions return -1 for an
  argument outside it; here they give \<open>None\<close>. A string argument is its bytes.
\<close>

abbreviation me :: "kst \<Rightarrow> nat \<Rightarrow> proc" where "me s p \<equiv> ptable s ! p"

definition fetchint :: "u32 \<Rightarrow> kst \<Rightarrow> int option kres" where
  "fetchint addr s = with_proc s (\<lambda>p.
     if addr \<ge> sz (me s p) \<or> addr + 4 > sz (me s p) then Ok None s
     else bnd (uread addr 4 s) (\<lambda>bs. Ok (Some (sint (word32 bs)))))"

definition fetchstr :: "u32 \<Rightarrow> kst \<Rightarrow> u8 list option kres" where
  "fetchstr addr s = with_proc s (\<lambda>p.
     if addr \<ge> sz (me s p) then Ok None s
     else let ep = sz (me s p)
          in loop_with (\<lambda>(a, acc) s.
               if a < ep
               then bnd (uread a 1 s) (\<lambda>bs s.
                      if bs ! 0 = 0 then Ok (Inr (Some acc)) s else Ok (Inl (a + 1, acc @ [bs ! 0])) s)
               else Ok (Inr None) s) (addr, []) s)"

definition argint :: "int \<Rightarrow> kst \<Rightarrow> int option kres" where
  "argint n s = with_proc s (\<lambda>p. fetchint (tf_esp (tf (me s p)) + 4 + 4 * word_of_int n) s)"

text \<open>Go on with an argument, or return -1.\<close>

definition with_arg :: "'v option kres \<Rightarrow> ('v \<Rightarrow> kst \<Rightarrow> int kres) \<Rightarrow> int kres" where
  "with_arg m k = bnd m (\<lambda>r s. case r of None \<Rightarrow> Ok (- 1) s | Some v \<Rightarrow> k v s)"

definition argptr :: "int \<Rightarrow> int \<Rightarrow> kst \<Rightarrow> u32 option kres" where
  "argptr n len s =
     bnd (argint n s) (\<lambda>r s. case r of
       None \<Rightarrow> Ok None s
     | Some i \<Rightarrow> with_proc s (\<lambda>p.
         let a = word_of_int i
         in if len < 0 \<or> a \<ge> sz (me s p) \<or> a + word_of_int len > sz (me s p) then Ok None s
            else Ok (Some a) s))"

definition argstr :: "int \<Rightarrow> kst \<Rightarrow> u8 list option kres" where
  "argstr n s =
     bnd (argint n s) (\<lambda>r s. case r of None \<Rightarrow> Ok None s | Some addr \<Rightarrow> fetchstr (word_of_int addr) s)"

end
