(* ===== verification/Exec.thy ===== *)
theory Exec
  imports Sysarg
begin

unbundle bit_operations_syntax

text \<open>
  Running a program (exec.c, elf.h, and \<open>loaduvm\<close> of vm.c): the ELF headers are read from the file
  at byte level, the segments loaded into a new address space, the arguments pushed on the new stack,
  and the process committed to the new image. The path and the argument strings are given by their
  bytes.
\<close>

section \<open>ELF\<close>

abbreviation ELF_MAGIC :: u32 where "ELF_MAGIC \<equiv> 0x464C457F"
abbreviation ELF_PROG_LOAD :: u32 where "ELF_PROG_LOAD \<equiv> 1"
abbreviation MAXARG :: nat where "MAXARG \<equiv> 32"

record elfhdr =
  e_magic :: u32
  e_elf :: "u8 list"
  e_type :: u16
  e_machine :: u16
  e_version :: u32
  e_entry :: u32
  e_phoff :: u32
  e_shoff :: u32
  e_flags :: u32
  e_ehsize :: u16
  e_phentsize :: u16
  e_phnum :: u16
  e_shentsize :: u16
  e_shnum :: u16
  e_shstrndx :: u16

definition get_elfhdr :: "u8 list \<Rightarrow> elfhdr" where
  "get_elfhdr d = \<lparr>e_magic = get32 d 0, e_elf = get_bytes d 4 12, e_type = get16 d 16, e_machine = get16 d 18,
     e_version = get32 d 20, e_entry = get32 d 24, e_phoff = get32 d 28, e_shoff = get32 d 32, e_flags = get32 d 36,
     e_ehsize = get16 d 40, e_phentsize = get16 d 42, e_phnum = get16 d 44, e_shentsize = get16 d 46,
     e_shnum = get16 d 48, e_shstrndx = get16 d 50\<rparr>"

record proghdr =
  p_type :: u32
  p_off :: u32
  p_vaddr :: u32
  p_paddr :: u32
  p_filesz :: u32
  p_memsz :: u32
  p_flags :: u32
  p_align :: u32

definition get_proghdr :: "u8 list \<Rightarrow> proghdr" where
  "get_proghdr d = \<lparr>p_type = get32 d 0, p_off = get32 d 4, p_vaddr = get32 d 8, p_paddr = get32 d 12,
     p_filesz = get32 d 16, p_memsz = get32 d 20, p_flags = get32 d 24, p_align = get32 d 28\<rparr>"

section \<open>Loading\<close>

definition loaduvm :: "env \<Rightarrow> devtab \<Rightarrow> u32 \<Rightarrow> u32 \<Rightarrow> nat \<Rightarrow> u32 \<Rightarrow> u32 \<Rightarrow> kst \<Rightarrow> int kres" where
  "loaduvm E D pd addr ip offset z s =
     (if addr mod PGSIZE \<noteq> 0 then Panic ''loaduvm: addr must be page aligned''
      else loop_with (\<lambda>i s.
        if i < z
        then bnd (walkpgdir pd (addr + i) False s) (\<lambda>pte s.
               if pte = 0 then Panic ''loaduvm: address should exist''
               else let pa = PTE_ADDR (load32 (mem s) pte);
                        n = (if z - i < PGSIZE then z - i else PGSIZE)
                    in bnd (readi E D ip (ToKernel (P2V pa)) (offset + i) n s) (\<lambda>(r, _) s.
                         if word_of_int r \<noteq> n then Ok (Inr (- 1)) s else Ok (Inl (i + PGSIZE)) s))
        else Ok (Inr 0) s) 0 s)"

text \<open>The loop over the program headers: the new size, or \<open>None\<close> for \<open>goto bad\<close>.\<close>

definition load_segments :: "env \<Rightarrow> devtab \<Rightarrow> nat \<Rightarrow> u32 \<Rightarrow> elfhdr \<Rightarrow> kst \<Rightarrow> u32 option kres" where
  "load_segments E D ip pd elf s =
     loop_with (\<lambda>(i, off, z) s.
       if i < unat (e_phnum elf)
       then bnd (readi E D ip ToLocal off 32 s) (\<lambda>(r, bs) s.
              let ph = get_proghdr bs
              in if r \<noteq> 32 then Ok (Inr None) s
                 else if p_type ph \<noteq> ELF_PROG_LOAD then Ok (Inl (Suc i, off + 32, z)) s
                 else if p_memsz ph < p_filesz ph then Ok (Inr None) s
                 else if p_vaddr ph + p_memsz ph < p_vaddr ph then Ok (Inr None) s
                 else bnd (allocuvm pd z (p_vaddr ph + p_memsz ph) s) (\<lambda>z s.
                   if z = 0 then Ok (Inr None) s
                   else if p_vaddr ph mod PGSIZE \<noteq> 0 then Ok (Inr None) s
                   else bnd (loaduvm E D pd (p_vaddr ph) ip (p_off ph) (p_filesz ph) s) (\<lambda>r s.
                     if r < 0 then Ok (Inr None) s else Ok (Inl (Suc i, off + 32, z)) s)))
       else Ok (Inr (Some z)) s) (0, e_phoff elf, 0) s"

section \<open>The new stack\<close>

text \<open>The loop that copies the argument strings: the stack pointer and \<open>ustack[3..]\<close>.\<close>

fun push_args :: "u32 \<Rightarrow> u8 list list \<Rightarrow> nat \<Rightarrow> u32 \<Rightarrow> u32 list \<Rightarrow> kst \<Rightarrow> (u32 \<times> u32 list) option kres" where
  "push_args pd [] argc sp us s = Ok (Some (sp, us)) s"
| "push_args pd (a # argv) argc sp us s =
     (if argc \<ge> MAXARG then Ok None s
      else let sp = (sp - (of_nat (length a) + 1)) AND NOT 3
           in bnd (copyout pd sp (a @ [0]) s) (\<lambda>r s.
                if r < 0 then Ok None s else push_args pd argv (Suc argc) sp (us @ [sp]) s))"

text \<open>The words of \<open>ustack\<close>: a fake return address, \<open>argc\<close>, \<open>argv\<close>, the argument pointers, a null
  pointer.\<close>

definition ustack :: "u32 \<Rightarrow> u32 list \<Rightarrow> u32 list" where
  "ustack sp us = [0xffffffff, of_nat (length us), sp - (of_nat (length us) + 1) * 4] @ us @ [0]"

definition last_elem :: "u8 list \<Rightarrow> u8 list" where
  "last_elem path = rev (takeWhile (\<lambda>c. c \<noteq> slash) (rev path))"

section \<open>exec\<close>

definition exec_bad :: "env \<Rightarrow> u32 \<Rightarrow> nat option \<Rightarrow> kst \<Rightarrow> int kres" where
  "exec_bad E pd ipo s =
     seq (if pd \<noteq> 0 then freevm pd s else Ok () s) (\<lambda>s.
       case ipo of
         None \<Rightarrow> Ok (- 1) s
       | Some ip \<Rightarrow> seq (iunlockput E ip s) (\<lambda>s. seq (end_op E s) (Ok (- 1))))"

text \<open>The part after the image is loaded: stack, arguments, commit.\<close>

definition exec_commit :: "env \<Rightarrow> u32 \<Rightarrow> elfhdr \<Rightarrow> u32 \<Rightarrow> u8 list \<Rightarrow> u8 list list \<Rightarrow> kst \<Rightarrow> int kres" where
  "exec_commit E pd elf z path argv s =
     (let z = PGROUNDUP z
      in bnd (allocuvm pd z (z + 2 * PGSIZE) s) (\<lambda>z s.
           if z = 0 then exec_bad E pd None s
           else seq (clearpteu pd (z - 2 * PGSIZE) s) (\<lambda>s.
             bnd (push_args pd argv 0 z [] s) (\<lambda>r s. case r of
               None \<Rightarrow> exec_bad E pd None s
             | Some (sp, us) \<Rightarrow>
                 let u = ustack sp us;
                     sp = sp - (3 + of_nat (length us) + 1) * 4
                 in bnd (copyout pd sp (concat (map bytes32 u)) s) (\<lambda>r s.
                      if r < 0 then exec_bad E pd None s
                      else with_proc s (\<lambda>p.
                        let s = upd_proc p (\<lambda>q. q\<lparr>pname := safestrcpy (pname q) (chars (last_elem path)) 16\<rparr>) s;
                            oldpgdir = pgdir (ptable s ! p);
                            s = upd_proc p (\<lambda>q. q\<lparr>pgdir := pd, sz := z,
                                  tf := (tf q)\<lparr>tf_eip := e_entry elf, tf_esp := sp\<rparr>\<rparr>) s
                        in seq (switchuvm (Some p) s) (\<lambda>s.
                           seq (freevm oldpgdir s) (Ok 0)))))))) "

definition exec :: "env \<Rightarrow> devtab \<Rightarrow> u8 list \<Rightarrow> u8 list list \<Rightarrow> kst \<Rightarrow> int kres" where
  "exec E D path argv s =
     seq (begin_op E s) (\<lambda>s.
     bnd (namei E D path s) (\<lambda>ipo s. case ipo of
       None \<Rightarrow> seq (end_op E s) (Ok (- 1))
     | Some ip \<Rightarrow>
         seq (ilock E (Some ip) s) (\<lambda>s.
         bnd (readi E D ip ToLocal 0 52 s) (\<lambda>(r, bs) s.
           let elf = get_elfhdr bs
           in if r \<noteq> 52 then exec_bad E 0 (Some ip) s
              else if e_magic elf \<noteq> ELF_MAGIC then exec_bad E 0 (Some ip) s
              else bnd (setupkvm s) (\<lambda>pd s.
                if pd = 0 then exec_bad E 0 (Some ip) s
                else bnd (load_segments E D ip pd elf s) (\<lambda>r s. case r of
                  None \<Rightarrow> exec_bad E pd (Some ip) s
                | Some z \<Rightarrow>
                    seq (iunlockput E ip s) (\<lambda>s.
                    seq (end_op E s) (\<lambda>s.
                    exec_commit E pd elf z path argv s))))))))"

end
