(* ===== verification/Sysfile.thy ===== *)
theory Sysfile
  imports Exec
begin

unbundle bit_operations_syntax

text \<open>
  The file system calls (sysfile.c): argument checking, file descriptors, and the operations on paths,
  each inside one transaction of the log.
\<close>

section \<open>File descriptors\<close>

text \<open>The descriptor and the file.\<close>

definition argfd :: "int \<Rightarrow> kst \<Rightarrow> (int \<times> nat) option kres" where
  "argfd n s =
     bnd (argint n s) (\<lambda>r s. case r of
       None \<Rightarrow> Ok None s
     | Some fd \<Rightarrow> with_proc s (\<lambda>p.
         if fd < 0 \<or> fd \<ge> int NOFILE then Ok None s
         else case ofile (me s p) ! nat fd of
                None \<Rightarrow> Ok None s
              | Some f \<Rightarrow> Ok (Some (fd, f)) s))"

definition set_fd :: "nat \<Rightarrow> nat \<Rightarrow> nat option \<Rightarrow> kst \<Rightarrow> kst" where
  "set_fd p fd fo s = upd_proc p (\<lambda>q. q\<lparr>ofile := (ofile q)[fd := fo]\<rparr>) s"

definition fdalloc :: "nat \<Rightarrow> kst \<Rightarrow> int kres" where
  "fdalloc f s = with_proc s (\<lambda>p.
     case find_idx (\<lambda>x. x = None) (take NOFILE (ofile (me s p))) of
       Some fd \<Rightarrow> Ok (int fd) (set_fd p fd (Some f) s)
     | None \<Rightarrow> Ok (- 1) s)"

definition sys_dup :: "kst \<Rightarrow> int kres" where
  "sys_dup s =
     with_arg (argfd 0 s) (\<lambda>(_, f) s.
     bnd (fdalloc f s) (\<lambda>fd s.
       if fd < 0 then Ok (- 1) s else bnd (filedup f s) (\<lambda>_. Ok fd)))"

definition sys_read :: "env \<Rightarrow> devtab \<Rightarrow> kst \<Rightarrow> int kres" where
  "sys_read E D s =
     with_arg (argfd 0 s) (\<lambda>(_, f) s.
     with_arg (argint 2 s) (\<lambda>n s.
     with_arg (argptr 1 n s) (\<lambda>a s.
     fileread E D f a n s)))"

definition sys_write :: "env \<Rightarrow> devtab \<Rightarrow> kst \<Rightarrow> int kres" where
  "sys_write E D s =
     with_arg (argfd 0 s) (\<lambda>(_, f) s.
     with_arg (argint 2 s) (\<lambda>n s.
     with_arg (argptr 1 n s) (\<lambda>a s.
     filewrite E D f a n s)))"

definition sys_close :: "env \<Rightarrow> kst \<Rightarrow> int kres" where
  "sys_close E s =
     with_arg (argfd 0 s) (\<lambda>(fd, f) s. with_proc s (\<lambda>p.
     seq (fileclose E f (set_fd p (nat fd) None s)) (Ok 0)))"

definition sys_fstat :: "env \<Rightarrow> kst \<Rightarrow> int kres" where
  "sys_fstat E s =
     with_arg (argfd 0 s) (\<lambda>(_, f) s.
     with_arg (argptr 1 20 s) (\<lambda>st s.
     filestat E f st s))"

section \<open>Paths\<close>

text \<open>A C \<open>short\<close>.\<close>

definition short :: "int \<Rightarrow> int" where
  "short x = sint (word_of_int x :: u16)"

definition fail_op :: "env \<Rightarrow> kst \<Rightarrow> int kres" where
  "fail_op E s = seq (end_op E s) (Ok (- 1))"

definition add_nlink :: "int \<Rightarrow> nat \<Rightarrow> kst \<Rightarrow> kst" where
  "add_nlink d ip s = upd_inode ip (\<lambda>v. v\<lparr>nlink := short (nlink v + d)\<rparr>) s"

definition sys_link_bad :: "env \<Rightarrow> nat \<Rightarrow> kst \<Rightarrow> int kres" where
  "sys_link_bad E ip s =
     seq (ilock E (Some ip) s) (\<lambda>s.
     seq (iupdate E ip (add_nlink (- 1) ip s)) (\<lambda>s.
     seq (iunlockput E ip s) (\<lambda>s.
     fail_op E s)))"

definition sys_link :: "env \<Rightarrow> devtab \<Rightarrow> kst \<Rightarrow> int kres" where
  "sys_link E D s =
     with_arg (argstr 0 s) (\<lambda>old s.
     with_arg (argstr 1 s) (\<lambda>new s.
     seq (begin_op E s) (\<lambda>s.
     bnd (namei E D old s) (\<lambda>ipo s. case ipo of
       None \<Rightarrow> fail_op E s
     | Some ip \<Rightarrow>
         seq (ilock E (Some ip) s) (\<lambda>s.
           if itype (ino s ip) = T_DIR then seq (iunlockput E ip s) (fail_op E)
           else seq (iupdate E ip (add_nlink 1 ip s)) (\<lambda>s.
                seq (iunlock (Some ip) s) (\<lambda>s.
                bnd (nameiparent E D new (replicate DIRSIZ 0) s) (\<lambda>(dpo, name) s. case dpo of
                  None \<Rightarrow> sys_link_bad E ip s
                | Some dp \<Rightarrow>
                    seq (ilock E (Some dp) s) (\<lambda>s.
                    bnd (if i_dev (ino s dp) \<noteq> i_dev (ino s ip) then Ok (- 1) s
                         else dirlink E D dp name (inum (ino s ip)) s) (\<lambda>r s.
                      if r < 0 then seq (iunlockput E dp s) (sys_link_bad E ip)
                      else seq (iunlockput E dp s) (\<lambda>s.
                           seq (iput E ip s) (\<lambda>s.
                           seq (end_op E s) (Ok 0)))))))))))))"

definition isdirempty :: "env \<Rightarrow> devtab \<Rightarrow> nat \<Rightarrow> kst \<Rightarrow> bool kres" where
  "isdirempty E D dp s =
     loop_with (\<lambda>off s.
       if off < isize (ino s dp)
       then bnd (readi E D dp ToLocal off 16 s) (\<lambda>(r, bs) s.
              if r \<noteq> 16 then Panic ''isdirempty: readi''
              else if de_inum (get_dirent bs) \<noteq> 0 then Ok (Inr False) s
              else Ok (Inl (off + 16)) s)
       else Ok (Inr True) s) 32 s"

definition sys_unlink_bad :: "env \<Rightarrow> nat \<Rightarrow> kst \<Rightarrow> int kres" where
  "sys_unlink_bad E dp s = seq (iunlockput E dp s) (fail_op E)"

text \<open>Removing the entry at \<open>off\<close> of \<open>dp\<close> that names \<open>ip\<close>.\<close>

definition remove_entry :: "env \<Rightarrow> devtab \<Rightarrow> nat \<Rightarrow> nat \<Rightarrow> u32 \<Rightarrow> kst \<Rightarrow> int kres" where
  "remove_entry E D dp ip off s =
     bnd (writei E D dp (FromLocal (replicate 16 0)) off 16 s) (\<lambda>r s.
       if r \<noteq> 16 then Panic ''unlink: writei''
       else seq (if itype (ino s ip) = T_DIR then iupdate E dp (add_nlink (- 1) dp s) else Ok () s) (\<lambda>s.
            seq (iunlockput E dp s) (\<lambda>s.
            seq (iupdate E ip (add_nlink (- 1) ip s)) (\<lambda>s.
            seq (iunlockput E ip s) (\<lambda>s.
            seq (end_op E s) (Ok 0))))))"

definition sys_unlink :: "env \<Rightarrow> devtab \<Rightarrow> kst \<Rightarrow> int kres" where
  "sys_unlink E D s =
     with_arg (argstr 0 s) (\<lambda>path s.
     seq (begin_op E s) (\<lambda>s.
     bnd (nameiparent E D path (replicate DIRSIZ 0) s) (\<lambda>(dpo, name) s. case dpo of
       None \<Rightarrow> fail_op E s
     | Some dp \<Rightarrow>
         seq (ilock E (Some dp) s) (\<lambda>s.
           if namecmp name (bytes_of ''.'') = 0 \<or> namecmp name (bytes_of ''..'') = 0 then sys_unlink_bad E dp s
           else bnd (dirlookup E D dp name s) (\<lambda>r s. case r of
             None \<Rightarrow> sys_unlink_bad E dp s
           | Some (ip, off) \<Rightarrow>
               seq (ilock E (Some ip) s) (\<lambda>s.
                 if nlink (ino s ip) < 1 then Panic ''unlink: nlink < 1''
                 else bnd (if itype (ino s ip) = T_DIR then isdirempty E D ip s else Ok True s) (\<lambda>empty s.
                   if \<not> empty then seq (iunlockput E ip s) (sys_unlink_bad E dp)
                   else remove_entry E D dp ip off s))))))) "

text \<open>The inode, locked, or \<open>None\<close>.\<close>

definition create :: "env \<Rightarrow> devtab \<Rightarrow> u8 list \<Rightarrow> int \<Rightarrow> int \<Rightarrow> int \<Rightarrow> kst \<Rightarrow> nat option kres" where
  "create E D path ty maj minr s =
     bnd (nameiparent E D path (replicate DIRSIZ 0) s) (\<lambda>(dpo, name) s. case dpo of
       None \<Rightarrow> Ok None s
     | Some dp \<Rightarrow>
         seq (ilock E (Some dp) s) (\<lambda>s.
         bnd (dirlookup E D dp name s) (\<lambda>r s. case r of
           Some (ip, _) \<Rightarrow>
             seq (iunlockput E dp s) (\<lambda>s.
             seq (ilock E (Some ip) s) (\<lambda>s.
               if ty = T_FILE \<and> itype (ino s ip) = T_FILE then Ok (Some ip) s
               else seq (iunlockput E ip s) (Ok None)))
         | None \<Rightarrow>
             bnd (ialloc E (i_dev (ino s dp)) ty s) (\<lambda>ip s.
             seq (ilock E (Some ip) s) (\<lambda>s.
             seq (iupdate E ip (upd_inode ip (\<lambda>v. v\<lparr>imajor := maj, iminor := minr, nlink := 1\<rparr>) s)) (\<lambda>s.
             seq (if ty = T_DIR
                  then seq (iupdate E dp (add_nlink 1 dp s)) (\<lambda>s.
                       bnd (dirlink E D ip (bytes_of ''.'') (inum (ino s ip)) s) (\<lambda>r s.
                         if r < 0 then Panic ''create dots''
                         else bnd (dirlink E D ip (bytes_of ''..'') (inum (ino s dp)) s) (\<lambda>r s.
                           if r < 0 then Panic ''create dots'' else Ok () s)))
                  else Ok () s) (\<lambda>s.
             bnd (dirlink E D dp name (inum (ino s ip)) s) (\<lambda>r s.
               if r < 0 then Panic ''create: dirlink''
               else seq (iunlockput E dp s) (Ok (Some ip))))))))))"

section \<open>The calls on paths\<close>

abbreviation O_WRONLY :: u32 where "O_WRONLY \<equiv> 1"
abbreviation O_RDWR :: u32 where "O_RDWR \<equiv> 2"
abbreviation O_CREATE :: u32 where "O_CREATE \<equiv> 0x200"

text \<open>The inode to open, locked, or \<open>None\<close>.\<close>

definition open_inode :: "env \<Rightarrow> devtab \<Rightarrow> u8 list \<Rightarrow> int \<Rightarrow> kst \<Rightarrow> nat option kres" where
  "open_inode E D path omode s =
     (if word_of_int omode AND O_CREATE \<noteq> 0 then create E D path T_FILE 0 0 s
      else bnd (namei E D path s) (\<lambda>ipo s. case ipo of
        None \<Rightarrow> Ok None s
      | Some ip \<Rightarrow>
          seq (ilock E (Some ip) s) (\<lambda>s.
            if itype (ino s ip) = T_DIR \<and> omode \<noteq> 0 then seq (iunlockput E ip s) (Ok None)
            else Ok (Some ip) s)))"

definition sys_open :: "env \<Rightarrow> devtab \<Rightarrow> kst \<Rightarrow> int kres" where
  "sys_open E D s =
     with_arg (argstr 0 s) (\<lambda>path s.
     with_arg (argint 1 s) (\<lambda>omode s.
     seq (begin_op E s) (\<lambda>s.
     bnd (open_inode E D path omode s) (\<lambda>ipo s. case ipo of
       None \<Rightarrow> fail_op E s
     | Some ip \<Rightarrow>
         bnd (filealloc s) (\<lambda>fo s. case fo of
           None \<Rightarrow> seq (iunlockput E ip s) (fail_op E)
         | Some f \<Rightarrow>
             bnd (fdalloc f s) (\<lambda>fd s.
               if fd < 0
               then seq (fileclose E f s) (\<lambda>s. seq (iunlockput E ip s) (fail_op E))
               else seq (iunlock (Some ip) s) (\<lambda>s.
                    seq (end_op E s) (\<lambda>s.
                      let m = word_of_int omode
                      in Ok fd (upd_file f (\<lambda>v. v\<lparr>ftype := FD_INODE, fip := Some ip, foff := 0,
                           readable := (if m AND O_WRONLY = 0 then 1 else 0),
                           writable := (if m AND O_WRONLY \<noteq> 0 \<or> m AND O_RDWR \<noteq> 0 then 1 else 0)\<rparr>) s)))))))))"

text \<open>The arguments of \<open>mkdir\<close> and \<open>mknod\<close> are read inside the transaction, which a bad argument
  ends.\<close>

definition with_arg_op :: "env \<Rightarrow> 'v option kres \<Rightarrow> ('v \<Rightarrow> kst \<Rightarrow> int kres) \<Rightarrow> int kres" where
  "with_arg_op E m k = bnd m (\<lambda>r s. case r of None \<Rightarrow> fail_op E s | Some v \<Rightarrow> k v s)"

definition sys_mkdir :: "env \<Rightarrow> devtab \<Rightarrow> kst \<Rightarrow> int kres" where
  "sys_mkdir E D s =
     seq (begin_op E s) (\<lambda>s.
     with_arg_op E (argstr 0 s) (\<lambda>path s.
     with_arg_op E (create E D path T_DIR 0 0 s) (\<lambda>ip s.
     seq (iunlockput E ip s) (\<lambda>s.
     seq (end_op E s) (Ok 0)))))"

definition sys_mknod :: "env \<Rightarrow> devtab \<Rightarrow> kst \<Rightarrow> int kres" where
  "sys_mknod E D s =
     seq (begin_op E s) (\<lambda>s.
     with_arg_op E (argstr 0 s) (\<lambda>path s.
     with_arg_op E (argint 1 s) (\<lambda>maj s.
     with_arg_op E (argint 2 s) (\<lambda>minr s.
     with_arg_op E (create E D path T_DEV (short maj) (short minr) s) (\<lambda>ip s.
     seq (iunlockput E ip s) (\<lambda>s.
     seq (end_op E s) (Ok 0)))))))"

definition sys_chdir :: "env \<Rightarrow> devtab \<Rightarrow> kst \<Rightarrow> int kres" where
  "sys_chdir E D s =
     seq (begin_op E s) (\<lambda>s.
     with_arg_op E (argstr 0 s) (\<lambda>path s.
     with_arg_op E (namei E D path s) (\<lambda>ip s.
     seq (ilock E (Some ip) s) (\<lambda>s.
       if itype (ino s ip) \<noteq> T_DIR then seq (iunlockput E ip s) (fail_op E)
       else seq (iunlock (Some ip) s) (\<lambda>s. with_proc s (\<lambda>p.
            seq (with_ptr (cwd (me s p)) (\<lambda>c. iput E c s)) (\<lambda>s.
            seq (end_op E s) (\<lambda>s.
            Ok 0 (upd_proc p (\<lambda>q. q\<lparr>cwd := Some ip\<rparr>) s)))))))))"

text \<open>The loop of \<open>sys_exec\<close> that fetches the argument strings.\<close>

definition fetch_argv :: "u32 \<Rightarrow> kst \<Rightarrow> u8 list list option kres" where
  "fetch_argv uargv s =
     loop_with (\<lambda>(i, argv) s.
       if i \<ge> MAXARG then Ok (Inr None) s
       else bnd (fetchint (uargv + 4 * of_nat i) s) (\<lambda>r s. case r of
              None \<Rightarrow> Ok (Inr None) s
            | Some uarg \<Rightarrow>
                if uarg = 0 then Ok (Inr (Some argv)) s
                else bnd (fetchstr (word_of_int uarg) s) (\<lambda>r s. case r of
                       None \<Rightarrow> Ok (Inr None) s
                     | Some a \<Rightarrow> Ok (Inl (Suc i, argv @ [a])) s))) (0, []) s"

definition sys_exec :: "env \<Rightarrow> devtab \<Rightarrow> kst \<Rightarrow> int kres" where
  "sys_exec E D s =
     with_arg (argstr 0 s) (\<lambda>path s.
     with_arg (argint 1 s) (\<lambda>uargv s.
     with_arg (fetch_argv (word_of_int uargv) s) (\<lambda>argv s.
     exec E D path argv s)))"

definition sys_pipe :: "env \<Rightarrow> kst \<Rightarrow> int kres" where
  "sys_pipe E s =
     with_arg (argptr 0 8 s) (\<lambda>fd s.
     with_arg (pipealloc E s) (\<lambda>(rf, wf) s.
     bnd (fdalloc rf s) (\<lambda>fd0 s.
     bnd (if fd0 < 0 then Ok (- 1) s else fdalloc wf s) (\<lambda>fd1 s.
       if fd0 < 0 \<or> fd1 < 0
       then with_proc s (\<lambda>p.
              let s = (if fd0 \<ge> 0 then set_fd p (nat fd0) None s else s)
              in seq (fileclose E rf s) (\<lambda>s.
                 seq (fileclose E wf s) (Ok (- 1))))
       else seq (uwrite fd (bytes32 (word_of_int fd0)) s) (\<lambda>s.
            seq (uwrite (fd + 4) (bytes32 (word_of_int fd1)) s) (Ok 0))))))"

end
