(* ===== verification/User_Args.thy ===== *)
theory User_Args
  imports Sysfile
begin

unbundle bit_operations_syntax

text \<open>
  What the kernel makes of the arguments of system calls: pointers and strings that it accepts lie
  inside the memory of the process, descriptors are the lowest free ones, and \<open>sbrk\<close> at its edges.
\<close>

section \<open>Pointers\<close>

lemma word_succ32:
  fixes a z :: u32
  assumes "a < z"
  shows "unat (a + 1) = unat a + 1" "a + 1 \<le> z"
proof -
  have l: "unat a < unat z" "unat z < 2 ^ 32" using assms by (simp_all add: word_less_nat_alt)
  then have "unat a + unat (1 :: u32) < 2 ^ 32" unfolding unsigned_1 by linarith
  from unat_add_u32 [OF this] show u: "unat (a + 1) = unat a + 1" by simp
  show "a + 1 \<le> z" unfolding word_le_nat_alt u using l(1) by simp
qed

lemma with_proc_Some [simp]: "curproc s = Some p \<Longrightarrow> with_proc s f = f p"
  by (simp add: with_proc_def)

lemma block_inside:
  fixes a l z :: u32
  assumes "a < z" "a + l \<le> z" "z \<le> KERNBASE" "unat l \<le> 2 ^ 31"
  shows "unat a + unat l \<le> unat z"
proof -
  have "unat a < 2 ^ 31" "unat z \<le> 2 ^ 31" using assms(1,3) by (simp_all add: word_less_nat_alt word_le_nat_alt)
  then have "unat a + unat l < 2 ^ 32" using assms(4) by simp
  from unat_add_u32 [OF this] show ?thesis using assms(2) by (simp add: word_le_nat_alt)
qed

lemma fetchint_inside:
  assumes "curproc s = Some p" "sz (me s p) \<le> KERNBASE" "fetchint addr s = Ok (Some v) t"
  shows "unat addr + 4 \<le> unat (sz (me s p))" "t = s" "uload (mem s) (cur_pgdir s) addr 4 \<noteq> None"
proof -
  have a: "\<not> (addr \<ge> sz (me s p) \<or> addr + 4 > sz (me s p))" using assms(1,3) by (auto simp: fetchint_def split: if_splits)
  then show "unat addr + 4 \<le> unat (sz (me s p))" using block_inside [of addr "sz (me s p)" 4] assms(2) by (simp add: not_le not_less)
  show "t = s" "uload (mem s) (cur_pgdir s) addr 4 \<noteq> None" using assms(1,3) a by (auto simp: fetchint_def uread_def split: option.splits)
qed

text \<open>C20: the pointer check. For a process whose memory ends below \<open>KERNBASE\<close>, \<open>argptr\<close> with a size that is an \<open>int\<close> accepts
  a pointer only when the size is not negative and the whole block of that size, computed without
  wrap-around, lies inside the memory of the process; the word that holds the pointer was read from inside that
  memory as well, and the state is unchanged.\<close>

theorem argptr_inside_process:
  assumes "curproc s = Some p" "sz (me s p) \<le> KERNBASE" "len < 2 ^ 31" "argptr n len s = Ok r t"
  shows "t = s \<and> (r \<noteq> None \<longrightarrow> 0 \<le> len \<and> unat (the r) < unat (sz (me s p)) \<and> unat (the r) + nat len \<le> unat (sz (me s p)) \<and>
    unat (tf_esp (tf (me s p)) + 4 + 4 * word_of_int n) + 4 \<le> unat (sz (me s p)))"
proof -
  let ?e = "tf_esp (tf (me s p)) + 4 + 4 * word_of_int n"
  have "argint n s = fetchint ?e s" using assms(1) by (simp add: argint_def)
  then obtain i u where i: "fetchint ?e s = Ok i u" using assms(4) by (cases "fetchint ?e s") (simp_all add: argptr_def)
  show ?thesis
  proof (cases i)
    case None
    then have "u = s" using i assms(1) by (auto simp: fetchint_def uread_def split: if_splits option.splits)
    then show ?thesis using i None assms(1,4) by (simp add: argptr_def argint_def)
  next
    case (Some v)
    note f = fetchint_inside [OF assms(1,2) i [unfolded Some]]
    let ?a = "word_of_int v :: u32" let ?l = "word_of_int len :: u32"
    have r: "(if len < 0 \<or> ?a \<ge> sz (me s p) \<or> ?a + ?l > sz (me s p) then Ok None s else Ok (Some ?a) s) = Ok r t"
      using assms(1,4) i Some f(2) by (simp add: argptr_def argint_def Let_def)
    show ?thesis
    proof (cases "len < 0 \<or> ?a \<ge> sz (me s p) \<or> ?a + ?l > sz (me s p)")
      case True
      then show ?thesis using r by simp
    next
      case False
      then have c: "0 \<le> len" "?a < sz (me s p)" "?a + ?l \<le> sz (me s p)" by auto
      have "uint ?l = len" using c(1) assms(3) by (intro uint_word_of_int32) simp_all
      then have l: "unat ?l = nat len" by (simp add: unat_eq_nat_uint)
      then have "unat ?l \<le> 2 ^ 31" using assms(3) by simp
      note b = block_inside [OF c(2,3) assms(2) this]
      have "r = Some ?a" "t = s" using r False by simp_all
      then show ?thesis using b c l f(1) by (simp add: word_less_nat_alt)
    qed
  qed
qed

section \<open>Strings\<close>

lemma uload_append:
  "uload m pd va n = Some xs \<Longrightarrow> uload m pd (va + of_nat n) k = Some ys \<Longrightarrow> uload m pd va (n + k) = Some (xs @ ys)"
proof (induction n arbitrary: va xs)
  case (Suc n)
  then obtain x z where x: "translate m pd False va = Some x" "uload m pd (va + 1) n = Some z" "xs = m x # z"
    by (auto split: option.splits)
  moreover have "uload m pd (va + 1) (n + k) = Some (z @ ys)"
    using Suc.IH [OF x(2)] Suc.prems(2) by (simp add: add.assoc)
  ultimately show ?case by simp
qed simp

definition string_at :: "kst \<Rightarrow> u32 \<Rightarrow> u8 list \<Rightarrow> bool" where
  "string_at s addr bs \<longleftrightarrow> uload (mem s) (cur_pgdir s) addr (length bs) = Some bs \<and> 0 \<notin> set bs"

text \<open>C22: \<open>fetchstr\<close> always ends: in a fault of the kernel when the process has unmapped pages below its size, or with a result
  and the state unchanged. A string it accepts is the bytes at the address up to the first NUL, and the NUL is
  inside the memory of the process; it rejects exactly an address outside and a string without a NUL inside.\<close>

theorem fetchstr_string:
  assumes p: "curproc s = Some p"
  shows "fetchstr addr s = Panic ''trap'' \<or>
    (\<exists>bs. fetchstr addr s = Ok (Some bs) s \<and> string_at s addr bs \<and> uload (mem s) (cur_pgdir s) addr (Suc (length bs)) = Some (bs @ [0]) \<and>
       unat addr + length bs < unat (sz (me s p))) \<or>
    (fetchstr addr s = Ok None s \<and>
       (sz (me s p) \<le> addr \<or> (\<exists>bs. string_at s addr bs \<and> unat addr + length bs = unat (sz (me s p)))))"
proof (cases "addr < sz (me s p)")
  case True
  let ?ep = "sz (me s p)"
  let ?P = "\<lambda>r. r = Panic ''trap'' \<or>
    (\<exists>bs. r = Ok (Some bs) s \<and> string_at s addr bs \<and> uload (mem s) (cur_pgdir s) addr (Suc (length bs)) = Some (bs @ [0]) \<and>
       unat addr + length bs < unat ?ep) \<or>
    (r = Ok None s \<and> (\<exists>bs. string_at s addr bs \<and> unat addr + length bs = unat ?ep))"
  let ?I = "\<lambda>(a, acc) t. t = s \<and> a = addr + of_nat (length acc) \<and> unat a = unat addr + length acc \<and> a \<le> ?ep \<and> string_at s addr acc"
  have "?P (loop_with (\<lambda>(a, acc) s.
               if a < ?ep
               then bnd (uread a 1 s) (\<lambda>bs s.
                      if bs ! 0 = 0 then Ok (Inr (Some acc)) s else Ok (Inl (a + 1, acc @ [bs ! 0])) s)
               else Ok (Inr None) s) (addr, []) s)" (is "?P (loop_with ?body _ _)")
  proof (rule loop_with_rule [where I = ?I and f = "\<lambda>(a, _) _. unat ?ep - unat a"])
    fix l t assume I: "?I l t"
    obtain a acc where l: "l = (a, acc)" by (cases l)
    have I': "t = s" "a = addr + of_nat (length acc)" "unat a = unat addr + length acc" "a \<le> ?ep" "string_at s addr acc"
      using I unfolding l prod.case by blast+
    show "round_ok (\<lambda>l' s'. ?I l' s' \<and> (case l' of (a, _) \<Rightarrow> \<lambda>_. unat ?ep - unat a) s' < (case l of (a, _) \<Rightarrow> \<lambda>_. unat ?ep - unat a) t) ?P (?body l t)"
    proof (cases "a < ?ep")
      case lt: True
      note n = word_succ32 [OF lt]
      show ?thesis
      proof (cases "translate (mem s) (cur_pgdir s) False a")
        case None
        then have "uread a 1 s = Panic ''trap''" by (simp add: uread_def)
        then show ?thesis using lt I'(1) by (simp add: l)
      next
        case (Some x)
        define b where "b = mem s x"
        have r: "uread a 1 s = Ok [b] s" using Some by (simp add: uread_def b_def)
        have "uload (mem s) (cur_pgdir s) (addr + of_nat (length acc)) 1 = Some [b]" using Some I'(2) by (simp add: b_def)
        then have u: "uload (mem s) (cur_pgdir s) addr (length acc + 1) = Some (acc @ [b])"
          using uload_append I'(5) by (simp only: string_at_def)
        have lt': "unat addr + length acc < unat ?ep" using lt I'(3) by (simp add: word_less_nat_alt)
        show ?thesis
        proof (cases "b = 0")
          case True
          then have "?body l t = Ok (Inr (Some acc)) s" using lt r I'(1) by (simp add: l)
          then show ?thesis using True u I'(5) lt' by simp
        next
          case False
          then have "?body l t = Ok (Inl (a + 1, acc @ [b])) s" using lt r I'(1) by (simp add: l)
          moreover have "string_at s addr (acc @ [b])" using False u I'(5) by (simp add: string_at_def)
          ultimately show ?thesis using n I'(2,3) lt' by (simp add: l add.assoc add.commute)
        qed
      qed
    next
      case False
      then have "a = ?ep" using I'(4) by simp
      then show ?thesis using I' by (auto simp: l)
    qed
  qed (use True in \<open>simp add: string_at_def\<close>)
  moreover have e: "fetchstr addr s = loop_with ?body (addr, []) s" using True p by (simp add: fetchstr_def Let_def not_le [symmetric])
  ultimately show ?thesis unfolding e by blast
next
  case False
  then show ?thesis using p by (auto simp: fetchstr_def)
qed

section \<open>A process with one page\<close>

text \<open>Page 0 of the process is the frame at 0x202000; it holds the stack with the argument 0x200 and the string "ab".\<close>

definition page_mem :: memory where
  "page_mem = store_bytes (store32 (store32 (store32 (\<lambda>_. 0) 0x80200000 0x201007) 0x80201000 0x202007) 0x80202104 0x200) 0x80202200 [97, 98]"

definition page_state :: kst where
  "page_state = kst0\<lparr>mem := page_mem, cpus := (\<lambda>_. (cpus kst0 0)\<lparr>cr3 := 0x200000, cproc := Some 0\<rparr>),
     ptable := (ptable kst0)[0 := (ptable kst0 ! 0)\<lparr>sz := 0x1000, tf := (tf (ptable kst0 ! 0))\<lparr>tf_esp := 0x100\<rparr>\<rparr>]\<rparr>"

lemma page_state_fields:
  "curproc page_state = Some 0" "sz (me page_state 0) = 0x1000" "tf_esp (tf (me page_state 0)) = 0x100"
  "mem page_state = page_mem" "cur_pgdir page_state = 0x80200000"
  by (simp_all add: page_state_def kst0_def P2V_def)

lemma page_loads: "uload page_mem 0x80200000 0x104 4 = Some [0, 2, 0, 0]" "uload page_mem 0x80200000 0x200 3 = Some [97, 98, 0]"
  by code_simp+

theorem argptr_inside_process_witness:
  "argptr 0 16 page_state = Ok (Some 0x200) page_state \<and> unat (0x200 :: u32) + 16 \<le> unat (sz (me page_state 0))"
proof -
  have a: "argptr 0 16 page_state = Ok (Some 0x200) page_state"
    by (simp add: argptr_def argint_def fetchint_def uread_def page_state_fields page_loads Let_def word32_def)
  show ?thesis using argptr_inside_process [OF page_state_fields(1) _ _ a] a by (simp add: page_state_fields)
qed

lemma page_string:
  "uload page_mem 0x80200000 0x200 1 = Some [97]" "uload page_mem 0x80200000 0x201 1 = Some [98]"
  "uload page_mem 0x80200000 0x202 1 = Some [0]"
  by code_simp+

theorem fetchstr_string_witness:
  "fetchstr 0x200 page_state = Ok (Some [97, 98]) page_state \<and> string_at page_state 0x200 [97, 98]"
proof -
  have "fetchstr 0x200 page_state = Ok (Some [97, 98]) page_state"
    by (simp add: fetchstr_def page_state_fields Let_def) (simp add: loop_with_unfold uread_def page_state_fields page_string del: uload.simps One_nat_def)
  then show ?thesis using fetchstr_string [OF page_state_fields(1), of "0x200"] by auto
qed

section \<open>Shrinking the process\<close>

text \<open>C34: \<open>growproc\<close> with a negative amount. It ends; unless \<open>kfree\<close> rejects a page it gives the following. When the size stays
  positive, the pages above the new size are freed and the size is set. When the new size is exactly zero,
  the pages are freed all the same but \<open>growproc\<close> takes the new size for an error: it returns -1 and the process
  keeps its old size. When the amount is larger than the process, the subtraction wraps around, nothing is freed, and
  \<open>growproc\<close> reports success.\<close>

theorem growproc_shrink:
  assumes "curproc s = Some p" "cpu_ok s" "lock_free L_kmem s" "0 < sz (me s p)" "sz (me s p) \<le> KERNBASE" "- (2 ^ 31) \<le> n" "n < 0"
  defines "z \<equiv> sz (me s p)"
  shows "growproc n s = Panic ''kfree'' \<or>
    (\<exists>t. ptable t = ptable s \<and>
      (if uint z + n > 0 then deallocuvm (pgdir (me s p)) z (z + word_of_int n) s = Ok (z + word_of_int n) t \<and>
         growproc n s = seq (switchuvm (Some p) (upd_proc p (\<lambda>q. q\<lparr>sz := z + word_of_int n\<rparr>) t)) (Ok 0)
       else if uint z + n = 0 then deallocuvm (pgdir (me s p)) z 0 s = Ok 0 t \<and> growproc n s = Ok (- 1) t
       else t = s \<and> growproc n s = seq (switchuvm (Some p) (upd_proc p (\<lambda>q. q\<lparr>sz := z\<rparr>) s)) (Ok 0)))"
proof -
  let ?w = "z + word_of_int n" let ?pd = "pgdir (me s p)"
  have z: "0 < uint z" "uint z \<le> 2 ^ 31" using assms(4,5) by (simp_all add: z_def word_less_def word_le_def)
  have w: "?w = word_of_int (uint z + n)" by simp
  have run: "growproc n s = bnd (deallocuvm ?pd z ?w s) (\<lambda>z s.
      if z = 0 then Ok (- 1) s else seq (switchuvm (Some p) (upd_proc p (\<lambda>q. q\<lparr>sz := z\<rparr>) s)) (Ok 0))"
    using assms(1,7) by (simp add: growproc_def Let_def z_def)
  have r: "kfree_ready s" "z \<le> KERNBASE" using assms(2,3,5) by (simp_all add: kfree_ready_def z_def)
  note d = deallocuvm_outcome [OF r, of ?pd ?w]
  consider (pos) "uint z + n > 0" | (zero) "uint z + n = 0" | (neg) "uint z + n < 0" by linarith
  then show ?thesis
  proof cases
    case pos
    have u: "uint ?w = uint z + n" unfolding w using pos z assms(7) by (intro uint_word_of_int32) simp_all
    have "\<not> ?w \<ge> z" "?w \<noteq> 0" using u pos assms(7) by (auto simp: word_le_def)
    then show ?thesis using d run pos by auto
  next
    case zero
    then have "?w = 0" unfolding w by simp
    moreover have "\<not> 0 \<ge> z" using assms(4) by (simp add: z_def)
    ultimately show ?thesis using d run zero by auto
  next
    case neg
    have e: "?w = word_of_int (uint z + n + 2 ^ 32)" unfolding w by (simp add: word_of_int_eq_iff take_bit_eq_mod)
    have "uint ?w = uint z + n + 2 ^ 32" unfolding e by (rule uint_word_of_int32) (use neg z assms(6) in simp_all)
    then have "?w \<ge> z" "z \<noteq> 0" using z assms(4,6) by (auto simp: word_le_def z_def)
    then have "deallocuvm ?pd z ?w s = Ok z s" by (simp add: deallocuvm_def)
    then show ?thesis using run neg \<open>z \<noteq> 0\<close> by auto
  qed
qed

theorem growproc_shrink_witness:
  "\<exists>t. growproc (- 4096) (page_state\<lparr>mem := \<lambda>_. 0\<rparr>) = Ok (- 1) t \<and> sz (me t 0) = 0x1000"
proof -
  let ?s = "page_state\<lparr>mem := \<lambda>_. 0\<rparr>"
  have r: "curproc ?s = Some 0" "cpu_ok ?s" "lock_free L_kmem ?s" "sz (me ?s 0) = 0x1000"
    by (simp_all add: page_state_def kst0_def cpu_ok_def lock_free_def spin0_def cpu0_def)
  have w: "walkpgdir pd a False ?s = Ok 0 ?s" for pd a by (simp add: walkpgdir_def load32_zeros)
  have "PGROUNDUP 0 = 0" "PGADDR (PDX 0 + 1) 0 0 = 0x400000" by code_simp+
  then have "deallocuvm (pgdir (me ?s 0)) 0x1000 0 ?s = Ok 0 ?s"
    unfolding deallocuvm_def by (simp add: loop_with_unfold w)
  then have "growproc (- 4096) ?s \<noteq> Panic ''kfree''" using r(1,4) by (simp add: growproc_def Let_def)
  then show ?thesis using growproc_shrink [of ?s 0 "- 4096"] r by auto
qed

end
