(* ===== verification/Sysproc.thy ===== *)
theory Sysproc
  imports Sysarg
begin

unbundle bit_operations_syntax

text \<open>
  The system calls on processes, signals and time (sysproc.c).
\<close>

definition sys_sigsend :: "kst \<Rightarrow> int kres" where
  "sys_sigsend s =
     with_arg (argint 0 s) (\<lambda>pd s.
     with_arg (argint 1 s) (\<lambda>signum s.
     sigsend pd signum s))"

definition sys_signal :: "kst \<Rightarrow> int kres" where
  "sys_signal s =
     with_arg (argint 0 s) (\<lambda>signum s.
     with_arg (argint 1 s) (\<lambda>handle s.
     bnd (signal signum (word_of_int handle) s) (\<lambda>h. Ok (sint h))))"

definition sys_sigreturn :: "kst \<Rightarrow> int kres" where
  "sys_sigreturn s = sigreturn s"

definition sys_alarm :: "kst \<Rightarrow> int kres" where
  "sys_alarm s = with_arg (argint 0 s) (\<lambda>tickTime s. alarm tickTime s)"

definition sys_fork :: "kst \<Rightarrow> int kres" where
  "sys_fork s = fork s"

definition sys_exit :: "env \<Rightarrow> kst \<Rightarrow> int kres" where
  "sys_exit E s = seq (exit E s) (Ok 0)"

definition sys_wait :: "env \<Rightarrow> kst \<Rightarrow> int kres" where
  "sys_wait E s = wait E s"

definition sys_kill :: "kst \<Rightarrow> int kres" where
  "sys_kill s = with_arg (argint 0 s) (\<lambda>pd s. kill pd s)"

definition sys_getpid :: "kst \<Rightarrow> int kres" where
  "sys_getpid s = with_proc s (\<lambda>p. Ok (pid (me s p)) s)"

definition sys_sbrk :: "kst \<Rightarrow> int kres" where
  "sys_sbrk s =
     with_arg (argint 0 s) (\<lambda>n s. with_proc s (\<lambda>p.
       let addr = sint (sz (me s p))
       in bnd (growproc n s) (\<lambda>r s. if r < 0 then Ok (- 1) s else Ok addr s)))"

text \<open>The comparison \<open>ticks - ticks0 < n\<close> is made in unsigned arithmetic.\<close>

definition sys_sleep :: "env \<Rightarrow> kst \<Rightarrow> int kres" where
  "sys_sleep E s =
     with_arg (argint 0 s) (\<lambda>n s.
     seq (acquire L_tickslock s) (\<lambda>s.
       let ticks0 = ticks s
       in loop (\<lambda>s.
            if ticks s - ticks0 < word_of_int n
            then with_proc s (\<lambda>p.
                   if killed (me s p) \<noteq> 0 then seq (release L_tickslock s) (Ok (Some (- 1)))
                   else seq (sleep E Ch_ticks (Some L_tickslock) s) (Ok None))
            else seq (release L_tickslock s) (Ok (Some 0))) s))"

definition sys_uptime :: "kst \<Rightarrow> int kres" where
  "sys_uptime s =
     seq (acquire L_tickslock s) (\<lambda>s.
       let xticks = ticks s
       in seq (release L_tickslock s) (Ok (sint xticks)))"

end
