(* ===== verification/Decimal.thy ===== *)
theory Decimal
  imports Prelude
begin

text \<open>
  Positional notation, as the digit loops of console.c and printf.c produce it and as \<open>atoi\<close> of
  ulib.c reads it.
\<close>

text \<open>\<open>do { buf[i++] = x % base; } while((x /= base) != 0);\<close> gives the digits, least significant
  first.\<close>

function udigits :: "nat \<Rightarrow> nat \<Rightarrow> nat list" where
  "udigits b x = x mod b # (if x div b = 0 \<or> b < 2 then [] else udigits b (x div b))"
  by pat_completeness auto
termination
  by (relation "measure snd") (auto intro!: div_less_dividend gr0I)

declare udigits.simps [simp del]

definition undigits :: "nat \<Rightarrow> nat list \<Rightarrow> nat" where
  "undigits b ds = foldr (\<lambda>d v. d + b * v) ds 0"

lemma undigits_simps [simp]: "undigits b [] = 0" "undigits b (d # ds) = d + b * undigits b ds"
  by (simp_all add: undigits_def)

lemma undigits_udigits: "2 \<le> b \<Longrightarrow> undigits b (udigits b x) = x"
proof (induction b x rule: udigits.induct)
  case (1 b x)
  then show ?case by (subst udigits.simps) (auto simp: div_eq_0_iff)
qed

lemma udigits_less: "2 \<le> b \<Longrightarrow> d \<in> set (udigits b x) \<Longrightarrow> d < b"
proof (induction b x rule: udigits.induct)
  case (1 b x)
  have m: "x mod b < b" using "1.prems" by simp
  show ?case
  proof (cases "x div b = 0 \<or> b < 2")
    case True
    then have "udigits b x = [x mod b]" by (subst udigits.simps) simp
    then show ?thesis using m "1.prems"(2) by simp
  next
    case False
    then have "udigits b x = x mod b # udigits b (x div b)" by (subst udigits.simps) simp
    then have "d = x mod b \<or> d \<in> set (udigits b (x div b))" using "1.prems"(2) by simp
    then show ?thesis using m "1.IH" [OF False "1.prems"(1)] by blast
  qed
qed

lemma length_udigits: "2 \<le> b \<Longrightarrow> x < b ^ k \<Longrightarrow> 0 < k \<Longrightarrow> length (udigits b x) \<le> k"
proof (induction k arbitrary: x)
  case (Suc k)
  show ?case
  proof (cases "x div b = 0")
    case True then show ?thesis by (subst udigits.simps) simp
  next
    case False
    have "x div b < b ^ k" using Suc.prems(1,2) by (simp add: less_mult_imp_div_less mult.commute)
    moreover from this False have "0 < k" by (cases k) auto
    ultimately have "length (udigits b (x div b)) \<le> k" using Suc.IH Suc.prems(1) by blast
    with False Suc.prems(1) show ?thesis by (subst udigits.simps) simp
  qed
qed simp

lemma udigits_neq_Nil [simp]: "udigits b x \<noteq> []"
  by (subst udigits.simps) simp

text \<open>The other reading, most significant digit first.\<close>

lemma foldl_digits: "foldl (\<lambda>n d. n * b + d) a (rev ds) = a * b ^ length ds + undigits b ds"
  by (induction ds) (simp_all add: algebra_simps)

end
