(* ===== verification/Console.thy ===== *)
theory Console
  imports Proc Decimal
begin

unbundle bit_operations_syntax

text \<open>
  The console (console.c), the keyboard (kbd.c, kbd.h) and the serial line (uart.c): formatted output,
  the screen with its scrolling, the line editor that the interrupt handlers feed, and the device
  functions that \<open>read\<close> and \<open>write\<close> on the console call. The bytes that wait in the keyboard
  controller or the serial port are a parameter of the interrupt handlers.
\<close>

section \<open>Output\<close>

abbreviation BACKSPACE :: int where "BACKSPACE \<equiv> 0x100"
abbreviation newline :: int where "newline \<equiv> 10"

text \<open>Waiting for the transmitter, which changes nothing here, is left out.\<close>

definition uartputc :: "int \<Rightarrow> kst \<Rightarrow> kst" where
  "uartputc c s = (if uart s = 0 then s else s\<lparr>uartout := uartout s @ [word_of_int c]\<rparr>)"

text \<open>\<open>memmove(crt, crt+80, ...)\<close> of 23 rows and \<open>memset(crt+pos, 0, ...)\<close> up to row 24.\<close>

definition scroll_up :: "nat \<Rightarrow> u16 list \<Rightarrow> u16 list" where
  "scroll_up pos cs =
     (let cs = take (23 * 80) (drop 80 cs) @ drop (23 * 80) cs
      in take pos cs @ replicate (24 * 80 - pos) 0 @ drop (max pos (24 * 80)) cs)"

text \<open>The cursor registers hold 16 bits. The screen has \<open>25 * 80\<close> cells; a store outside them is a
  fault.\<close>

definition cgaputc :: "int \<Rightarrow> kst \<Rightarrow> unit kres" where
  "cgaputc c s =
     (let pos = unat (cursor s)
      in bnd (if c = newline then Ok (pos + (80 - pos mod 80)) s
              else if c = BACKSPACE then Ok (if pos > 0 then pos - 1 else pos) s
              else if pos \<ge> length (crt s) then Fault ''crt''
              else Ok (Suc pos) (s\<lparr>crt := (crt s)[pos := (word_of_int c AND 0xff) OR 0x0700]\<rparr>)) (\<lambda>pos s.
         if pos > 25 * 80 then Panic ''pos under/overflow''
         else let (pos, s) = (if pos div 80 \<ge> 24 then (pos - 80, s\<lparr>crt := scroll_up (pos - 80) (crt s)\<rparr>) else (pos, s))
              in Ok () (s\<lparr>cursor := of_nat pos, crt := (crt s)[pos := 32 OR 0x0700]\<rparr>)))"

definition consputc :: "int \<Rightarrow> kst \<Rightarrow> unit kres" where
  "consputc c s =
     (if panicked s \<noteq> 0 then Stuck
      else let s = (if c = BACKSPACE then uartputc 8 (uartputc 32 (uartputc 8 s)) else uartputc c s)
           in cgaputc c s)"

definition putall :: "u8 list \<Rightarrow> kst \<Rightarrow> unit kres" where
  "putall = for_each (\<lambda>b. consputc (uint b))"

definition low_digit :: "nat \<Rightarrow> u8" where
  "low_digit d = bytes_of ''0123456789abcdef'' ! d"

text \<open>The characters in the order in which they are put out.\<close>

definition int_chars :: "(nat \<Rightarrow> u8) \<Rightarrow> int \<Rightarrow> nat \<Rightarrow> bool \<Rightarrow> u8 list" where
  "int_chars digit xx base sign =
     (let neg = (sign \<and> xx < 0);
          x = (word_of_int (if neg then - xx else xx) :: u32);
          buf = map digit (udigits base (unat x));
          buf = (if neg then buf @ [45] else buf)
      in rev buf)"

definition printint :: "int \<Rightarrow> nat \<Rightarrow> bool \<Rightarrow> kst \<Rightarrow> unit kres" where
  "printint xx base sign = putall (int_chars low_digit xx base sign)"

text \<open>The arguments of \<open>cprintf\<close>, one word each on the stack: a number, or a string pointer with the
  bytes it points at (\<open>None\<close> for a null pointer).\<close>

datatype carg = Num int | Str "u8 list option"

definition null_str :: "u8 list" where
  "null_str = bytes_of ''(null)''"

fun print_fmt :: "u8 list \<Rightarrow> carg list \<Rightarrow> kst \<Rightarrow> unit kres" where
  "print_fmt [] args s = Ok () s"
| "print_fmt [c] args s = (if c \<noteq> 37 then consputc (uint c) s else Ok () s)"
| "print_fmt (c # d # fmt) args s =
     (if c \<noteq> 37 then seq (consputc (uint c) s) (print_fmt (d # fmt) args)
      else if d = 100
      then (case args of Num x # args \<Rightarrow> seq (printint x 10 True s) (print_fmt fmt args) | _ \<Rightarrow> Fault ''cprintf: argument'')
      else if d = 120 \<or> d = 112
      then (case args of Num x # args \<Rightarrow> seq (printint x 16 False s) (print_fmt fmt args) | _ \<Rightarrow> Fault ''cprintf: argument'')
      else if d = 115
      then (case args of
              Str p # args \<Rightarrow> seq (putall (case p of None \<Rightarrow> null_str | Some bs \<Rightarrow> bs) s) (print_fmt fmt args)
            | _ \<Rightarrow> Fault ''cprintf: argument'')
      else if d = 37 then seq (consputc 37 s) (print_fmt fmt args)
      else seq (consputc 37 s) (\<lambda>s. seq (consputc (uint d) s) (print_fmt fmt args)))"

definition cprintf :: "u8 list option \<Rightarrow> carg list \<Rightarrow> kst \<Rightarrow> unit kres" where
  "cprintf fmt args s =
     (let locking = cons_locking s
      in seq (if locking \<noteq> 0 then acquire L_cons s else Ok () s) (\<lambda>s.
         case fmt of
           None \<Rightarrow> Panic ''null fmt''
         | Some f \<Rightarrow> seq (print_fmt f args s) (\<lambda>s. if locking \<noteq> 0 then release L_cons s else Ok () s)))"

section \<open>Input\<close>

abbreviation INPUT_BUF :: nat where "INPUT_BUF \<equiv> 128"

definition upd_input :: "(inputbuf \<Rightarrow> inputbuf) \<Rightarrow> kst \<Rightarrow> kst" where
  "upd_input f s = s\<lparr>input := f (input s)\<rparr>"

text \<open>The byte before the edit index.\<close>

definition last_byte :: "inputbuf \<Rightarrow> u8" where
  "last_byte b = ibuf b ! (unat (in_e b - 1) mod INPUT_BUF)"

text \<open>Control-U: \<open>while(input.e != input.w && input.buf[(input.e-1) % INPUT_BUF] != '\n')\<close>.\<close>

definition kill_line :: "kst \<Rightarrow> unit kres" where
  "kill_line =
     loop (\<lambda>s.
       if in_e (input s) \<noteq> in_w (input s) \<and> last_byte (input s) \<noteq> 10
       then seq (consputc BACKSPACE (upd_input (\<lambda>b. b\<lparr>in_e := in_e b - 1\<rparr>) s)) (Ok None)
       else Ok (Some ()) s)"

text \<open>One character of the line editor; the value says whether to print the process list.\<close>

definition console_char :: "int \<Rightarrow> bool \<Rightarrow> kst \<Rightarrow> bool kres" where
  "console_char c dump s =
     (if c = 16 then Ok True s
      else if c = 21 then seq (kill_line s) (Ok dump)
      else if c = 8 \<or> c = 127
      then (if in_e (input s) \<noteq> in_w (input s)
            then seq (consputc BACKSPACE (upd_input (\<lambda>b. b\<lparr>in_e := in_e b - 1\<rparr>) s)) (Ok dump)
            else Ok dump s)
      else if c \<noteq> 0 \<and> in_e (input s) - in_r (input s) < of_nat INPUT_BUF
      then let c = (if c = 13 then newline else c);
               s = upd_input (\<lambda>b. b\<lparr>ibuf := (ibuf b)[unat (in_e b) mod INPUT_BUF := word_of_int c], in_e := in_e b + 1\<rparr>) s
           in seq (consputc c s) (\<lambda>s.
                if c = newline \<or> c = 4 \<or> in_e (input s) = in_r (input s) + of_nat INPUT_BUF
                then seq (wakeup Ch_input (upd_input (\<lambda>b. b\<lparr>in_w := in_e b\<rparr>) s)) (Ok dump)
                else Ok dump s)
      else Ok dump s)"

text \<open>\<open>getc\<close> takes the next character from the device queue \<open>q\<close>.\<close>

definition consoleintr :: "('q \<Rightarrow> kst \<Rightarrow> int \<times> 'q \<times> kst) \<Rightarrow> 'q \<Rightarrow> kst \<Rightarrow> unit kres" where
  "consoleintr getc q s =
     seq (acquire L_cons s) (\<lambda>s.
     bnd (loop_with (\<lambda>(q, dump) s.
            case getc q s of (c, q, s) \<Rightarrow>
              if c \<ge> 0 then bnd (console_char c dump s) (\<lambda>dump. Ok (Inl (q, dump)))
              else Ok (Inr dump) s) (q, False) s) (\<lambda>dump s.
     seq (release L_cons s) (\<lambda>s.
     Ok () (if dump then procdump s else s))))"

section \<open>The device functions\<close>

text \<open>\<open>while(input.r == input.w)\<close>: whether there is input, or the process was killed.\<close>

definition await_input :: "env \<Rightarrow> kst \<Rightarrow> bool kres" where
  "await_input E =
     loop (\<lambda>s.
       if in_r (input s) = in_w (input s)
       then with_proc s (\<lambda>p.
              if killed (ptable s ! p) \<noteq> 0 then Ok (Some False) s
              else seq (sleep E Ch_input (Some L_cons) s) (Ok None))
       else Ok (Some True) s)"

text \<open>The loop: the remaining count and the bytes stored, or \<open>None\<close> when killed.\<close>

definition read_loop :: "env \<Rightarrow> dst \<Rightarrow> int \<Rightarrow> kst \<Rightarrow> (int \<times> u8 list) option kres" where
  "read_loop E d target =
     loop_with (\<lambda>(n, acc) s.
       if n > 0
       then bnd (await_input E s) (\<lambda>ok s.
              if \<not> ok then Ok (Inr None) s
              else let c = ibuf (input s) ! (unat (in_r (input s)) mod INPUT_BUF);
                       s = upd_input (\<lambda>b. b\<lparr>in_r := in_r b + 1\<rparr>) s
                   in if c = 4
                      then Ok (Inr (Some (n, acc))) (if n < target then upd_input (\<lambda>b. b\<lparr>in_r := in_r b - 1\<rparr>) s else s)
                      else seq (copy_to d (of_nat (length acc)) [c] s) (\<lambda>s.
                             if c = 10 then Ok (Inr (Some (n - 1, acc @ [c]))) s
                             else Ok (Inl (n - 1, acc @ [c])) s))
       else Ok (Inr (Some (n, acc))) s) (target, [])"

definition consoleread :: "env \<Rightarrow> nat \<Rightarrow> dst \<Rightarrow> int \<Rightarrow> kst \<Rightarrow> (int \<times> u8 list) kres" where
  "consoleread E ip d n s =
     seq (iunlock (Some ip) s) (\<lambda>s.
     seq (acquire L_cons s) (\<lambda>s.
     bnd (read_loop E d n s) (\<lambda>r s.
     seq (release L_cons s) (\<lambda>s.
     seq (ilock E (Some ip) s) (\<lambda>s.
       case r of None \<Rightarrow> Ok (- 1, []) s | Some (rest, acc) \<Rightarrow> Ok (n - rest, acc) s)))))"

definition consolewrite :: "env \<Rightarrow> nat \<Rightarrow> src \<Rightarrow> int \<Rightarrow> kst \<Rightarrow> int kres" where
  "consolewrite E ip c n s =
     seq (iunlock (Some ip) s) (\<lambda>s.
     seq (acquire L_cons s) (\<lambda>s.
     seq (for_each (\<lambda>i s. bnd (copy_from c (of_nat i) 1 s) (\<lambda>bs s. consputc (uint (bs ! 0)) s)) [0..<nat n] s) (\<lambda>s.
     seq (release L_cons s) (\<lambda>s.
     seq (ilock E (Some ip) s) (Ok n)))))"

text \<open>\<open>consoleinit\<close> enters the two functions into \<open>devsw\<close>; enabling the interrupt is left out.\<close>

definition consoleinit :: "env \<Rightarrow> devtab \<Rightarrow> kst \<Rightarrow> devtab \<times> kst" where
  "consoleinit E D s =
     (D(1 := \<lparr>dread = Some (consoleread E), dwrite = Some (consolewrite E)\<rparr>),
      (initlock L_cons ''console'' s)\<lparr>cons_locking := 1\<rparr>)"

section \<open>The keyboard and the serial line\<close>

abbreviation SHIFT :: u32 where "SHIFT \<equiv> 1"
abbreviation CTL :: u32 where "CTL \<equiv> 2"
abbreviation CAPSLOCK :: u32 where "CAPSLOCK \<equiv> 8"
abbreviation E0ESC :: u32 where "E0ESC \<equiv> 64"

text \<open>The tables of kbd.h: a list for the first scan codes and the designated entries; every
  other entry is 0.\<close>

definition key_table :: "u8 list \<Rightarrow> (nat \<times> u8) list \<Rightarrow> nat \<Rightarrow> u8" where
  "key_table base des i =
     (case map_of des i of Some v \<Rightarrow> v | None \<Rightarrow> if i < length base then base ! i else 0)"

definition shiftcode :: "nat \<Rightarrow> u8" where
  "shiftcode = key_table [] [(0x1D, 2), (0x2A, 1), (0x36, 1), (0x38, 4), (0x9D, 2), (0xB8, 4)]"

definition togglecode :: "nat \<Rightarrow> u8" where
  "togglecode = key_table [] [(0x3A, 8), (0x45, 16), (0x46, 32)]"

definition special_keys :: "(nat \<times> u8) list" where
  "special_keys = [(0xC8, 226), (0xD0, 227), (0xC9, 230), (0xD1, 231), (0xCB, 228), (0xCD, 229),
     (0x97, 224), (0xCF, 225), (0xD2, 232), (0xD3, 233)]"

definition normalmap :: "nat \<Rightarrow> u8" where
  "normalmap = key_table
    [0, 27, 49, 50, 51, 52, 53, 54, 55, 56, 57, 48, 45, 61, 8, 9,
     113, 119, 101, 114, 116, 121, 117, 105, 111, 112, 91, 93, 10, 0, 97, 115,
     100, 102, 103, 104, 106, 107, 108, 59, 39, 96, 0, 92, 122, 120, 99, 118,
     98, 110, 109, 44, 46, 47, 0, 42, 0, 32, 0, 0, 0, 0, 0, 0,
     0, 0, 0, 0, 0, 0, 0, 55, 56, 57, 45, 52, 53, 54, 43, 49,
     50, 51, 48, 46, 0, 0, 0, 0]
    ((0x9C, 10) # (0xB5, 47) # special_keys)"

definition shiftmap :: "nat \<Rightarrow> u8" where
  "shiftmap = key_table
    [0, 27, 33, 64, 35, 36, 37, 94, 38, 42, 40, 41, 95, 43, 8, 9,
     81, 87, 69, 82, 84, 89, 85, 73, 79, 80, 123, 125, 10, 0, 65, 83,
     68, 70, 71, 72, 74, 75, 76, 58, 34, 126, 0, 124, 90, 88, 67, 86,
     66, 78, 77, 60, 62, 63, 0, 42, 0, 32, 0, 0, 0, 0, 0, 0,
     0, 0, 0, 0, 0, 0, 0, 55, 56, 57, 45, 52, 53, 54, 43, 49,
     50, 51, 48, 46, 0, 0, 0, 0]
    ((0x9C, 10) # (0xB5, 47) # special_keys)"

definition ctlmap :: "nat \<Rightarrow> u8" where
  "ctlmap = key_table
    [0, 0, 0, 0, 0, 0, 0, 0, 0, 0, 0, 0, 0, 0, 0, 0,
     17, 23, 5, 18, 20, 25, 21, 9, 15, 16, 0, 0, 13, 0, 1, 19,
     4, 6, 7, 8, 10, 11, 12, 0, 0, 0, 0, 28, 26, 24, 3, 22,
     2, 14, 13, 0, 0, 239, 0, 0]
    ((0x9C, 13) # (0xB5, 239) # special_keys)"

definition charcode :: "u32 \<Rightarrow> nat \<Rightarrow> u8" where
  "charcode m = (if m = 0 then normalmap else if m = 1 then shiftmap else ctlmap)"

text \<open>\<open>kbdgetc\<close> with the bytes waiting in the controller.\<close>

definition kbdgetc :: "u8 list \<Rightarrow> kst \<Rightarrow> int \<times> u8 list \<times> kst" where
  "kbdgetc q s =
     (case q of
        [] \<Rightarrow> (- 1, [], s)
      | b # q \<Rightarrow>
          let data = (ucast b :: u32); shift = kbd_shift s
          in if data = 0xE0 then (0, q, s\<lparr>kbd_shift := shift OR E0ESC\<rparr>)
             else if data AND 0x80 \<noteq> 0
             then let data = (if shift AND E0ESC \<noteq> 0 then data else data AND 0x7F)
                  in (0, q, s\<lparr>kbd_shift := shift AND NOT (ucast (shiftcode (unat data)) OR E0ESC)\<rparr>)
             else let (data, shift) = (if shift AND E0ESC \<noteq> 0 then (data OR 0x80, shift AND NOT E0ESC) else (data, shift));
                      shift = shift OR ucast (shiftcode (unat data));
                      shift = shift XOR ucast (togglecode (unat data));
                      c = uint (charcode (shift AND (CTL OR SHIFT)) (unat data));
                      c = (if shift AND CAPSLOCK \<noteq> 0
                           then (if 97 \<le> c \<and> c \<le> 122 then c - 32 else if 65 \<le> c \<and> c \<le> 90 then c + 32 else c)
                           else c)
                  in (c, q, s\<lparr>kbd_shift := shift\<rparr>))"

definition kbdintr :: "u8 list \<Rightarrow> kst \<Rightarrow> unit kres" where
  "kbdintr q s = consoleintr kbdgetc q s"

definition uartgetc :: "u8 list \<Rightarrow> kst \<Rightarrow> int \<times> u8 list \<times> kst" where
  "uartgetc q s = (if uart s = 0 then (- 1, q, s) else case q of [] \<Rightarrow> (- 1, [], s) | b # q \<Rightarrow> (uint b, q, s))"

definition uartintr :: "u8 list \<Rightarrow> kst \<Rightarrow> unit kres" where
  "uartintr q s = consoleintr uartgetc q s"

end
