(* ===== verification/Trap.thy ===== *)
theory Trap
  imports Sysfile Sysproc Console
begin

unbundle bit_operations_syntax

text \<open>
  System call dispatch (syscall.c), traps (trap.c, trapasm.S) and the interrupt descriptors (mmu.h).
  What a trap reads from the devices is a parameter: the bytes that wait in the keyboard controller
  and the serial port, and the faulting address in \<open>cr2\<close>.
\<close>

section \<open>System calls\<close>

text \<open>The table \<open>syscalls\<close>, by number.\<close>

definition syscalls :: "env \<Rightarrow> devtab \<Rightarrow> int \<Rightarrow> (kst \<Rightarrow> int kres) option" where
  "syscalls E D num =
     map_of [(1, sys_fork), (2, sys_exit E), (3, sys_wait E), (4, sys_pipe E), (5, sys_read E D), (6, sys_kill),
       (7, sys_exec E D), (8, sys_fstat E), (9, sys_chdir E D), (10, sys_dup), (11, sys_getpid), (12, sys_sbrk),
       (13, sys_sleep E), (14, sys_uptime), (15, sys_open E D), (16, sys_write E D), (17, sys_mknod E D),
       (18, sys_unlink E D), (19, sys_link E D), (20, sys_mkdir E D), (21, sys_close E), (22, sys_signal),
       (23, sys_sigsend), (24, sys_sigreturn), (25, sys_alarm)] num"

definition syscall :: "env \<Rightarrow> devtab \<Rightarrow> kst \<Rightarrow> unit kres" where
  "syscall E D s = with_proc s (\<lambda>p.
     let num = sint (tf_eax (tf (me s p)))
     in case (if num > 0 \<and> num < 26 then syscalls E D num else None) of
          Some f \<Rightarrow> bnd (f s) (\<lambda>r s. with_proc s (\<lambda>p. Ok () (upd_tf p (\<lambda>t. t\<lparr>tf_eax := word_of_int r\<rparr>) s)))
        | None \<Rightarrow>
            let s = cprint (''%d '' @ string_of (pname (me s p)) @ '': unknown sys call %d'') [pid (me s p), num] s
            in Ok () (upd_tf p (\<lambda>t. t\<lparr>tf_eax := - 1\<rparr>) s))"

section \<open>Gates\<close>

record gatedesc =
  off_15_0 :: "16 word"
  g_cs :: "16 word"
  g_args :: "5 word"
  g_rsv1 :: "3 word"
  g_type :: "4 word"
  g_s :: "1 word"
  g_dpl :: "2 word"
  g_p :: "1 word"
  off_31_16 :: "16 word"

definition SETGATE :: "bool \<Rightarrow> 16 word \<Rightarrow> u32 \<Rightarrow> 2 word \<Rightarrow> gatedesc" where
  "SETGATE istrap sel off d =
     \<lparr>off_15_0 = ucast (off AND 0xffff), g_cs = sel, g_args = 0, g_rsv1 = 0,
      g_type = (if istrap then 0xF else 0xE), g_s = 0, g_dpl = d, g_p = 1, off_31_16 = ucast (drop_bit 16 off)\<rparr>"

text \<open>The descriptor table, given the entry points of vectors.S.\<close>

definition tvinit :: "(nat \<Rightarrow> u32) \<Rightarrow> kst \<Rightarrow> (nat \<Rightarrow> gatedesc) \<times> kst" where
  "tvinit vectors s =
     ((\<lambda>i. SETGATE False (push_bit 3 1) (vectors i) 0)(64 := SETGATE True (push_bit 3 1) (vectors 64) 3),
      initlock L_tickslock ''time'' s)"

section \<open>Traps\<close>

abbreviation T_SYSCALL :: u32 where "T_SYSCALL \<equiv> 64"
abbreviation T_IRQ0 :: u32 where "T_IRQ0 \<equiv> 32"

record trap_input =
  cr2 :: u32
  kbd_bytes :: "u8 list"
  uart_bytes :: "u8 list"

definition is_killed :: "kst \<Rightarrow> bool" where
  "is_killed s = (case curproc s of None \<Rightarrow> False | Some p \<Rightarrow> killed (me s p) \<noteq> 0)"

definition from_user :: "trapframe \<Rightarrow> bool" where
  "from_user f \<longleftrightarrow> tf_cs f AND 3 = 3"

text \<open>\<open>if(proc && proc->killed && (tf->cs&3) == DPL_USER) exit();\<close>\<close>

definition exit_if_killed :: "env \<Rightarrow> trapframe \<Rightarrow> kst \<Rightarrow> unit kres" where
  "exit_if_killed E f s = (if is_killed s \<and> from_user f then exit E s else Ok () s)"

text \<open>The \<open>switch\<close> over the interrupt number.\<close>

definition trap_device :: "trap_input \<Rightarrow> trapframe \<Rightarrow> kst \<Rightarrow> unit kres" where
  "trap_device inp f s =
     (let no = tf_trapno f
      in if no = T_IRQ0 + 0
         then (if mycpu s = 0
               then seq (acquire L_tickslock s) (\<lambda>s.
                    seq (wakeup Ch_ticks (s\<lparr>ticks := ticks s + 1\<rparr>)) (release L_tickslock))
               else Ok () s)
         else if no = T_IRQ0 + 14 then Ok () (ideintr s)
         else if no = T_IRQ0 + 15 then Ok () s
         else if no = T_IRQ0 + 1 then kbdintr (kbd_bytes inp) s
         else if no = T_IRQ0 + 4 then uartintr (uart_bytes inp) s
         else if no = T_IRQ0 + 7 \<or> no = T_IRQ0 + 31
         then Ok () (cprint ''cpu%d: spurious interrupt at %x:%x'' [int (mycpu s), uint (tf_cs f), uint (tf_eip f)] s)
         else (case curproc s of
                 None \<Rightarrow> Panic ''trap''
               | Some p \<Rightarrow>
                   if tf_cs f AND 3 = 0 then Panic ''trap''
                   else let s = cprint (''pid %d '' @ string_of (pname (me s p)) @
                                  '': trap %d err %d on cpu %d eip 0x%x addr 0x%x--kill proc'')
                                  [pid (me s p), uint no, uint (tf_err f), int (mycpu s), uint (tf_eip f), uint (cr2 inp)] s
                        in Ok () (upd_proc p (\<lambda>q. q\<lparr>killed := 1\<rparr>) s)))"

definition trap :: "env \<Rightarrow> devtab \<Rightarrow> trap_input \<Rightarrow> trapframe \<Rightarrow> kst \<Rightarrow> unit kres" where
  "trap E D inp f s =
     (if tf_trapno f = T_SYSCALL
      then with_proc s (\<lambda>p.
             seq (if killed (me s p) \<noteq> 0 then exit E s else Ok () s) (\<lambda>s.
             seq (syscall E D (upd_tf p (\<lambda>_. f) s)) (\<lambda>s. with_proc s (\<lambda>p.
               if killed (me s p) \<noteq> 0 then exit E s else Ok () s))))
      else seq (trap_device inp f s) (\<lambda>s.
           seq (exit_if_killed E f s) (\<lambda>s.
           seq (case curproc s of
                  None \<Rightarrow> Ok () s
                | Some p \<Rightarrow> if pstate (me s p) = RUNNING \<and> tf_trapno f = T_IRQ0 then yield E s else Ok () s) (\<lambda>s.
           exit_if_killed E f s))))"

text \<open>\<open>alltraps\<close> and \<open>trapret\<close> of trapasm.S: a trap from user mode leaves its frame at the top of the
  kernel stack, where \<open>proc->tf\<close> points; after \<open>trap\<close> the pending signals are looked at, and the
  registers are restored from the frame.\<close>

definition alltraps :: "env \<Rightarrow> devtab \<Rightarrow> trap_input \<Rightarrow> trapframe \<Rightarrow> kst \<Rightarrow> trapframe kres" where
  "alltraps E D inp f s =
     (let s = (if from_user f then (case curproc s of None \<Rightarrow> s | Some p \<Rightarrow> upd_tf p (\<lambda>_. f) s) else s)
      in seq (trap E D inp f s) (\<lambda>s.
         seq (handleSignal f s) (\<lambda>s.
           if from_user f then with_proc s (\<lambda>p. Ok (tf (me s p)) s) else Ok f s)))"

end
