(* ===== verification/Dispatch.thy ===== *)
theory Dispatch
  imports Trap
begin

unbundle bit_operations_syntax

text \<open>
  System calls through the dispatcher of syscall.c: what \<open>sigreturn\<close> leaves in the trap frame when it is
  called the only way user code can call it.
\<close>

lemma syscall_run:
  assumes "curproc s = Some p" "sint (tf_eax (tf (me s p))) = num" "0 < num" "num < 26" "syscalls E D num = Some f" "f s = Ok r t"
    "curproc t = Some p"
  shows "syscall E D s = Ok () (upd_tf p (\<lambda>x. x\<lparr>tf_eax := word_of_int r\<rparr>) t)"
  using assms by (simp add: syscall_def with_proc_def Let_def)

lemma upd_tf_fields: "curproc (upd_tf p f s) = curproc s" "length (ptable (upd_tf p f s)) = length (ptable s)"
  "p < length (ptable s) \<Longrightarrow> tf (ptable (upd_tf p f s) ! p) = f (tf (ptable s ! p))"
  by (simp_all add: upd_tf_def upd_proc_def)

text \<open>C23: returning from a signal handler loses a register. When the return code on the user stack makes system call 24 with
  the saved trap frame \<open>f\<close> in place, the trap frame of the process becomes \<open>f\<close> in every field but \<open>eax\<close>: the
  dispatcher stores the result 0 of \<open>sigreturn\<close> over the \<open>eax\<close> that \<open>sigreturn\<close> has just restored.\<close>

theorem sigreturn_overwrites_eax:
  assumes "curproc u = Some p" "p < length (ptable u)" "tf_eax (tf (me u p)) = 24"
    and "ublock (mem u) (cur_pgdir u) va 92" "uesp p u = va + 4"
    and "take 76 (drop 8 (ubytes (mem u) (cur_pgdir u) va 92)) = tf_bytes f"
  shows "\<exists>v. syscall E D u = Ok () v \<and> tf (me v p) = f\<lparr>tf_eax := 0\<rparr>"
proof -
  have "sigreturn u = Ok 0 (upd_tf p (\<lambda>_. f) u)"
    by (rule sigreturn_frame [OF assms(1,2,4), of 8]) (use assms(5,6) in simp_all)
  then have "syscall E D u = Ok () (upd_tf p (\<lambda>x. x\<lparr>tf_eax := word_of_int 0\<rparr>) (upd_tf p (\<lambda>_. f) u))"
    using assms(1,3) by (intro syscall_run [where num = 24 and f = sys_sigreturn]) (simp_all add: syscalls_def sys_sigreturn_def upd_tf_fields)
  then show ?thesis using assms(2) by (auto simp: upd_tf_fields)
qed

theorem sigreturn_overwrites_eax_witness:
  "\<exists>m v. syscall (\<lambda>_ s. s) (\<lambda>_. \<lparr>dread = None, dwrite = None\<rparr>)
       (upd_tf 0 (\<lambda>f. f\<lparr>tf_eax := 24, tf_esp := 0x3ea8\<rparr>) (sig_demo\<lparr>mem := m\<rparr>)) = Ok () v \<and>
     tf_eip (tf (me v 0)) = 0x100 \<and> tf_eax (tf sig_proc) = 77 \<and> tf_eax (tf (me v 0)) = 0"
proof -
  obtain m where m: "ublock m 0x80401000 0x3ea4 92"
    "ubytes m 0x80401000 0x3ea4 92 = take 8 (ubytes sig_mem 0x80401000 0x3ea4 92) @ tf_bytes (tf sig_proc) @
       drop (8 + length (tf_bytes (tf sig_proc))) (ubytes sig_mem 0x80401000 0x3ea4 92)"
    using ustore_block [OF sig_demo_stack, of 8 "tf_bytes (tf sig_proc)"] by (auto simp: tf_bytes_def)
  let ?u = "upd_tf 0 (\<lambda>f. f\<lparr>tf_eax := 24, tf_esp := 0x3ea8\<rparr>) (sig_demo\<lparr>mem := m\<rparr>)"
  have f: "mem ?u = m" "cur_pgdir ?u = 0x80401000"
    using sig_demo_simps(6) by (simp_all add: upd_tf_def upd_proc_def)
  have b: "take 76 (drop 8 (ubytes (mem ?u) (cur_pgdir ?u) 0x3ea4 92)) = tf_bytes (tf sig_proc)"
    unfolding f m(2) by (simp add: tf_bytes_def)
  obtain v where "syscall (\<lambda>_ s. s) (\<lambda>_. \<lparr>dread = None, dwrite = None\<rparr>) ?u = Ok () v" "tf (me v 0) = (tf sig_proc)\<lparr>tf_eax := 0\<rparr>"
    using sigreturn_overwrites_eax [of ?u 0 "0x3ea4" "tf sig_proc" "\<lambda>_ s. s" "\<lambda>_. \<lparr>dread = None, dwrite = None\<rparr>"] b m(1)
    by (auto simp: f upd_tf_fields sig_demo_simps)
  then show ?thesis by (intro exI [of _ m] exI [of _ v]) (simp add: sig_proc_def)
qed

end
