(* ===== verification/Spec2Isabelle.thy ===== *)
theory Spec2Isabelle
  imports Usemaphore Fs_Files Fs_Names User_Args Dispatch
begin

text \<open>
  A verification library for this variant of the xv6 kernel, with signals and an alarm, and for its
  user-level thread library with semaphores. All files named below are under src/.

  \<^bold>\<open>The program.\<close> The kernel runs processes on several CPUs. Spin locks (spinlock.c) protect its tables. The
  page allocator (kalloc.c) hands out 4096-byte pages, from which vm.c builds address spaces. The scheduler
  (proc.c) switches between processes, which sleep and are woken up; sleep locks (sleeplock.c) and pipes
  (pipe.c) build on that. The file system has four layers: the disk (memide.c), the buffer cache (bio.c), the
  write-ahead log (log.c), and blocks, inodes, directories and paths (fs.c); file.c puts open files on top of
  it, and sysfile.c, exec.c, sysproc.c and syscall.c the system calls. trap.c and trapasm.S connect hardware
  events with all of this, console.c, kbd.c and uart.c the terminal. Signals (first part of proc.c) are
  delivered on the way back to user mode by rewriting the user stack. In user space uthread.c multiplexes
  threads with the alarm signal, usemaphore.c builds counting semaphores from its binary ones, and umalloc.c
  is the heap.

  \<^bold>\<open>Form of the model.\<close> A C function that uses the kernel's state is a function from \<open>kst\<close>, one record of all kernel
  data (theory Kernel_State), to an outcome (theory Prelude): \<open>Ok\<close> with a result and the new state,
  \<open>Panic\<close> with the message of the call of panic(), \<open>Fault\<close> for an access that C leaves undefined, \<open>Asleep\<close> when it
  gives up the CPU and is not woken, \<open>Stuck\<close> when it loops for ever, and \<open>Exited\<close>. Pointers into fixed tables are indices;
  memory is a function from 32-bit addresses to bytes, and the page tables, the free list, user memory and
  the contents of disk blocks are bytes in it or in block arrays, read and written at the offsets of the C
  structures (theories Bytes, Layout, Mmu). Machine integers are words where they can wrap. What other processes
  do while one sleeps is the parameter \<open>E\<close>, an arbitrary function on states; the device table is the
  parameter \<open>D\<close>; bytes that arrive from devices, the addresses of linker symbols and of the trap vectors are
  parameters too.

  \<^bold>\<open>Loops.\<close> Loops over tables are folds or searches over lists. Other loops are \<open>loop\<close>, \<open>loop_with\<close> and \<open>for_while\<close> of Prelude,
  which are partial functions: there is no fuel, and a loop that does not end is \<open>Stuck\<close>. That a loop
  ends is therefore part of every statement that gives its result, and is shown with the rule \<open>loop_with_rule\<close> (an invariant and
  a decreasing measure).

  \<^bold>\<open>Theories and what they show.\<close>
  \<^item> Prelude, Bytes, Layout, Decimal: shared vocabulary; byte and word layout with read-after-write laws; digits.
  \<^item> Cstring (string.c): \<open>memmove\<close> is right for overlapping blocks.
  \<^item> Kernel_State (proc.h, mmu.h, x86.h, fs.h, file.h, buf.h and others): the records.
  \<^item> Spinlock (spinlock.c): a step relation for CPUs that compete for a lock; mutual exclusion and interrupt state in every
    interleaving. The locale \<open>locked_op\<close> is the contract of a critical section; the allocator, \<open>wakeup\<close>,
    \<open>kill\<close> and \<open>sigsend\<close> are instances.
  \<^item> Kalloc (kalloc.c): no page is handed out twice, against the contract \<open>page_allocator\<close>; \<open>freerange\<close>.
  \<^item> Sched (proc.c, switchuvm, switchkvm): \<open>sleep\<close> loses no wakeup, one pass of \<open>scheduler\<close> runs every runnable process,
    \<open>kill\<close>. The locales \<open>well_behaved\<close> and \<open>waker\<close> say what the scheduler needs of a process and \<open>sleep\<close> of
    the other processes.
  \<^item> Mmu, Vm (mmu.h, vm.c): the walk of the hardware, the routines on page tables; \<open>mappages\<close> of one page changes
    exactly one translation, \<open>uva2ka\<close> agrees with the hardware, \<open>deallocuvm\<close> and \<open>freevm\<close> always end.
  \<^item> Signals (proc.c, umsigret.S): the handler frame and its restoration, the choice of the signal, \<open>alarm\<close>, \<open>sigsend\<close>.
  \<^item> Quiet, Sleeplock, Dll, Bio (sleeplock.c, bio.c, memide.c): the buffer cache presents the disk as an array of blocks.
  \<^item> Log (log.c): a crash at any point of a commit leaves all or nothing of a transaction; \<open>end_op\<close>, \<open>begin_op\<close>.
  \<^item> Pipe (pipe.c): the ring buffer implements the contract \<open>bounded_queue\<close>, also when the counters wrap.
  \<^item> Fs (fs.c): every routine. Fs_Blocks: block operations in a transaction, \<open>balloc\<close>. Fs_Files: a file as a list of
    bytes, \<open>readi\<close> and \<open>writei\<close>. Fs_Names: path elements, the inode cache, the inode on disk.
  \<^item> File, Proc, Sysarg, Exec, Sysfile, Sysproc, Console, Trap: the remaining kernel routines. User_Args: checked user
    pointers and strings, shrinking a process. Dispatch: \<open>sigreturn\<close> through \<open>syscall\<close>.
  \<^item> Umalloc, Uthread, Usemaphore: user space; the context switch and the fairness of the thread library, and the counting
    semaphore in every interleaving, over the contract \<open>bsem_lib\<close> that the thread library satisfies.

  \<^bold>\<open>Hypotheses.\<close> The file system properties are about a process in a transaction (\<open>txn\<close>) that holds no spin lock and no buffer,
  with room in the log stated explicitly, on a well-formed file (\<open>file_ok\<close>, \<open>separate\<close>) or bitmap (\<open>bitmap_ok\<close>); a concrete
  disk with mkfs's layout for 1000 blocks meets them. \<open>readi\<close> and \<open>writei\<close> are treated for buffers of the kernel and for writes
  inside the file; growing a file and copying to and from user memory are modelled but have no property here.

  \<^bold>\<open>Not modelled.\<close> The IDE driver ide.c (the kernel modelled is the one with memide.c, which has the same interface); boot code, main.c and
  swtch.S (assembly and initialisation order); lapic.c, ioapic.c, picirq.c, mp.c, timer.c and the set-up of the
  serial port (device programming); the user library, the shell, the user programs and tests; and mkfs.c, which runs
  on the host. Definitions without a property of their own are those of exec.c, sysfile.c, file.c, console.c and umalloc.c.
\<close>

end
